(* ===== verification/NdnPrelude.thy ===== *)
theory NdnPrelude
  imports Main "HOL-Library.Word" "HOL-Library.Sublist"
begin

text \<open>
  Shared vocabulary of the development: the octets and identifiers every component uses, the
  list operations the C++ containers need (erase or update the first element that satisfies a
  predicate, as \<^verbatim>\<open>std::find_if\<close> followed by \<^verbatim>\<open>erase\<close> does), \<^verbatim>\<open>std::memcmp\<close>, and the
  contract of a C-style three-way comparison with the facts about sorted containers that
  follow from it.
\<close>

named_theorems table_simps \<open>lookup-after-update facts of the tables\<close>
named_theorems inv_intros \<open>operations preserve the invariants\<close>

type_synonym byte = "8 word"
type_synonym bytes = "byte list"

text \<open>Points in time of \<^verbatim>\<open>time::steady_clock\<close> and durations, both in nanoseconds.\<close>

type_synonym time_ns = int

text \<open>The address of a \<^verbatim>\<open>Face\<close> object: faces are compared by address in the tables.\<close>

type_synonym face_ptr = nat

section \<open>First match in a list\<close>

fun delete_first :: "('a \<Rightarrow> bool) \<Rightarrow> 'a list \<Rightarrow> 'a list" where
  "delete_first P [] = []"
| "delete_first P (x # xs) = (if P x then xs else x # delete_first P xs)"

fun update_first :: "('a \<Rightarrow> bool) \<Rightarrow> ('a \<Rightarrow> 'a) \<Rightarrow> 'a list \<Rightarrow> 'a list" where
  "update_first P f [] = []"
| "update_first P f (x # xs) = (if P x then f x # xs else x # update_first P f xs)"

lemma delete_first_id: "(\<And>x. x \<in> set xs \<Longrightarrow> \<not> P x) \<Longrightarrow> delete_first P xs = xs"
  by (induction xs) auto

lemma set_delete_first_subset: "set (delete_first P xs) \<subseteq> set xs"
  by (induction xs) auto

lemma delete_first_filter:
  assumes "distinct (map k xs)"
  shows "delete_first (\<lambda>x. k x = a) xs = filter (\<lambda>x. k x \<noteq> a) xs"
  using assms
proof (induction xs)
  case (Cons x xs)
  then have "k x = a \<Longrightarrow> filter (\<lambda>x. k x \<noteq> a) xs = xs"
    by (auto intro!: filter_True simp: image_def)
  with Cons show ?case by simp
qed simp

lemma update_first_map:
  assumes "distinct (map k xs)"
  shows "update_first (\<lambda>x. k x = a) f xs = map (\<lambda>x. if k x = a then f x else x) xs"
  using assms
proof (induction xs)
  case (Cons x xs)
  then have "k x = a \<Longrightarrow> map (\<lambda>x. if k x = a then f x else x) xs = xs"
    by (auto intro!: map_idI simp: image_def)
  with Cons show ?case by simp
qed simp

lemma map_key_update_first:
  "(\<And>x. P x \<Longrightarrow> k (f x) = k x) \<Longrightarrow> map k (update_first P f xs) = map k xs"
  by (induction xs) auto

lemma length_update_first [simp]: "length (update_first P f xs) = length xs"
  by (induction xs) auto

lemma set_update_first_subset: "set (update_first P f xs) \<subseteq> set xs \<union> f ` set xs"
  by (induction xs) auto

lemma find_None_iff': "(List.find P xs = None) = (\<forall>x \<in> set xs. \<not> P x)"
  by (auto simp: find_None_iff)

lemma find_SomeD: "List.find P xs = Some x \<Longrightarrow> x \<in> set xs \<and> P x"
  by (metis find_Some_iff nth_mem)

lemma find_key_Some:
  assumes "distinct (map k xs)" and "x \<in> set xs" and "k x = a"
  shows "List.find (\<lambda>y. k y = a) xs = Some x"
  using assms by (induction xs) force+

lemma unat_byte_less: "unat (b :: byte) < 256"
  using unsigned_less [of b] by simp

section \<open>Comparing octet strings\<close>

text \<open>
  \<^verbatim>\<open>std::memcmp(a, b, n)\<close>: only the sign of the result is specified by the language; the model
  returns -1, 0 or 1. Both buffers hold at least \<open>n\<close> octets wherever the code calls it.
\<close>

fun memcmp :: "nat \<Rightarrow> bytes \<Rightarrow> bytes \<Rightarrow> int" where
  "memcmp (Suc n) (x # xs) (y # ys) =
     (if x < y then -1 else if y < x then 1 else memcmp n xs ys)"
| "memcmp n xs ys = 0"

lemma memcmp_append:
  "length xs = length xs' \<Longrightarrow> length xs \<le> n \<Longrightarrow>
   memcmp n (xs @ ys) (xs' @ ys') =
     (if memcmp (length xs) xs xs' \<noteq> 0 then memcmp (length xs) xs xs'
      else memcmp (n - length xs) ys ys')"
proof (induction xs xs' arbitrary: n rule: list_induct2)
  case (Cons x xs y ys n)
  then obtain m where "n = Suc m" by (cases n) auto
  with Cons show ?case by auto
qed simp

lemma memcmp_refl [simp]: "memcmp n xs xs = 0"
proof (induction xs arbitrary: n)
  case (Cons x xs)
  then show ?case by (cases n) auto
qed simp

lemma memcmp_eq_0:
  "length xs = length ys \<Longrightarrow> memcmp (length xs) xs ys = 0 \<longleftrightarrow> xs = ys"
  by (induction xs ys rule: list_induct2) auto

lemma memcmp_antisym: "memcmp n ys xs = - memcmp n xs ys"
proof (induction n xs ys rule: memcmp.induct)
  case (1 n x xs y ys)
  then show ?case by (auto simp: not_less)
qed auto

lemma memcmp_trans:
  "\<lbrakk>length xs = length ys; length ys = length zs;
    memcmp (length xs) xs ys < 0; memcmp (length xs) ys zs < 0\<rbrakk> \<Longrightarrow> memcmp (length xs) xs zs < 0"
proof (induction xs ys zs rule: list_induct3)
  case (Cons x xs y ys z zs)
  then show ?case by (auto split: if_splits)
qed simp

section \<open>The contract of a three-way comparison\<close>

text \<open>
  What \<^verbatim>\<open>compare()\<close> promises its callers: zero exactly on equal arguments, opposite signs when
  the arguments are swapped, and transitivity. The order of \<^verbatim>\<open>name::Component\<close>, of
  \<^verbatim>\<open>Name\<close> and of Content Store entries are three instances.
\<close>

locale three_way =
  fixes cmp :: "'a \<Rightarrow> 'a \<Rightarrow> int"
  assumes cmp_eq_0: "cmp x y = 0 \<longleftrightarrow> x = y"
    and cmp_swap: "cmp x y < 0 \<longleftrightarrow> 0 < cmp y x"
    and cmp_trans: "cmp x y < 0 \<Longrightarrow> cmp y z < 0 \<Longrightarrow> cmp x z < 0"
begin

lemma refl0: "cmp x x = 0"
  by (simp add: cmp_eq_0)

lemma total: "cmp x y < 0 \<or> x = y \<or> cmp y x < 0"
  using cmp_eq_0 cmp_swap by (metis linorder_neqE_linordered_idom)

lemma asym: "cmp x y < 0 \<Longrightarrow> \<not> cmp y x < 0"
  using cmp_swap by (metis less_asym')

lemma le_less_trans: "cmp x y \<le> 0 \<Longrightarrow> cmp y z < 0 \<Longrightarrow> cmp x z < 0"
  by (metis cmp_eq_0 cmp_trans order_le_less)

lemma less_le_trans: "cmp x y < 0 \<Longrightarrow> cmp y z \<le> 0 \<Longrightarrow> cmp x z < 0"
  by (metis cmp_eq_0 cmp_trans order_le_less)

lemma le_antisym: "cmp x y \<le> 0 \<Longrightarrow> cmp y x \<le> 0 \<Longrightarrow> x = y"
  by (metis cmp_eq_0 cmp_swap leD order_le_less)

lemma ge_iff: "0 \<le> cmp x y \<longleftrightarrow> cmp y x \<le> 0"
  using cmp_swap cmp_eq_0 by (metis not_le total)

lemma le_trans: "cmp x y \<le> 0 \<Longrightarrow> cmp y z \<le> 0 \<Longrightarrow> cmp x z \<le> 0"
  using le_less_trans [of x y z] cmp_eq_0 [of y z] by (cases "cmp y z = 0") auto

lemma less_iff: "cmp x y < 0 \<longleftrightarrow> cmp x y \<le> 0 \<and> \<not> cmp y x \<le> 0"
  using cmp_swap [of x y] by auto

lemma le_total: "cmp x y \<le> 0 \<or> cmp y x \<le> 0"
  using ge_iff [of x y] by linarith

end

text \<open>
  The lexicographic extension to sequences, with a proper prefix ordered first: the loop of
  \<^verbatim>\<open>Name::compare\<close> returns the first non-zero component comparison and otherwise the
  difference of the lengths.
\<close>

fun lex_cmp :: "('a \<Rightarrow> 'a \<Rightarrow> int) \<Rightarrow> 'a list \<Rightarrow> 'a list \<Rightarrow> int" where
  "lex_cmp c (x # xs) (y # ys) = (if c x y \<noteq> 0 then c x y else lex_cmp c xs ys)"
| "lex_cmp c xs ys = int (length xs) - int (length ys)"

context three_way
begin

lemma lex_cmp_eq_0: "lex_cmp cmp xs ys = 0 \<longleftrightarrow> xs = ys"
proof (induction xs arbitrary: ys)
  case Nil
  show ?case by (cases ys) auto
next
  case (Cons x xs)
  then show ?case by (cases ys) (auto simp: cmp_eq_0)
qed

lemma lex_cmp_swap: "lex_cmp cmp xs ys < 0 \<longleftrightarrow> 0 < lex_cmp cmp ys xs"
proof (induction xs arbitrary: ys)
  case Nil
  show ?case by (cases ys) auto
next
  case (Cons x xs)
  show ?case
    using Cons.IH cmp_swap [of x] cmp_eq_0 by (cases ys) auto
qed

lemma lex_cmp_trans:
  "lex_cmp cmp xs ys < 0 \<Longrightarrow> lex_cmp cmp ys zs < 0 \<Longrightarrow> lex_cmp cmp xs zs < 0"
proof (induction xs arbitrary: ys zs)
  case (Cons x xs)
  from Cons.prems obtain y ys' z zs' where ys: "ys = y # ys'" and zs: "zs = z # zs'"
    by (cases ys; cases zs) auto
  show ?case
    using Cons.prems Cons.IH [of ys' zs'] cmp_trans [of x y z] cmp_eq_0 [of x y] cmp_eq_0 [of y z]
      cmp_eq_0 [of x z] refl0
    unfolding ys zs by (auto split: if_splits dest: asym)
next
  case Nil
  then show ?case by (cases ys; cases zs) auto
qed

lemma lex_three_way: "three_way (lex_cmp cmp)"
  by unfold_locales (rule lex_cmp_eq_0 lex_cmp_swap lex_cmp_trans; assumption)+

lemma lex_cmp_append_same: "lex_cmp cmp (ps @ xs) (ps @ ys) = lex_cmp cmp xs ys"
  by (induction ps) (auto simp: refl0)

lemma lex_cmp_prefix_le: "lex_cmp cmp xs (xs @ ys) \<le> 0"
  by (induction xs) (cases ys, auto simp: refl0)

end

end
