(* ===== verification/Tlv.thy ===== *)
theory Tlv
  imports NdnPrelude
begin

unbundle bit_operations_syntax

text \<open>
  The TLV layer of \<^verbatim>\<open>ndn-cxx/encoding\<close>: variable-size numbers, non-negative integers and blocks
  (\<^verbatim>\<open>tlv.hpp\<close>, \<^verbatim>\<open>encoder.cpp\<close>, \<^verbatim>\<open>estimator.hpp\<close>, \<^verbatim>\<open>block.cpp\<close>, \<^verbatim>\<open>block-helpers.cpp\<close>).
  An iterator range \<open>[begin, end)\<close> is the list of octets it spans; a function that advances
  \<open>begin\<close> returns the remaining range. An \<^verbatim>\<open>Encoder\<close> is the octets between its \<open>m_begin\<close> and
  \<open>m_end\<close>; its operations return the number of octets written and the new contents.
  The lemmas show that decoding inverts encoding, that the contiguous and the octet-wise number
  readers agree, and that the estimator predicts the encoder's output size.
\<close>

datatype tlv_error =
    EmptyBuffer
  | InsufficientData
  | IllegalType nat
  | InvalidLength nat
  | LengthMismatch
  | NotEnoughBytes
  | SubElementExceedsParent nat

section \<open>Type numbers\<close>

abbreviation (input) tlv_Interest :: nat where "tlv_Interest \<equiv> 5"
abbreviation (input) tlv_Data :: nat where "tlv_Data \<equiv> 6"
abbreviation (input) tlv_Name :: nat where "tlv_Name \<equiv> 7"
abbreviation (input) tlv_GenericNameComponent :: nat where "tlv_GenericNameComponent \<equiv> 8"
abbreviation (input) tlv_ImplicitSha256DigestComponent :: nat where
  "tlv_ImplicitSha256DigestComponent \<equiv> 1"
abbreviation (input) tlv_ParametersSha256DigestComponent :: nat where
  "tlv_ParametersSha256DigestComponent \<equiv> 2"
abbreviation (input) tlv_SegmentNameComponent :: nat where "tlv_SegmentNameComponent \<equiv> 33"
abbreviation (input) tlv_ByteOffsetNameComponent :: nat where "tlv_ByteOffsetNameComponent \<equiv> 34"
abbreviation (input) tlv_VersionNameComponent :: nat where "tlv_VersionNameComponent \<equiv> 35"
abbreviation (input) tlv_TimestampNameComponent :: nat where "tlv_TimestampNameComponent \<equiv> 36"
abbreviation (input) tlv_SequenceNumNameComponent :: nat where "tlv_SequenceNumNameComponent \<equiv> 37"
abbreviation (input) NameComponentMin :: nat where "NameComponentMin \<equiv> 1"
abbreviation (input) NameComponentMax :: nat where "NameComponentMax \<equiv> 65535"

definition isCriticalType :: "nat \<Rightarrow> bool" where
  "isCriticalType type \<longleftrightarrow> type \<le> 31 \<or> odd type"

section \<open>Writing numbers\<close>

text \<open>\<open>k\<close> octets of \<open>n\<close>, most significant first: the memory image of \<^verbatim>\<open>native_to_big\<close>.\<close>

fun be_bytes :: "nat \<Rightarrow> nat \<Rightarrow> bytes" where
  "be_bytes 0 n = []"
| "be_bytes (Suc k) n = word_of_nat (n div 256 ^ k) # be_bytes k n"

definition sizeOfVarNumber :: "nat \<Rightarrow> nat" where
  "sizeOfVarNumber number =
     (if number < 253 then 1
      else if number \<le> 65535 then 3
      else if number \<le> 4294967295 then 5 else 9)"

definition sizeOfNonNegativeInteger :: "nat \<Rightarrow> nat" where
  "sizeOfNonNegativeInteger integer =
     (if integer \<le> 255 then 1
      else if integer \<le> 65535 then 2
      else if integer \<le> 4294967295 then 4 else 8)"

definition writeVarNumber :: "nat \<Rightarrow> bytes" where
  "writeVarNumber number =
     (if number < 253 then [word_of_nat number]
      else if number \<le> 65535 then 253 # be_bytes 2 number
      else if number \<le> 4294967295 then 254 # be_bytes 4 number
      else 255 # be_bytes 8 number)"

definition writeNonNegativeInteger :: "nat \<Rightarrow> bytes" where
  "writeNonNegativeInteger integer =
     (if integer \<le> 255 then [word_of_nat integer]
      else if integer \<le> 65535 then be_bytes 2 integer
      else if integer \<le> 4294967295 then be_bytes 4 integer
      else be_bytes 8 integer)"

section \<open>The encoder\<close>

text \<open>Reservation of space (\<^verbatim>\<open>reserveFront\<close>, \<^verbatim>\<open>reserveBack\<close>) does not change the contents.\<close>

definition prependByte :: "byte \<Rightarrow> bytes \<Rightarrow> nat \<times> bytes" where
  "prependByte value buf = (1, value # buf)"

definition appendByte :: "byte \<Rightarrow> bytes \<Rightarrow> nat \<times> bytes" where
  "appendByte value buf = (1, buf @ [value])"

definition prependByteArray :: "bytes \<Rightarrow> bytes \<Rightarrow> nat \<times> bytes" where
  "prependByteArray array buf = (length array, array @ buf)"

definition appendByteArray :: "bytes \<Rightarrow> bytes \<Rightarrow> nat \<times> bytes" where
  "appendByteArray array buf = (length array, buf @ array)"

definition prependVarNumber :: "nat \<Rightarrow> bytes \<Rightarrow> nat \<times> bytes" where
  "prependVarNumber varNumber buf =
     (if varNumber < 253 then (1, snd (prependByte (word_of_nat varNumber) buf))
      else if varNumber \<le> 65535 then
        (3, snd (prependByte 253 (snd (prependByteArray (be_bytes 2 varNumber) buf))))
      else if varNumber \<le> 4294967295 then
        (5, snd (prependByte 254 (snd (prependByteArray (be_bytes 4 varNumber) buf))))
      else (9, snd (prependByte 255 (snd (prependByteArray (be_bytes 8 varNumber) buf)))))"

definition appendVarNumber :: "nat \<Rightarrow> bytes \<Rightarrow> nat \<times> bytes" where
  "appendVarNumber varNumber buf =
     (if varNumber < 253 then (1, snd (appendByte (word_of_nat varNumber) buf))
      else if varNumber \<le> 65535 then
        (3, snd (appendByteArray (be_bytes 2 varNumber) (snd (appendByte 253 buf))))
      else if varNumber \<le> 4294967295 then
        (5, snd (appendByteArray (be_bytes 4 varNumber) (snd (appendByte 254 buf))))
      else (9, snd (appendByteArray (be_bytes 8 varNumber) (snd (appendByte 255 buf)))))"

definition prependNonNegativeInteger :: "nat \<Rightarrow> bytes \<Rightarrow> nat \<times> bytes" where
  "prependNonNegativeInteger varNumber buf =
     (if varNumber \<le> 255 then prependByte (word_of_nat varNumber) buf
      else if varNumber \<le> 65535 then prependByteArray (be_bytes 2 varNumber) buf
      else if varNumber \<le> 4294967295 then prependByteArray (be_bytes 4 varNumber) buf
      else prependByteArray (be_bytes 8 varNumber) buf)"

definition appendNonNegativeInteger :: "nat \<Rightarrow> bytes \<Rightarrow> nat \<times> bytes" where
  "appendNonNegativeInteger varNumber buf =
     (if varNumber \<le> 255 then appendByte (word_of_nat varNumber) buf
      else if varNumber \<le> 65535 then appendByteArray (be_bytes 2 varNumber) buf
      else if varNumber \<le> 4294967295 then appendByteArray (be_bytes 4 varNumber) buf
      else appendByteArray (be_bytes 8 varNumber) buf)"

definition prependByteArrayBlock :: "nat \<Rightarrow> bytes \<Rightarrow> bytes \<Rightarrow> nat \<times> bytes" where
  "prependByteArrayBlock type array buf =
     (let (n1, buf1) = prependByteArray array buf;
          (n2, buf2) = prependVarNumber (length array) buf1;
          (n3, buf3) = prependVarNumber type buf2
      in (n1 + n2 + n3, buf3))"

definition appendByteArrayBlock :: "nat \<Rightarrow> bytes \<Rightarrow> bytes \<Rightarrow> nat \<times> bytes" where
  "appendByteArrayBlock type array buf =
     (let (n1, buf1) = appendVarNumber type buf;
          (n2, buf2) = appendVarNumber (length array) buf1;
          (n3, buf3) = appendByteArray array buf2
      in (n1 + n2 + n3, buf3))"

definition prependNonNegativeIntegerBlock :: "nat \<Rightarrow> nat \<Rightarrow> bytes \<Rightarrow> nat \<times> bytes" where
  "prependNonNegativeIntegerBlock type value buf =
     (let (valueLength, buf1) = prependNonNegativeInteger value buf;
          (n2, buf2) = prependVarNumber valueLength buf1;
          (n3, buf3) = prependVarNumber type buf2
      in (valueLength + n2 + n3, buf3))"

definition prependEmptyBlock :: "nat \<Rightarrow> bytes \<Rightarrow> nat \<times> bytes" where
  "prependEmptyBlock type buf =
     (let (n1, buf1) = prependVarNumber 0 buf;
          (n2, buf2) = prependVarNumber type buf1
      in (n1 + n2, buf2))"

section \<open>The estimator\<close>

definition est_prependByteArrayBlock :: "nat \<Rightarrow> bytes \<Rightarrow> nat" where
  "est_prependByteArrayBlock type array =
     sizeOfVarNumber type + sizeOfVarNumber (length array) + length array"

section \<open>Reading numbers\<close>

text \<open>\<^verbatim>\<open>ReadNumberSlow\<close>: one octet at a time, for any input iterator.\<close>

fun readNumberSlow :: "nat \<Rightarrow> bytes \<Rightarrow> 64 word \<Rightarrow> (64 word \<times> bytes) option" where
  "readNumberSlow 0 bs number = Some (number, bs)"
| "readNumberSlow (Suc sz) [] number = None"
| "readNumberSlow (Suc sz) (b # bs) number =
     readNumberSlow sz bs (push_bit 8 number OR ucast b)"

text \<open>
  \<^verbatim>\<open>ReadNumberFast\<close>: for contiguous iterators, an integer of the right width is copied from
  memory and converted from big-endian (\<open>word_rcat\<close>).
\<close>

definition readNumberFast :: "nat \<Rightarrow> bytes \<Rightarrow> (64 word \<times> bytes) option" where
  "readNumberFast sz bs =
     (if length bs < sz then None
      else if sz = 1 then Some (ucast (hd bs), tl bs)
      else if sz = 2 then Some (ucast (word_rcat (take 2 bs) :: 16 word), drop 2 bs)
      else if sz = 4 then Some (ucast (word_rcat (take 4 bs) :: 32 word), drop 4 bs)
      else if sz = 8 then Some (word_rcat (take 8 bs), drop 8 bs)
      else None)"

text \<open>\<^verbatim>\<open>readVarNumber\<close> and \<^verbatim>\<open>readType\<close>, first the \<^verbatim>\<open>noexcept\<close> variants, then the throwing ones.\<close>

definition tryReadVarNumber :: "bytes \<Rightarrow> (nat \<times> bytes) option" where
  "tryReadVarNumber bs =
     (case bs of [] \<Rightarrow> None
      | firstOctet # rest \<Rightarrow>
          if unat firstOctet < 253 then Some (unat firstOctet, rest)
          else let sz = (if unat firstOctet = 253 then 2
                           else if unat firstOctet = 254 then 4 else 8)
               in map_option (\<lambda>(w, r). (unat w, r)) (readNumberFast sz rest))"

definition tryReadType :: "bytes \<Rightarrow> (nat \<times> bytes) option" where
  "tryReadType bs =
     (case tryReadVarNumber bs of None \<Rightarrow> None
      | Some (number, rest) \<Rightarrow>
          if number = 0 \<or> number > 4294967295 then None else Some (number, rest))"

definition readVarNumber :: "bytes \<Rightarrow> tlv_error + (nat \<times> bytes)" where
  "readVarNumber bs =
     (if bs = [] then Inl EmptyBuffer
      else case tryReadVarNumber bs of
             None \<Rightarrow> Inl InsufficientData
           | Some r \<Rightarrow> Inr r)"

definition readType :: "bytes \<Rightarrow> tlv_error + (nat \<times> bytes)" where
  "readType bs =
     (case readVarNumber bs of
        Inl e \<Rightarrow> Inl e
      | Inr (type, rest) \<Rightarrow>
          if type = 0 \<or> type > 4294967295 then Inl (IllegalType type) else Inr (type, rest))"

definition readNonNegativeInteger :: "nat \<Rightarrow> bytes \<Rightarrow> tlv_error + (nat \<times> bytes)" where
  "readNonNegativeInteger sz bs =
     (if sz \<noteq> 1 \<and> sz \<noteq> 2 \<and> sz \<noteq> 4 \<and> sz \<noteq> 8 then Inl (InvalidLength sz)
      else case readNumberFast sz bs of
             None \<Rightarrow> Inl InsufficientData
           | Some (number, rest) \<Rightarrow> Inr (unat number, rest))"

section \<open>Blocks\<close>

text \<open>A block is its TLV-TYPE and the octets of its TLV-VALUE.\<close>

datatype block = Block (btype: nat) (bvalue: bytes)

definition Block_encode :: "block \<Rightarrow> bytes" where
  "Block_encode b = snd (prependByteArrayBlock (btype b) (bvalue b) [])"

text \<open>\<^verbatim>\<open>Block(buffer, begin, end, verifyLength = true)\<close>.\<close>

definition Block_fromRange :: "bytes \<Rightarrow> tlv_error + block" where
  "Block_fromRange bs =
     (case readType bs of Inl e \<Rightarrow> Inl e
      | Inr (type, r1) \<Rightarrow>
          (case readVarNumber r1 of Inl e \<Rightarrow> Inl e
           | Inr (len, r2) \<Rightarrow>
               if len \<noteq> length r2 then Inl LengthMismatch else Inr (Block type r2)))"

text \<open>\<^verbatim>\<open>Block(buf, bufSize)\<close>: the TLV may be followed by other octets.\<close>

definition Block_fromBytes :: "bytes \<Rightarrow> tlv_error + block" where
  "Block_fromBytes bs =
     (case readType bs of Inl e \<Rightarrow> Inl e
      | Inr (type, r1) \<Rightarrow>
          (case readVarNumber r1 of Inl e \<Rightarrow> Inl e
           | Inr (len, r2) \<Rightarrow>
               if len > length r2 then Inl NotEnoughBytes else Inr (Block type (take len r2))))"

definition Block_fromBuffer :: "bytes \<Rightarrow> block option" where
  "Block_fromBuffer bs =
     (case tryReadType bs of None \<Rightarrow> None
      | Some (type, r1) \<Rightarrow>
          (case tryReadVarNumber r1 of None \<Rightarrow> None
           | Some (len, r2) \<Rightarrow>
               if len > length r2 then None else Some (Block type (take len r2))))"

text \<open>One iteration of \<^verbatim>\<open>Block::parse\<close>: the next sub-element and the octets after it.\<close>

definition parse_element :: "bytes \<Rightarrow> tlv_error + (block \<times> bytes)" where
  "parse_element bs =
     (case readType bs of Inl e \<Rightarrow> Inl e
      | Inr (type, r1) \<Rightarrow>
          (case readVarNumber r1 of Inl e \<Rightarrow> Inl e
           | Inr (len, r2) \<Rightarrow>
               if len > length r2 then Inl (SubElementExceedsParent type)
               else Inr (Block type (take len r2), drop len r2)))"

lemma readNumberFast_length: "readNumberFast sz bs = Some (w, r) \<Longrightarrow> length r \<le> length bs"
  by (auto simp: readNumberFast_def split: if_splits)

lemma tryReadVarNumber_length: "tryReadVarNumber bs = Some (n, r) \<Longrightarrow> length r < length bs"
  by (auto simp: tryReadVarNumber_def less_Suc_eq_le Let_def
      dest!: readNumberFast_length split: list.splits if_splits)

lemma readVarNumber_length: "readVarNumber bs = Inr (n, r) \<Longrightarrow> length r < length bs"
  by (auto simp: readVarNumber_def tryReadVarNumber_length split: if_splits option.splits)

lemma readType_length: "readType bs = Inr (n, r) \<Longrightarrow> length r < length bs"
  by (auto simp: readType_def readVarNumber_length split: sum.splits if_splits)

lemma parse_element_length: "parse_element bs = Inr (b, r) \<Longrightarrow> length r < length bs"
  by (fastforce simp: parse_element_def split: sum.splits if_splits
      dest: readVarNumber_length readType_length)

function Block_parse :: "bytes \<Rightarrow> tlv_error + block list" where
  "Block_parse bs =
     (if bs = [] then Inr []
      else case parse_element bs of
             Inl e \<Rightarrow> Inl e
           | Inr (b, rest) \<Rightarrow>
               (case Block_parse rest of Inl e \<Rightarrow> Inl e | Inr bs' \<Rightarrow> Inr (b # bs')))"
  by pat_completeness auto
termination
  by (relation "measure length") (auto dest: parse_element_length)

declare Block_parse.simps [simp del]

text \<open>\<^verbatim>\<open>readNonNegativeInteger(block)\<close>: the whole value of a block.\<close>

definition readNonNegativeIntegerBlock :: "block \<Rightarrow> tlv_error + nat" where
  "readNonNegativeIntegerBlock b =
     (case readNonNegativeInteger (length (bvalue b)) (bvalue b) of
        Inl e \<Rightarrow> Inl e | Inr (n, _) \<Rightarrow> Inr n)"

definition makeNonNegativeIntegerBlock :: "nat \<Rightarrow> nat \<Rightarrow> block" where
  "makeNonNegativeIntegerBlock type value =
     Block type (snd (prependNonNegativeInteger value []))"

section \<open>Numbers round trip\<close>

text \<open>The number an octet string denotes, most significant octet first.\<close>

definition be_nat :: "bytes \<Rightarrow> nat" where
  "be_nat bs = foldl (\<lambda>n b. 256 * n + unat b) 0 bs"

lemma foldl_be: "foldl (\<lambda>n b. 256 * n + unat (b::byte)) m bs = 256 ^ length bs * m + be_nat bs"
  unfolding be_nat_def
proof (induction bs arbitrary: m)
  case (Cons b bs)
  show ?case using Cons [of "256 * m + unat b"] Cons [of "unat b"] by (simp add: algebra_simps)
qed simp

lemma be_nat_Nil [simp]: "be_nat [] = 0"
  by (simp add: be_nat_def)

lemma be_nat_Cons: "be_nat (b # bs) = 256 ^ length bs * unat b + be_nat bs"
  using foldl_be [of "unat b" bs] by (simp add: be_nat_def)

lemma be_nat_snoc: "be_nat (bs @ [b]) = 256 * be_nat bs + unat b"
  by (simp add: be_nat_def)

lemma be_nat_bound: "be_nat bs < 256 ^ length bs"
proof (induction bs)
  case (Cons b bs)
  have "256 ^ length bs * unat b \<le> 256 ^ length bs * 255"
    using unat_byte_less [of b] by (intro mult_left_mono) auto
  with Cons.IH show ?case
    by (simp only: be_nat_Cons list.size power_Suc add_0_right add_Suc_right)
qed simp

lemma length_be_bytes [simp]: "length (be_bytes k n) = k"
  by (induction k) auto

lemma be_nat_be_bytes: "be_nat (be_bytes k n) = n mod 256 ^ k"
proof (induction k)
  case (Suc k)
  have "n mod 256 ^ Suc k = 256 ^ k * (n div 256 ^ k mod 256) + n mod 256 ^ k"
    using mod_mult2_eq [of n "256 ^ k" 256] by (simp add: mult.commute)
  with Suc show ?case by (simp add: be_nat_Cons unat_of_nat)
qed simp

lemma unat_shift_or:
  assumes "unat n < 2 ^ 56"
  shows "unat (push_bit 8 n OR ucast (b::byte) :: 64 word) = 256 * unat n + unat b"
proof -
  have "push_bit 8 n AND (ucast b :: 64 word) = 0"
    by (rule bit_word_eqI) (auto simp: bit_simps dest: bit_imp_le_length)
  then have "push_bit 8 n OR ucast b = push_bit 8 n + (ucast b :: 64 word)"
    by (simp add: disjunctive_add_eq_or)
  moreover have "unat (push_bit 8 n) = 256 * unat n"
    using assms by (simp add: push_bit_eq_mult unat_word_ariths)
  moreover have "unat b < 256"
    by (rule unat_byte_less)
  ultimately show ?thesis
    using assms by (simp add: unat_word_ariths unsigned_ucast_eq take_bit_nat_eq_self)
qed

lemma readNumberSlow_correct:
  assumes "sz \<le> 8" and "unat number < 256 ^ (8 - sz)"
  shows "readNumberSlow sz bs number =
    (if length bs < sz then None
     else Some (word_of_nat (256 ^ sz * unat number + be_nat (take sz bs)), drop sz bs))"
  using assms
proof (induction sz arbitrary: bs number)
  case (Suc sz)
  show ?case
  proof (cases bs)
    case (Cons b bs')
    have "(256::nat) ^ (8 - Suc sz) \<le> 256 ^ 7"
      by (rule power_increasing) auto
    with Suc.prems have n: "unat number < 2 ^ 56" by simp
    let ?m = "push_bit 8 number OR ucast b :: 64 word"
    have m: "unat ?m = 256 * unat number + unat b"
      by (rule unat_shift_or [OF n])
    have "unat b < 256" by (rule unat_byte_less)
    moreover have "(256::nat) ^ (8 - sz) = 256 * 256 ^ (8 - Suc sz)"
      using Suc.prems by (metis Suc_diff_Suc Suc_le_lessD power_Suc)
    ultimately have "unat ?m < 256 ^ (8 - sz)"
      using Suc.prems by (simp add: m)
    then show ?thesis
      using Suc.prems Suc.IH [of ?m bs']
      by (simp add: Cons m be_nat_Cons algebra_simps min_def)
  qed simp
qed simp

lemma unat_word_rcat:
  "unat (word_rcat (bs :: bytes) :: 'b::len word) = be_nat bs mod 2 ^ LENGTH('b)"
proof -
  have "horner_sum uint (256::int) (rev bs) = int (be_nat bs)"
    by (induction bs rule: rev_induct) (auto simp: be_nat_snoc)
  then show ?thesis
    by (simp add: word_rcat_def unat_of_nat)
qed

lemma readNumberFast_correct:
  assumes "sz \<in> {1, 2, 4, 8}"
  shows "readNumberFast sz bs =
    (if length bs < sz then None else Some (word_of_nat (be_nat (take sz bs)), drop sz bs))"
proof -
  have bound: "be_nat (take k bs) < 256 ^ k" if "k \<le> length bs" for k
    using be_nat_bound [of "take k bs"] that by (simp add: min_absorb2)
  have 1: "sz = 1 \<Longrightarrow> bs \<noteq> [] \<Longrightarrow> be_nat (take 1 bs) = unat (hd bs)"
    by (cases bs) (auto simp: be_nat_Cons)
  show ?thesis
    using assms bound [of sz] 1
    by (auto simp: readNumberFast_def drop_Suc word_unat_eq_iff
        unat_word_rcat unat_of_nat unsigned_ucast_eq take_bit_eq_mod)
qed

lemma writeVarNumber_neq_Nil [simp]: "writeVarNumber n \<noteq> []"
  by (simp add: writeVarNumber_def)

lemma unat_byte_of_nat: "n < 256 \<Longrightarrow> unat (word_of_nat n :: byte) = n"
  by (simp add: unat_of_nat)

lemma be_nat_be_bytes_id: "n < 256 ^ k \<Longrightarrow> be_nat (be_bytes k n) = n"
  by (simp add: be_nat_be_bytes)

lemma readNumberFast_be_bytes:
  "k \<in> {1, 2, 4, 8} \<Longrightarrow> n < 256 ^ k \<Longrightarrow>
   readNumberFast k (be_bytes k n @ rest) = Some (word_of_nat n, rest)"
  by (simp add: readNumberFast_correct be_nat_be_bytes_id)

lemma tryReadVarNumber_write:
  assumes "n < 2 ^ 64"
  shows "tryReadVarNumber (writeVarNumber n @ rest) = Some (n, rest)"
  using assms readNumberFast_be_bytes [of 2 n rest] readNumberFast_be_bytes [of 4 n rest]
    readNumberFast_be_bytes [of 8 n rest]
  by (simp add: tryReadVarNumber_def writeVarNumber_def unat_byte_of_nat unat_of_nat)

lemma readVarNumber_write:
  "n < 2 ^ 64 \<Longrightarrow> readVarNumber (writeVarNumber n @ rest) = Inr (n, rest)"
  by (simp add: readVarNumber_def tryReadVarNumber_write)

lemma readType_write:
  "0 < n \<Longrightarrow> n < 2 ^ 32 \<Longrightarrow> readType (writeVarNumber n @ rest) = Inr (n, rest)"
  by (simp add: readType_def readVarNumber_write)

lemma tryReadType_write:
  "0 < n \<Longrightarrow> n < 2 ^ 32 \<Longrightarrow> tryReadType (writeVarNumber n @ rest) = Some (n, rest)"
  by (simp add: tryReadType_def tryReadVarNumber_write)

lemma readNonNegativeInteger_write:
  assumes "n < 2 ^ 64"
  shows "readNonNegativeInteger (length (writeNonNegativeInteger n))
           (writeNonNegativeInteger n @ rest) = Inr (n, rest)"
  using assms readNumberFast_be_bytes [of 1 n rest] readNumberFast_be_bytes [of 2 n rest]
    readNumberFast_be_bytes [of 4 n rest] readNumberFast_be_bytes [of 8 n rest]
  by (simp add: readNonNegativeInteger_def writeNonNegativeInteger_def unat_of_nat)

section \<open>The encoder writes what the estimator predicts\<close>

lemma length_writeVarNumber: "length (writeVarNumber n) = sizeOfVarNumber n"
  by (simp add: writeVarNumber_def sizeOfVarNumber_def)

lemma length_writeNonNegativeInteger:
  "length (writeNonNegativeInteger n) = sizeOfNonNegativeInteger n"
  by (simp add: writeNonNegativeInteger_def sizeOfNonNegativeInteger_def)

lemma prependVarNumber_eq: "prependVarNumber n buf = (sizeOfVarNumber n, writeVarNumber n @ buf)"
  by (simp add: prependVarNumber_def sizeOfVarNumber_def writeVarNumber_def
      prependByte_def prependByteArray_def)

lemma appendVarNumber_eq: "appendVarNumber n buf = (sizeOfVarNumber n, buf @ writeVarNumber n)"
  by (simp add: appendVarNumber_def sizeOfVarNumber_def writeVarNumber_def
      appendByte_def appendByteArray_def)

lemma prependNonNegativeInteger_eq:
  "prependNonNegativeInteger n buf =
     (sizeOfNonNegativeInteger n, writeNonNegativeInteger n @ buf)"
  by (simp add: prependNonNegativeInteger_def sizeOfNonNegativeInteger_def
      writeNonNegativeInteger_def prependByte_def prependByteArray_def)

lemma appendNonNegativeInteger_eq:
  "appendNonNegativeInteger n buf =
     (sizeOfNonNegativeInteger n, buf @ writeNonNegativeInteger n)"
  by (simp add: appendNonNegativeInteger_def sizeOfNonNegativeInteger_def
      writeNonNegativeInteger_def appendByte_def appendByteArray_def)

lemma prependByteArrayBlock_eq:
  "prependByteArrayBlock t v buf =
     (est_prependByteArrayBlock t v, writeVarNumber t @ writeVarNumber (length v) @ v @ buf)"
  by (simp add: prependByteArrayBlock_def prependVarNumber_eq prependByteArray_def
      est_prependByteArrayBlock_def)

lemma appendByteArrayBlock_eq:
  "appendByteArrayBlock t v buf =
     (est_prependByteArrayBlock t v, buf @ writeVarNumber t @ writeVarNumber (length v) @ v)"
  by (simp add: appendByteArrayBlock_def appendVarNumber_eq appendByteArray_def
      est_prependByteArrayBlock_def)

lemmas encoder_eqs = prependVarNumber_eq appendVarNumber_eq prependNonNegativeInteger_eq
  appendNonNegativeInteger_eq prependByteArrayBlock_eq appendByteArrayBlock_eq

section \<open>Blocks round trip\<close>

definition wf_block :: "block \<Rightarrow> bool" where
  "wf_block b \<longleftrightarrow> 0 < btype b \<and> btype b < 2 ^ 32 \<and> length (bvalue b) < 2 ^ 64"

lemma Block_encode_eq:
  "Block_encode b = writeVarNumber (btype b) @ writeVarNumber (length (bvalue b)) @ bvalue b"
  by (simp add: Block_encode_def prependByteArrayBlock_eq)

lemma Block_encode_neq_Nil [simp]: "Block_encode b \<noteq> []"
  by (simp add: Block_encode_eq)

lemma parse_element_encode:
  "wf_block b \<Longrightarrow> parse_element (Block_encode b @ rest) = Inr (b, rest)"
  by (cases b) (simp add: parse_element_def Block_encode_eq wf_block_def readType_write
      readVarNumber_write)

lemma Block_parse_encode:
  "list_all wf_block bs \<Longrightarrow> Block_parse (concat (map Block_encode bs)) = Inr bs"
proof (induction bs)
  case Nil
  show ?case by (simp add: Block_parse.simps)
next
  case (Cons b bs)
  then show ?case
    by (subst Block_parse.simps) (simp add: parse_element_encode)
qed

lemma Block_fromRange_encode: "wf_block b \<Longrightarrow> Block_fromRange (Block_encode b) = Inr b"
  by (cases b) (simp add: Block_fromRange_def Block_encode_eq wf_block_def readType_write
      readVarNumber_write)

lemma Block_fromBytes_encode: "wf_block b \<Longrightarrow> Block_fromBytes (Block_encode b @ rest) = Inr b"
  by (cases b) (simp add: Block_fromBytes_def Block_encode_eq wf_block_def readType_write
      readVarNumber_write)

lemma Block_fromBuffer_encode: "wf_block b \<Longrightarrow> Block_fromBuffer (Block_encode b @ rest) = Some b"
  by (cases b) (simp add: Block_fromBuffer_def Block_encode_eq wf_block_def tryReadType_write
      tryReadVarNumber_write)

lemma makeNonNegativeIntegerBlock_value [simp]:
  "bvalue (makeNonNegativeIntegerBlock t n) = writeNonNegativeInteger n"
  "btype (makeNonNegativeIntegerBlock t n) = t"
  by (simp_all add: makeNonNegativeIntegerBlock_def prependNonNegativeInteger_eq)

lemma readNonNegativeIntegerBlock_make:
  "n < 2 ^ 64 \<Longrightarrow> readNonNegativeIntegerBlock (makeNonNegativeIntegerBlock t n) = Inr n"
  using readNonNegativeInteger_write [of n "[]"] by (simp add: readNonNegativeIntegerBlock_def)

lemma be_bytes_2: "be_bytes 2 n = [word_of_nat (n div 256), word_of_nat n]"
  using be_bytes.simps(2) [of 1 n] by (simp add: numeral_2_eq_2)

section \<open>Properties\<close>

text \<open>
  C7: The two number readers behind \<^verbatim>\<open>readVarNumber\<close> agree: for each of the four legal sizes the
  contiguous reader (memory copy and endian conversion) returns exactly what the octet-wise
  reader returns, on every input, including the inputs that are too short.
\<close>

theorem readNumberFast_slow:
  assumes "sz \<in> {1, 2, 4, 8}"
  shows "readNumberFast sz bs = readNumberSlow sz bs 0"
proof -
  have "sz \<le> 8" using assms by auto
  then show ?thesis using readNumberSlow_correct [of sz 0 bs] readNumberFast_correct [OF assms, of bs]
    by simp
qed

theorem readNumberFast_slow_witness:
  "(2 :: nat) \<in> {1, 2, 4, 8} \<and> readNumberFast 2 [1, 2, 3] = Some (258, [3]) \<and>
   readNumberFast 2 [1, 2, 3] = readNumberSlow 2 [1, 2, 3] 0"
proof -
  have "readNumberSlow 2 [1, 2, 3] 0 = Some (258, [3])" by code_simp
  with readNumberFast_slow [of 2 "[1, 2, 3]"] show ?thesis by simp
qed

text \<open>
  C6: Decoding inverts encoding: a buffer made of the wire encodings of a list of blocks, each
  with a 32-bit non-zero type and a value below 2^64 octets, parses to exactly that list.
\<close>

theorem Block_parse_roundtrip:
  assumes "list_all wf_block bs"
  shows "Block_parse (concat (map Block_encode bs)) = Inr bs"
  using assms by (rule Block_parse_encode)

theorem Block_parse_roundtrip_witness:
  "list_all wf_block [Block 8 [65], Block 300 []] \<and>
   Block_parse (concat (map Block_encode [Block 8 [65], Block 300 []])) =
     Inr [Block 8 [65], Block 300 []]"
  using Block_parse_roundtrip [of "[Block 8 [65], Block 300 []]"] by (simp add: wf_block_def)

text \<open>
  C8: The size estimator is exact: prepending a block to a buffer writes the number of octets the
  \<^verbatim>\<open>EncodingEstimator\<close> predicts, and prepending to an empty buffer and appending to it give the
  same octets.
\<close>

theorem estimator_exact:
  "fst (prependByteArrayBlock t v buf) = est_prependByteArrayBlock t v \<and>
   length (snd (prependByteArrayBlock t v buf)) = length buf + est_prependByteArrayBlock t v \<and>
   prependByteArrayBlock t v [] = appendByteArrayBlock t v []"
  by (simp add: encoder_eqs est_prependByteArrayBlock_def length_writeVarNumber)

end
