(* ===== verification/NameComponent.thy ===== *)
theory NameComponent
  imports Tlv
begin

text \<open>
  \<^verbatim>\<open>ndn::name::Component\<close> (\<^verbatim>\<open>name-component.cpp\<close>, \<^verbatim>\<open>impl/name-component-types.hpp\<close>): a TLV whose
  type says what kind of component it is. The theory models validity, the naming-convention
  predicates and conversions, comparison and the successor. The lemmas show that the shortcut of
  comparing wire encodings agrees with the canonical order, that this order is a total order,
  and that \<^verbatim>\<open>getSuccessor\<close> returns the least valid component above its argument.
\<close>

datatype component = Component (ctype: nat) (cvalue: bytes)

datatype comp_error =
    NotNameComponent nat
  | BadDigestLength
  | NotNumber
  | NoSuchMarker
  | NotConvention
  | OutOfBounds
  | IllegalPeriods
  | UnknownType bytes
  | BadHex
  | BadDecimal

section \<open>Validity\<close>

definition SHA256_DIGEST_SIZE :: nat where
  "SHA256_DIGEST_SIZE = 32"

definition ensureValid :: "component \<Rightarrow> comp_error + component" where
  "ensureValid c =
     (if ctype c < NameComponentMin \<or> ctype c > NameComponentMax
      then Inl (NotNameComponent (ctype c))
      else if (ctype c = tlv_ImplicitSha256DigestComponent \<or>
               ctype c = tlv_ParametersSha256DigestComponent) \<and>
              length (cvalue c) \<noteq> SHA256_DIGEST_SIZE
      then Inl BadDigestLength
      else Inr c)"

definition valid_component :: "component \<Rightarrow> bool" where
  "valid_component c \<longleftrightarrow> ensureValid c = Inr c"

lemma valid_component_iff:
  "valid_component c \<longleftrightarrow> 1 \<le> ctype c \<and> ctype c \<le> 65535 \<and>
     (ctype c = 1 \<or> ctype c = 2 \<longrightarrow> length (cvalue c) = 32)"
  by (auto simp: valid_component_def ensureValid_def SHA256_DIGEST_SIZE_def)

definition isImplicitSha256Digest :: "component \<Rightarrow> bool" where
  "isImplicitSha256Digest c \<longleftrightarrow>
     ctype c = tlv_ImplicitSha256DigestComponent \<and> length (cvalue c) = SHA256_DIGEST_SIZE"

definition isParametersSha256Digest :: "component \<Rightarrow> bool" where
  "isParametersSha256Digest c \<longleftrightarrow>
     ctype c = tlv_ParametersSha256DigestComponent \<and> length (cvalue c) = SHA256_DIGEST_SIZE"

section \<open>Wire encoding\<close>

definition Component_wireEncode :: "component \<Rightarrow> bytes \<Rightarrow> nat \<times> bytes" where
  "Component_wireEncode c buf =
     (let (n1, buf1) = (if length (cvalue c) > 0 then prependByteArray (cvalue c) buf else (0, buf));
          (n2, buf2) = prependVarNumber (length (cvalue c)) buf1;
          (n3, buf3) = prependVarNumber (ctype c) buf2
      in (n1 + n2 + n3, buf3))"

definition Component_wire :: "component \<Rightarrow> bytes" where
  "Component_wire c = snd (Component_wireEncode c [])"

definition Component_fromBlock :: "block \<Rightarrow> comp_error + component" where
  "Component_fromBlock b = ensureValid (Component (btype b) (bvalue b))"

definition Component_toBlock :: "component \<Rightarrow> block" where
  "Component_toBlock c = Block (ctype c) (cvalue c)"

section \<open>Naming conventions\<close>

datatype convention = MARKER | TYPED | EITHER

definition canDecodeMarkerConvention :: "convention \<Rightarrow> bool" where
  "canDecodeMarkerConvention g \<longleftrightarrow> g = MARKER \<or> g = EITHER"

definition canDecodeTypedConvention :: "convention \<Rightarrow> bool" where
  "canDecodeTypedConvention g \<longleftrightarrow> g = TYPED \<or> g = EITHER"

abbreviation (input) SEGMENT_MARKER :: byte where "SEGMENT_MARKER \<equiv> 0x00"
abbreviation (input) SEGMENT_OFFSET_MARKER :: byte where "SEGMENT_OFFSET_MARKER \<equiv> 0xFB"
abbreviation (input) VERSION_MARKER :: byte where "VERSION_MARKER \<equiv> 0xFD"
abbreviation (input) TIMESTAMP_MARKER :: byte where "TIMESTAMP_MARKER \<equiv> 0xFC"
abbreviation (input) SEQUENCE_NUMBER_MARKER :: byte where "SEQUENCE_NUMBER_MARKER \<equiv> 0xFE"

definition isNumber :: "component \<Rightarrow> bool" where
  "isNumber c \<longleftrightarrow> length (cvalue c) \<in> {1, 2, 4, 8}"

definition isNumberWithMarker :: "byte \<Rightarrow> component \<Rightarrow> bool" where
  "isNumberWithMarker marker c \<longleftrightarrow>
     length (cvalue c) \<in> {2, 3, 5, 9} \<and> hd (cvalue c) = marker"

definition toNumber :: "component \<Rightarrow> comp_error + nat" where
  "toNumber c =
     (if \<not> isNumber c then Inl NotNumber
      else case readNonNegativeInteger (length (cvalue c)) (cvalue c) of
             Inl _ \<Rightarrow> Inl NotNumber | Inr (n, _) \<Rightarrow> Inr n)"

definition toNumberWithMarker :: "byte \<Rightarrow> component \<Rightarrow> comp_error + nat" where
  "toNumberWithMarker marker c =
     (if \<not> isNumberWithMarker marker c then Inl NoSuchMarker
      else case readNonNegativeInteger (length (cvalue c) - 1) (tl (cvalue c)) of
             Inl _ \<Rightarrow> Inl NotNumber | Inr (n, _) \<Rightarrow> Inr n)"

definition fromNumber :: "nat \<Rightarrow> nat \<Rightarrow> component" where
  "fromNumber number type =
     (let b = makeNonNegativeIntegerBlock type number in Component (btype b) (bvalue b))"

definition fromNumberWithMarker :: "byte \<Rightarrow> nat \<Rightarrow> component" where
  "fromNumberWithMarker marker number =
     Component tlv_GenericNameComponent
       (snd (prependByteArray [marker] (snd (prependNonNegativeInteger number []))))"

text \<open>
  \<^verbatim>\<open>isVersion\<close>, \<^verbatim>\<open>isSegment\<close>, \<^verbatim>\<open>isByteOffset\<close>, \<^verbatim>\<open>isSequenceNumber\<close> differ in the marker
  octet and the typed component number only; \<open>g\<close> is the decoding convention in force.
\<close>

definition isConvention :: "convention \<Rightarrow> byte \<Rightarrow> nat \<Rightarrow> component \<Rightarrow> bool" where
  "isConvention g marker type c \<longleftrightarrow>
     (canDecodeMarkerConvention g \<and> ctype c = tlv_GenericNameComponent \<and>
        isNumberWithMarker marker c) \<or>
     (canDecodeTypedConvention g \<and> ctype c = type \<and> isNumber c)"

definition toConvention :: "convention \<Rightarrow> byte \<Rightarrow> nat \<Rightarrow> component \<Rightarrow> comp_error + nat" where
  "toConvention g marker type c =
     (if canDecodeMarkerConvention g \<and> ctype c = tlv_GenericNameComponent
      then toNumberWithMarker marker c
      else if canDecodeTypedConvention g \<and> ctype c = type then toNumber c
      else Inl NotConvention)"

definition fromConvention :: "convention \<Rightarrow> byte \<Rightarrow> nat \<Rightarrow> nat \<Rightarrow> component" where
  "fromConvention g marker type number =
     (if g = MARKER then fromNumberWithMarker marker number else fromNumber number type)"

definition isVersion :: "convention \<Rightarrow> component \<Rightarrow> bool" where
  "isVersion g = isConvention g VERSION_MARKER tlv_VersionNameComponent"

definition toVersion :: "convention \<Rightarrow> component \<Rightarrow> comp_error + nat" where
  "toVersion g = toConvention g VERSION_MARKER tlv_VersionNameComponent"

definition fromVersion :: "convention \<Rightarrow> nat \<Rightarrow> component" where
  "fromVersion g = fromConvention g VERSION_MARKER tlv_VersionNameComponent"

definition isSegment :: "convention \<Rightarrow> component \<Rightarrow> bool" where
  "isSegment g = isConvention g SEGMENT_MARKER tlv_SegmentNameComponent"

definition toSegment :: "convention \<Rightarrow> component \<Rightarrow> comp_error + nat" where
  "toSegment g = toConvention g SEGMENT_MARKER tlv_SegmentNameComponent"

definition fromSegment :: "convention \<Rightarrow> nat \<Rightarrow> component" where
  "fromSegment g = fromConvention g SEGMENT_MARKER tlv_SegmentNameComponent"

definition isByteOffset :: "convention \<Rightarrow> component \<Rightarrow> bool" where
  "isByteOffset g = isConvention g SEGMENT_OFFSET_MARKER tlv_ByteOffsetNameComponent"

definition toByteOffset :: "convention \<Rightarrow> component \<Rightarrow> comp_error + nat" where
  "toByteOffset g = toConvention g SEGMENT_OFFSET_MARKER tlv_ByteOffsetNameComponent"

definition fromByteOffset :: "convention \<Rightarrow> nat \<Rightarrow> component" where
  "fromByteOffset g = fromConvention g SEGMENT_OFFSET_MARKER tlv_ByteOffsetNameComponent"

definition isSequenceNumber :: "convention \<Rightarrow> component \<Rightarrow> bool" where
  "isSequenceNumber g = isConvention g SEQUENCE_NUMBER_MARKER tlv_SequenceNumNameComponent"

definition toSequenceNumber :: "convention \<Rightarrow> component \<Rightarrow> comp_error + nat" where
  "toSequenceNumber g = toConvention g SEQUENCE_NUMBER_MARKER tlv_SequenceNumNameComponent"

definition fromSequenceNumber :: "convention \<Rightarrow> nat \<Rightarrow> component" where
  "fromSequenceNumber g = fromConvention g SEQUENCE_NUMBER_MARKER tlv_SequenceNumNameComponent"

section \<open>Comparison\<close>

text \<open>The conversion of an unsigned difference to \<^verbatim>\<open>int\<close>.\<close>

definition to_int32 :: "int \<Rightarrow> int" where
  "to_int32 d = sint (word_of_int d :: 32 word)"

text \<open>\<open>hw1\<close> and \<open>hw2\<close> say whether the two components hold a wire encoding.\<close>

definition Component_compare :: "bool \<Rightarrow> bool \<Rightarrow> component \<Rightarrow> component \<Rightarrow> int" where
  "Component_compare hw1 hw2 a b =
     (if hw1 \<and> hw2 then
        memcmp (min (length (Component_wire a)) (length (Component_wire b)))
          (Component_wire a) (Component_wire b)
      else
        let cmpType = to_int32 (int (ctype a) - int (ctype b)) in
        if cmpType \<noteq> 0 then cmpType else
        let cmpSize = to_int32 (int (length (cvalue a)) - int (length (cvalue b))) in
        if cmpSize \<noteq> 0 then cmpSize
        else if cvalue a = [] then 0
        else memcmp (length (cvalue a)) (cvalue a) (cvalue b))"

text \<open>
  The canonical order, by type, then length, then value. \<open>Component_compare\<close> has its sign on
  every pair of components below the 2 GB limit of the \<^verbatim>\<open>int\<close> conversions (shown below), and
  names are compared through it.
\<close>

definition comp_cmp :: "component \<Rightarrow> component \<Rightarrow> int" where
  "comp_cmp a b =
     (if ctype a \<noteq> ctype b then int (ctype a) - int (ctype b)
      else if length (cvalue a) \<noteq> length (cvalue b)
      then int (length (cvalue a)) - int (length (cvalue b))
      else memcmp (length (cvalue a)) (cvalue a) (cvalue b))"

section \<open>Successor\<close>

text \<open>
  The loop of \<^verbatim>\<open>getSuccessorImpl\<close>, over the value from its last octet: add one with carry.
  The flag is \<^verbatim>\<open>isOverflow\<close>.
\<close>

fun increment_loop :: "bytes \<Rightarrow> bool \<times> bytes" where
  "increment_loop [] = (True, [])"
| "increment_loop (b # bs) =
     (let newValue = b + 1 in
      if newValue = 0 then (case increment_loop bs of (ov, r) \<Rightarrow> (ov, newValue # r))
      else (False, newValue # bs))"

definition getSuccessorImpl :: "component \<Rightarrow> bool \<times> component" where
  "getSuccessorImpl c =
     (let (isOverflow, r) = increment_loop (rev (cvalue c)) in
      (isOverflow, Component (ctype c) (if isOverflow then rev r @ [0] else rev r)))"

definition isSha256ComponentType :: "nat \<Rightarrow> bool" where
  "isSha256ComponentType type \<longleftrightarrow>
     type = tlv_ImplicitSha256DigestComponent \<or> type = tlv_ParametersSha256DigestComponent"

text \<open>\<^verbatim>\<open>ComponentType::getSuccessor\<close> and its override in \<^verbatim>\<open>Sha256ComponentType\<close>.\<close>

definition ComponentType_getSuccessor :: "component \<Rightarrow> bool \<times> component" where
  "ComponentType_getSuccessor c =
     (if isSha256ComponentType (ctype c) then
        (case getSuccessorImpl c of (isExtended, s) \<Rightarrow> if isExtended then (True, c) else (False, s))
      else (False, snd (getSuccessorImpl c)))"

definition getMinValue :: "nat \<Rightarrow> bytes" where
  "getMinValue type = (if isSha256ComponentType type then replicate SHA256_DIGEST_SIZE 0 else [])"

definition Component_getSuccessor :: "component \<Rightarrow> component" where
  "Component_getSuccessor c =
     (case ComponentType_getSuccessor c of (isOverflow, successor) \<Rightarrow>
        if \<not> isOverflow then successor
        else Component (ctype c + 1) (getMinValue (ctype c + 1)))"

section \<open>Octet strings of one length compare as numbers\<close>

lemma memcmp_be_nat:
  "length xs = length ys \<Longrightarrow> memcmp (length xs) xs ys < 0 \<longleftrightarrow> be_nat xs < be_nat ys"
proof (induction xs ys rule: list_induct2)
  case (Cons x xs y ys)
  have bx: "be_nat xs < 256 ^ length ys" and by': "be_nat ys < 256 ^ length ys"
    using be_nat_bound [of xs] be_nat_bound [of ys] Cons.hyps by simp_all
  have mono: "256 ^ length ys * a + p < 256 ^ length ys * b + q"
    if "a < b" "p < 256 ^ length ys" for a b p q :: nat
  proof -
    have "256 ^ length ys * a + 256 ^ length ys \<le> 256 ^ length ys * b"
      using that(1) by (metis Suc_leI mult_Suc_right mult_le_mono2 add.commute)
    with that(2) show ?thesis by linarith
  qed
  consider "x < y" | "y < x" | "x = y" by fastforce
  then show ?case
  proof cases
    case 1
    then show ?thesis
      using mono [of "unat x" "unat y" "be_nat xs" "be_nat ys"] bx Cons.hyps
      by (simp add: be_nat_Cons word_less_nat_alt)
  next
    case 2
    then show ?thesis
      using mono [of "unat y" "unat x" "be_nat ys" "be_nat xs"] by' Cons.hyps
      by (simp add: be_nat_Cons word_less_nat_alt)
  next
    case 3
    with Cons show ?thesis by (simp add: be_nat_Cons)
  qed
qed simp

lemma be_nat_inject: "length xs = length ys \<Longrightarrow> be_nat xs = be_nat ys \<Longrightarrow> xs = ys"
  by (metis memcmp_be_nat memcmp_eq_0 memcmp_antisym less_irrefl
      linorder_neqE_linordered_idom neg_less_0_iff_less)

lemma comp_cmp_less_iff:
  "comp_cmp a b < 0 \<longleftrightarrow>
     ctype a < ctype b \<or>
     ctype a = ctype b \<and>
       (length (cvalue a) < length (cvalue b) \<or>
        length (cvalue a) = length (cvalue b) \<and> be_nat (cvalue a) < be_nat (cvalue b))"
  using memcmp_be_nat [of "cvalue a" "cvalue b"] by (auto simp: comp_cmp_def)

lemma comp_cmp_eq_0: "comp_cmp a b = 0 \<longleftrightarrow> a = b"
  by (cases a; cases b) (auto simp: comp_cmp_def, metis memcmp_eq_0)

lemma comp_cmp_minus: "comp_cmp b a = - comp_cmp a b"
  using memcmp_antisym [of "length (cvalue a)" "cvalue b" "cvalue a"] by (auto simp: comp_cmp_def)

interpretation comp_order: three_way comp_cmp
proof
  show "comp_cmp x y = 0 \<longleftrightarrow> x = y" for x y by (rule comp_cmp_eq_0)
  show "comp_cmp x y < 0 \<longleftrightarrow> 0 < comp_cmp y x" for x y
    using comp_cmp_minus [of x y] by linarith
  show "comp_cmp x y < 0 \<Longrightarrow> comp_cmp y z < 0 \<Longrightarrow> comp_cmp x z < 0" for x y z
    by (auto simp: comp_cmp_less_iff)
qed

section \<open>Comparing wire encodings\<close>

text \<open>\<^verbatim>\<open>memcmp\<close> over the shorter of two buffers.\<close>

definition memcmp_min :: "bytes \<Rightarrow> bytes \<Rightarrow> int" where
  "memcmp_min xs ys = memcmp (min (length xs) (length ys)) xs ys"

lemma memcmp_min_Cons [simp]:
  "memcmp_min (x # xs) (y # ys) = (if x < y then -1 else if y < x then 1 else memcmp_min xs ys)"
  by (simp add: memcmp_min_def)

lemma memcmp_min_append_same [simp]: "memcmp_min (ps @ xs) (ps @ ys) = memcmp_min xs ys"
  by (induction ps) auto

lemma memcmp_min_append:
  "length xs = length xs' \<Longrightarrow> memcmp (length xs) xs xs' < 0 \<Longrightarrow> memcmp_min (xs @ ys) (xs' @ ys') < 0"
  by (induction xs xs' rule: list_induct2) (auto split: if_splits)

lemma memcmp_min_antisym: "memcmp_min ys xs = - memcmp_min xs ys"
  by (simp add: memcmp_min_def memcmp_antisym [of _ ys xs] min.commute)

lemma memcmp_min_refl [simp]: "memcmp_min xs xs = 0"
  by (simp add: memcmp_min_def)

lemma Component_wire_eq:
  "Component_wire c = writeVarNumber (ctype c) @ writeVarNumber (length (cvalue c)) @ cvalue c"
  by (simp add: Component_wire_def Component_wireEncode_def encoder_eqs prependByteArray_def)

text \<open>
  The variable-size number encoding keeps the order of the numbers, whatever follows: this is
  what lets \<^verbatim>\<open>Component::compare\<close> use \<^verbatim>\<open>memcmp\<close> on wire encodings.
\<close>

lemma memcmp_be_bytes:
  assumes "m < n" and "n < 256 ^ k"
  shows "memcmp_min (be_bytes k m @ xs) (be_bytes k n @ ys) < 0"
proof -
  have "be_nat (be_bytes k m) < be_nat (be_bytes k n)"
    using assms by (simp add: be_nat_be_bytes_id)
  then show ?thesis
    using memcmp_be_nat [of "be_bytes k m" "be_bytes k n"] by (simp add: memcmp_min_append)
qed

lemma memcmp_writeVarNumber:
  assumes "m < n" and "n < 2 ^ 64"
  shows "memcmp_min (writeVarNumber m @ xs) (writeVarNumber n @ ys) < 0"
  using assms memcmp_be_bytes [of m n 2 xs ys] memcmp_be_bytes [of m n 4 xs ys]
    memcmp_be_bytes [of m n 8 xs ys]
  by (auto simp: writeVarNumber_def word_less_nat_alt unat_of_nat)

lemma wire_cmp_less:
  assumes "ctype b < 2 ^ 64" and "length (cvalue b) < 2 ^ 64" and "comp_cmp a b < 0"
  shows "memcmp_min (Component_wire a) (Component_wire b) < 0"
proof -
  consider (type) "ctype a < ctype b"
    | (len) "ctype a = ctype b" "length (cvalue a) < length (cvalue b)"
    | (val) "ctype a = ctype b" "length (cvalue a) = length (cvalue b)"
        "memcmp (length (cvalue a)) (cvalue a) (cvalue b) < 0"
    using assms(3) by (auto simp: comp_cmp_def split: if_splits)
  then show ?thesis
  proof cases
    case type
    then show ?thesis unfolding Component_wire_eq
      using assms(1) by (rule memcmp_writeVarNumber)
  next
    case len
    then show ?thesis unfolding Component_wire_eq
      using memcmp_writeVarNumber [OF len(2) assms(2)] by simp
  next
    case val
    then show ?thesis unfolding Component_wire_eq
      using memcmp_min_append [of "cvalue a" "cvalue b" "[]" "[]"] by simp
  qed
qed

lemma wire_cmp_sgn:
  assumes "ctype a < 2 ^ 64" "length (cvalue a) < 2 ^ 64"
    and "ctype b < 2 ^ 64" "length (cvalue b) < 2 ^ 64"
  shows "sgn (memcmp_min (Component_wire a) (Component_wire b)) = sgn (comp_cmp a b)"
proof -
  consider "comp_cmp a b < 0" | "a = b" | "comp_cmp b a < 0"
    using comp_order.total by blast
  then show ?thesis
  proof cases
    case 1
    then show ?thesis using wire_cmp_less [OF assms(3,4)] by simp
  next
    case 2
    then show ?thesis by (simp add: comp_order.refl0)
  next
    case 3
    from wire_cmp_less [OF assms(1,2) 3] 3 show ?thesis
      using memcmp_min_antisym [of "Component_wire a" "Component_wire b"] comp_cmp_minus [of a b]
      by simp
  qed
qed

lemma to_int32_id: "- (2 ^ 31) \<le> d \<Longrightarrow> d < 2 ^ 31 \<Longrightarrow> to_int32 d = d"
  by (simp add: to_int32_def signed_of_int signed_take_bit_int_eq_self)

lemma Component_compare_sgn:
  assumes "ctype a < 2 ^ 31" "length (cvalue a) < 2 ^ 31"
    and "ctype b < 2 ^ 31" "length (cvalue b) < 2 ^ 31"
  shows "sgn (Component_compare hw1 hw2 a b) = sgn (comp_cmp a b)"
proof -
  have "\<not> (hw1 \<and> hw2) \<Longrightarrow> Component_compare hw1 hw2 a b = comp_cmp a b"
    using assms by (auto simp: Component_compare_def comp_cmp_def Let_def to_int32_id)
  then show ?thesis
    using wire_cmp_sgn [of a b] assms by (cases "hw1 \<and> hw2") (auto simp: Component_compare_def memcmp_min_def)
qed

section \<open>The successor is the least component above\<close>

lemma increment_loop_be_nat:
  "increment_loop bs = (ov, r) \<Longrightarrow>
     length r = length bs \<and>
     (if ov then r = replicate (length bs) 0 \<and> be_nat (rev bs) + 1 = 256 ^ length bs
      else be_nat (rev r) = be_nat (rev bs) + 1)"
proof (induction bs arbitrary: ov r)
  case (Cons b bs)
  show ?case
  proof (cases "b + 1 = 0")
    case True
    then have b1: "b = -1" by (simp only: eq_neg_iff_add_eq_0)
    then have b: "unat b = 255"
      by (simp add: unsigned_minus_1_eq_mask mask_eq_exp_minus_1)
    obtain ov' r' where i: "increment_loop bs = (ov', r')" by fastforce
    with Cons.prems b1 have r': "increment_loop bs = (ov, r')" "r = 0 # r'" by simp_all
    from Cons.IH [OF r'(1)] r'(2) b show ?thesis
      by (auto simp: be_nat_snoc split: if_splits)
  next
    case False
    then have "unat (b + 1) = unat b + 1"
      using unatSuc [of b] by (simp add: add.commute)
    with Cons.prems False show ?thesis by (auto simp: be_nat_snoc)
  qed
qed simp

lemma be_nat_zeros [simp]: "be_nat (replicate n 0) = 0"
  by (induction n) (auto simp: be_nat_Cons)

text \<open>
  The successor as one of three cases: the value plus one, a longer value of zeros, or the
  least value of the next type.
\<close>

lemma Component_getSuccessor_cases:
  obtains (inc) v where "Component_getSuccessor c = Component (ctype c) v"
      "length v = length (cvalue c)" "be_nat v = be_nat (cvalue c) + 1"
  | (ext) "Component_getSuccessor c =
        Component (ctype c) (replicate (Suc (length (cvalue c))) 0)"
      "\<not> isSha256ComponentType (ctype c)" "be_nat (cvalue c) + 1 = 256 ^ length (cvalue c)"
  | (next_type) "Component_getSuccessor c = Component (ctype c + 1) (getMinValue (ctype c + 1))"
      "isSha256ComponentType (ctype c)" "be_nat (cvalue c) + 1 = 256 ^ length (cvalue c)"
proof -
  obtain ov r where r: "increment_loop (rev (cvalue c)) = (ov, r)" by fastforce
  note * = increment_loop_be_nat [OF r]
  show thesis
  proof (cases ov)
    case False
    have "Component_getSuccessor c = Component (ctype c) (rev r)"
      using r False
      by (simp add: Component_getSuccessor_def ComponentType_getSuccessor_def getSuccessorImpl_def)
    then show thesis using * False by (intro inc [of "rev r"]) simp_all
  next
    case True
    show thesis
    proof (cases "isSha256ComponentType (ctype c)")
      case sha: True
      then have "Component_getSuccessor c = Component (ctype c + 1) (getMinValue (ctype c + 1))"
        using r True
        by (simp add: Component_getSuccessor_def ComponentType_getSuccessor_def getSuccessorImpl_def)
      then show thesis using * True sha by (intro next_type) simp_all
    next
      case base: False
      then have "Component_getSuccessor c = Component (ctype c) (rev r @ [0])"
        using r True
        by (simp add: Component_getSuccessor_def ComponentType_getSuccessor_def getSuccessorImpl_def)
      moreover have "rev r @ [0] = replicate (Suc (length (cvalue c))) 0"
        using * True by (simp add: replicate_append_same)
      ultimately show thesis using * True base by (intro ext) simp_all
    qed
  qed
qed

lemma Component_getSuccessor_greater: "comp_cmp c (Component_getSuccessor c) < 0"
  by (cases rule: Component_getSuccessor_cases [of c]) (auto simp: comp_cmp_less_iff)

lemma Component_getSuccessor_valid:
  assumes "valid_component c"
  shows "valid_component (Component_getSuccessor c)"
  using assms
  by (cases rule: Component_getSuccessor_cases [of c])
    (auto simp: valid_component_iff isSha256ComponentType_def getMinValue_def SHA256_DIGEST_SIZE_def)

text \<open>\<^verbatim>\<open>getMinValue\<close> is the value of the least valid component of its type.\<close>

lemma getMinValue_least:
  assumes "valid_component d"
  shows "\<not> comp_cmp d (Component (ctype d) (getMinValue (ctype d))) < 0"
proof (cases "isSha256ComponentType (ctype d)")
  case True
  then have "length (cvalue d) = 32" and "getMinValue (ctype d) = replicate 32 0"
    using assms
    by (simp_all add: valid_component_iff isSha256ComponentType_def getMinValue_def
        SHA256_DIGEST_SIZE_def)
  then show ?thesis by (simp add: comp_cmp_less_iff)
next
  case False
  then show ?thesis by (simp add: comp_cmp_less_iff getMinValue_def)
qed

lemma lex3_less_Suc:
  fixes t t' l l' v v' :: nat
  assumes "t < t' \<or> t = t' \<and> (l < l' \<or> l = l' \<and> v < v')"
  shows "\<not> (t' < t \<or> t' = t \<and> (l' < l \<or> l' = l \<and> v' < v + 1))"
  using assms by auto

lemma lex3_less_ext:
  fixes t t' l l' v v' :: nat
  assumes "t < t' \<or> t = t' \<and> (l < l' \<or> l = l' \<and> v < v')" and "\<not> (t = t' \<and> l = l')"
  shows "\<not> (t' < t \<or> t' = t \<and> (l' < Suc l \<or> l' = Suc l \<and> v' < 0))"
  using assms by auto

lemma Component_getSuccessor_least:
  assumes c: "valid_component c" and d: "valid_component d" and less: "comp_cmp c d < 0"
  shows "comp_cmp (Component_getSuccessor c) d \<le> 0"
proof -
  have bound: "be_nat (cvalue d) < 256 ^ length (cvalue d)" by (rule be_nat_bound)
  have "\<not> comp_cmp d (Component_getSuccessor c) < 0"
  proof (cases rule: Component_getSuccessor_cases [of c])
    case (inc v)
    from less show ?thesis
      unfolding comp_cmp_less_iff inc(1) component.sel inc(2,3) by (rule lex3_less_Suc)
  next
    case ext
    have "\<not> (ctype c = ctype d \<and> length (cvalue c) = length (cvalue d))"
      using less ext(3) bound by (auto simp: comp_cmp_less_iff)
    then show ?thesis
      using less unfolding comp_cmp_less_iff ext(1) component.sel length_replicate be_nat_zeros
      by (rule lex3_less_ext [rotated])
  next
    case next_type
    have "ctype c \<noteq> ctype d"
    proof
      assume eq: "ctype c = ctype d"
      then have "length (cvalue c) = length (cvalue d)"
        using c d next_type(2) by (auto simp: valid_component_iff isSha256ComponentType_def)
      then show False using less eq next_type(3) bound by (auto simp: comp_cmp_less_iff)
    qed
    with less have "ctype c < ctype d" by (auto simp: comp_cmp_less_iff)
    then consider "ctype c + 1 = ctype d" | "ctype c + 1 < ctype d" by linarith
    then show ?thesis
      using getMinValue_least [OF d] by cases (auto simp: next_type(1) comp_cmp_less_iff)
  qed
  then show ?thesis using comp_order.ge_iff by (simp add: not_less)
qed

section \<open>Naming conventions round trip\<close>

lemma length_writeNonNegativeInteger_cases:
  "length (writeNonNegativeInteger n) \<in> {1, 2, 4, 8}"
  by (simp add: length_writeNonNegativeInteger sizeOfNonNegativeInteger_def)

lemma toNumber_fromNumber: "n < 2 ^ 64 \<Longrightarrow> toNumber (fromNumber n t) = Inr n"
  using readNonNegativeInteger_write [of n "[]"] length_writeNonNegativeInteger_cases [of n]
  by (simp add: toNumber_def fromNumber_def isNumber_def Let_def)

lemma toNumberWithMarker_fromNumberWithMarker:
  "n < 2 ^ 64 \<Longrightarrow> toNumberWithMarker m (fromNumberWithMarker m n) = Inr n"
  using readNonNegativeInteger_write [of n "[]"] length_writeNonNegativeInteger_cases [of n]
  by (auto simp: toNumberWithMarker_def fromNumberWithMarker_def isNumberWithMarker_def
      encoder_eqs prependByteArray_def)

lemma ctype_fromNumber [simp]: "ctype (fromNumber n t) = t"
  by (simp add: fromNumber_def Let_def)

lemma ctype_fromNumberWithMarker [simp]: "ctype (fromNumberWithMarker m n) = 8"
  by (simp add: fromNumberWithMarker_def)

lemma toConvention_fromConvention:
  assumes "n < 2 ^ 64" and "t \<noteq> tlv_GenericNameComponent"
    and "ge \<noteq> EITHER" and "gd = ge \<or> gd = EITHER"
  shows "toConvention gd m t (fromConvention ge m t n) = Inr n"
  using assms
  by (cases ge)
    (auto simp: toConvention_def fromConvention_def canDecodeMarkerConvention_def
      canDecodeTypedConvention_def toNumber_fromNumber toNumberWithMarker_fromNumberWithMarker)

section \<open>Properties\<close>

text \<open>
  C3: \<^verbatim>\<open>Component::compare\<close> takes one of two routes, comparing wire encodings or comparing type,
  length and value; both have the sign of the canonical order, for all components whose type and
  length fit an \<^verbatim>\<open>int\<close>.
\<close>

theorem Component_compare_canonical:
  assumes "ctype a < 2 ^ 31" "length (cvalue a) < 2 ^ 31"
    and "ctype b < 2 ^ 31" "length (cvalue b) < 2 ^ 31"
  shows "sgn (Component_compare hw1 hw2 a b) = sgn (comp_cmp a b)"
  using assms by (rule Component_compare_sgn)

theorem Component_compare_canonical_witness:
  "sgn (Component_compare True True (Component 8 [66]) (Component 8 [65, 65])) = -1"
  using Component_compare_canonical [of "Component 8 [66]" "Component 8 [65, 65]" True True]
  by (simp add: comp_cmp_def)

text \<open>
  C2: \<^verbatim>\<open>Component::getSuccessor\<close> is the immediate successor in the canonical order: the result is
  valid and greater than the component, and no valid component lies strictly between.
\<close>

theorem Component_getSuccessor_immediate:
  assumes "valid_component c" and "ctype c < 65535"
  shows "valid_component (Component_getSuccessor c) \<and>
    comp_cmp c (Component_getSuccessor c) < 0 \<and>
    (\<forall>d. valid_component d \<longrightarrow> comp_cmp c d < 0 \<longrightarrow> comp_cmp (Component_getSuccessor c) d \<le> 0)"
  using Component_getSuccessor_valid [OF assms(1)] Component_getSuccessor_greater [of c]
    Component_getSuccessor_least [OF assms(1)] by blast

theorem Component_getSuccessor_immediate_witness:
  "valid_component (Component 8 [255]) \<and>
   Component_getSuccessor (Component 8 [255]) = Component 8 [0, 0] \<and>
   comp_cmp (Component 8 [255]) (Component_getSuccessor (Component 8 [255])) < 0"
  using Component_getSuccessor_immediate [of "Component 8 [255]"]
  by (simp add: valid_component_iff Component_getSuccessor_def ComponentType_getSuccessor_def
      getSuccessorImpl_def isSha256ComponentType_def)

text \<open>
  C9: The naming conventions round trip: the number put into a version, segment, byte offset or
  sequence number component with the marker or the typed convention is the number read back,
  when the decoder accepts that convention.
\<close>

theorem convention_roundtrip:
  assumes "n < 2 ^ 64" and "ge \<noteq> EITHER" and "gd = ge \<or> gd = EITHER"
  shows "toSegment gd (fromSegment ge n) = Inr n \<and> toVersion gd (fromVersion ge n) = Inr n \<and>
    toByteOffset gd (fromByteOffset ge n) = Inr n \<and>
    toSequenceNumber gd (fromSequenceNumber ge n) = Inr n"
  using toConvention_fromConvention [OF assms(1) _ assms(2,3)]
  by (simp add: toSegment_def fromSegment_def toVersion_def fromVersion_def toByteOffset_def
      fromByteOffset_def toSequenceNumber_def fromSequenceNumber_def)

theorem convention_roundtrip_witness:
  "toSegment EITHER (fromSegment TYPED 300) = Inr 300 \<and>
   fromSegment TYPED 300 = Component 33 [1, 44]"
proof -
  have "fromSegment TYPED 300 = Component 33 [1, 44]"
    by (simp add: fromSegment_def fromConvention_def fromNumber_def makeNonNegativeIntegerBlock_def
        encoder_eqs writeNonNegativeInteger_def be_bytes_2)
  with convention_roundtrip [of 300 TYPED EITHER] show ?thesis by simp
qed

end
