(* ===== verification/Names.thy ===== *)
theory Names
  imports NameComponent "HOL-Library.List_Lexorder"
begin

text \<open>
  \<^verbatim>\<open>ndn::Name\<close> (\<^verbatim>\<open>name.cpp\<close>, \<^verbatim>\<open>name.hpp\<close>): a sequence of components. Indices are \<^verbatim>\<open>ssize_t\<close>,
  counts are \<^verbatim>\<open>size_t\<close> and wrap at 64 bits; a read outside the element vector is the value
  \<^term>\<open>None\<close> (or the exception, where the code checks). The lemmas show the canonical order on
  names, that comparison of sub-names is comparison of the extracted sub-names, and that
  \<^verbatim>\<open>getSuccessor\<close> closes the range of the names below a prefix, which is what the Content
  Store's range queries rest on.
\<close>

type_synonym name = "component list"

definition npos :: nat where
  "npos = 2 ^ 64 - 1"

text \<open>Subtraction and addition on \<^verbatim>\<open>size_t\<close>.\<close>

definition size_sub :: "nat \<Rightarrow> nat \<Rightarrow> nat" where
  "size_sub a b = nat ((int a - int b) mod 2 ^ 64)"

definition size_add :: "nat \<Rightarrow> int \<Rightarrow> nat" where
  "size_add a b = nat ((int a + b) mod 2 ^ 64)"

section \<open>Accessors\<close>

definition Name_at :: "int \<Rightarrow> name \<Rightarrow> comp_error + component" where
  "Name_at i n =
     (let i = (if i < 0 then i + int (length n) else i) in
      if i < 0 \<or> nat i \<ge> length n then Inl OutOfBounds else Inr (n ! nat i))"

definition Name_get :: "int \<Rightarrow> name \<Rightarrow> component option" where
  "Name_get i n =
     (let i = (if i < 0 then i + int (length n) else i) in
      if 0 \<le> i \<and> nat i < length n then Some (n ! nat i) else None)"

definition getSubName :: "int \<Rightarrow> nat \<Rightarrow> name \<Rightarrow> name" where
  "getSubName iStartComponent nComponents n =
     (let iStartComponent = (if iStartComponent < 0 then iStartComponent + int (length n)
                             else iStartComponent);
          iStart = (if iStartComponent < 0 then 0 else nat iStartComponent);
          iEnd = (if nComponents \<noteq> npos then min (length n) (size_add iStart (int nComponents))
                  else length n)
      in map (\<lambda>i. n ! i) [iStart ..< iEnd])"

definition getPrefix :: "int \<Rightarrow> name \<Rightarrow> name" where
  "getPrefix nComponents n =
     (if nComponents < 0 then getSubName 0 (size_add (length n) nComponents) n
      else getSubName 0 (nat nComponents) n)"

section \<open>Modifiers\<close>

definition Name_set :: "int \<Rightarrow> component \<Rightarrow> name \<Rightarrow> name option" where
  "Name_set i c n =
     (let i = (if i < 0 then i + int (length n) else i) in
      if 0 \<le> i \<and> nat i < length n then Some (n[nat i := c]) else None)"

definition Name_append1 :: "component \<Rightarrow> name \<Rightarrow> name" where
  "Name_append1 c n = n @ [c]"

text \<open>\<^verbatim>\<open>append(const PartialName&)\<close>: component by component.\<close>

definition Name_append :: "name \<Rightarrow> name \<Rightarrow> name" where
  "Name_append other n = fold (\<lambda>i r. Name_append1 (other ! i) r) [0 ..< length other] n"

definition Name_erase :: "int \<Rightarrow> name \<Rightarrow> name option" where
  "Name_erase i n =
     (let i = (if i < 0 then i + int (length n) else i) in
      if 0 \<le> i \<and> nat i < length n then Some (take (nat i) n @ drop (Suc (nat i)) n) else None)"

section \<open>Algorithms\<close>

definition Name_getSuccessor :: "name \<Rightarrow> name" where
  "Name_getSuccessor n =
     (if n = [] then [Component tlv_ImplicitSha256DigestComponent (replicate 32 0)]
      else Name_append1 (Component_getSuccessor (last n)) (getPrefix (-1) n))"

definition isPrefixOf :: "name \<Rightarrow> name \<Rightarrow> bool" where
  "isPrefixOf n other \<longleftrightarrow>
     (if length n > length other then False
      else list_all (\<lambda>i. n ! i = other ! i) [0 ..< length n])"

definition Name_equals :: "name \<Rightarrow> name \<Rightarrow> bool" where
  "Name_equals n other \<longleftrightarrow>
     (if length n \<noteq> length other then False
      else list_all (\<lambda>i. n ! i = other ! i) [0 ..< length n])"

text \<open>
  The loop of \<^verbatim>\<open>Name::compare\<close> over the remaining indices; \<open>c\<close> compares two components. The
  result is \<^term>\<open>None\<close> where the code reads outside a name.
\<close>

fun compare_loop ::
  "(component \<Rightarrow> component \<Rightarrow> int) \<Rightarrow> name \<Rightarrow> name \<Rightarrow> nat \<Rightarrow> nat \<Rightarrow> nat \<Rightarrow> int option" where
  "compare_loop c a b p1 p2 0 = Some 0"
| "compare_loop c a b p1 p2 (Suc n) =
     (if p1 < length a \<and> p2 < length b then
        let r = c (a ! p1) (b ! p2) in
        if r \<noteq> 0 then Some r else compare_loop c a b (Suc p1) (Suc p2) n
      else None)"

definition Name_compare_range ::
  "(component \<Rightarrow> component \<Rightarrow> int) \<Rightarrow> name \<Rightarrow> nat \<Rightarrow> nat \<Rightarrow> name \<Rightarrow> nat \<Rightarrow> nat \<Rightarrow> int option" where
  "Name_compare_range c a pos1 count1 b pos2 count2 =
     (let count1 = min count1 (size_sub (length a) pos1);
          count2 = min count2 (size_sub (length b) pos2);
          n = min count1 count2
      in case compare_loop c a b pos1 pos2 n of
           None \<Rightarrow> None
         | Some r \<Rightarrow> if r \<noteq> 0 then Some r
                        else Some (to_int32 (int count1 - int count2)))"

definition Name_compare :: "name \<Rightarrow> name \<Rightarrow> int option" where
  "Name_compare a b = Name_compare_range comp_cmp a 0 npos b 0 npos"

section \<open>Wire encoding\<close>

definition Name_wireEncode :: "name \<Rightarrow> bytes \<Rightarrow> nat \<times> bytes" where
  "Name_wireEncode n buf =
     (let (total, buf1) =
            fold (\<lambda>cmpt (t, b). let (k, b') = Component_wireEncode cmpt b in (t + k, b'))
              (rev n) (0, buf);
          (n2, buf2) = prependVarNumber total buf1;
          (n3, buf3) = prependVarNumber tlv_Name buf2
      in (total + n2 + n3, buf3))"

datatype name_error = NotName nat | NameTlv tlv_error

text \<open>
  \<^verbatim>\<open>wireDecode\<close> parses the sub-elements and reinterprets each as a component: component types
  and digest lengths are not validated here.
\<close>

definition Name_wireDecode :: "block \<Rightarrow> name_error + name" where
  "Name_wireDecode wire =
     (if btype wire \<noteq> tlv_Name then Inl (NotName (btype wire))
      else case Block_parse (bvalue wire) of
             Inl e \<Rightarrow> Inl (NameTlv e)
           | Inr es \<Rightarrow> Inr (map (\<lambda>b. Component (btype b) (bvalue b)) es))"

section \<open>Sub-names\<close>

lemma map_nth_upt: "e \<le> length n \<Longrightarrow> map (\<lambda>i. n ! i) [s ..< e] = take (e - s) (drop s n)"
  by (rule nth_equalityI) auto

lemma size_add_id: "0 \<le> int a + b \<Longrightarrow> int a + b < 2 ^ 64 \<Longrightarrow> size_add a b = nat (int a + b)"
  by (simp add: size_add_def)

lemma size_sub_id: "b \<le> a \<Longrightarrow> a < 2 ^ 64 \<Longrightarrow> size_sub a b = a - b"
  by (simp add: size_sub_def nat_diff_distrib)

lemma getSubName_eq:
  assumes "s + k < 2 ^ 64 \<or> k = npos" and "length n < 2 ^ 64"
  shows "getSubName (int s) k n = take k (drop s n)"
proof (cases "k = npos")
  case True
  with assms(2) show ?thesis by (auto simp: getSubName_def map_nth_upt npos_def)
next
  case False
  with assms(1) have "size_add s (int k) = s + k" by (simp add: size_add_id nat_add_distrib)
  with False show ?thesis
    by (auto simp: getSubName_def map_nth_upt min_def)
qed

lemma getPrefix_take: "0 \<le> k \<Longrightarrow> nat k < 2 ^ 64 \<Longrightarrow> length n < 2 ^ 64 \<Longrightarrow> getPrefix k n = take (nat k) n"
  using getSubName_eq [of 0 "nat k" n] by (simp add: getPrefix_def)

lemma getPrefix_neg:
  "0 < k \<Longrightarrow> k \<le> length n \<Longrightarrow> length n < 2 ^ 64 \<Longrightarrow> getPrefix (- int k) n = take (length n - k) n"
  using getSubName_eq [of 0 "length n - k" n] less_imp_diff_less [of "length n" "2 ^ 64" k]
  by (simp add: getPrefix_def size_add_id nat_diff_distrib)

lemma getPrefix_minus_one: "length n < 2 ^ 64 \<Longrightarrow> n \<noteq> [] \<Longrightarrow> getPrefix (-1) n = butlast n"
  using getPrefix_neg [of 1 n] by (cases n) (simp_all add: butlast_conv_take)

lemma Name_append_eq: "Name_append other n = n @ other"
proof -
  have "fold (\<lambda>i r. Name_append1 (other ! i) r) is n = n @ map ((!) other) is" for "is"
    by (induction "is" arbitrary: n) (simp_all add: Name_append1_def)
  then show ?thesis by (simp add: Name_append_def map_nth)
qed

lemma isPrefixOf_iff: "isPrefixOf n other \<longleftrightarrow> prefix n other"
proof
  assume "isPrefixOf n other"
  then have le: "length n \<le> length other" and eq: "\<forall>i < length n. n ! i = other ! i"
    by (auto simp: isPrefixOf_def list_all_iff split: if_splits)
  have "n = take (length n) other" using le eq by (auto intro: nth_equalityI)
  then show "prefix n other" by (metis take_is_prefix)
next
  assume "prefix n other"
  then show "isPrefixOf n other"
    by (auto simp: isPrefixOf_def list_all_iff prefix_def nth_append)
qed

lemma Name_equals_iff: "Name_equals n other \<longleftrightarrow> n = other"
  by (auto simp: Name_equals_def list_all_iff intro: nth_equalityI)

section \<open>The canonical order on names\<close>

definition name_cmp :: "name \<Rightarrow> name \<Rightarrow> int" where
  "name_cmp = lex_cmp comp_cmp"

interpretation name_order: three_way name_cmp
  unfolding name_cmp_def by (rule comp_order.lex_three_way)

text \<open>The library's orders on the model's types: components by \<^const>\<open>comp_cmp\<close>, names lexicographic.\<close>

instantiation component :: linorder
begin

definition less_eq_component :: "component \<Rightarrow> component \<Rightarrow> bool" where
  "less_eq_component a b \<longleftrightarrow> comp_cmp a b \<le> 0"

definition less_component :: "component \<Rightarrow> component \<Rightarrow> bool" where
  "less_component a b \<longleftrightarrow> comp_cmp a b < 0"

instance
proof
  fix x y z :: component
  show "x < y \<longleftrightarrow> x \<le> y \<and> \<not> y \<le> x"
    unfolding less_component_def less_eq_component_def by (rule comp_order.less_iff)
  show "x \<le> x" by (simp add: less_eq_component_def comp_order.refl0)
  show "x \<le> y \<Longrightarrow> y \<le> z \<Longrightarrow> x \<le> z"
    unfolding less_eq_component_def by (rule comp_order.le_trans)
  show "x \<le> y \<Longrightarrow> y \<le> x \<Longrightarrow> x = y"
    unfolding less_eq_component_def by (rule comp_order.le_antisym)
  show "x \<le> y \<or> y \<le> x"
    unfolding less_eq_component_def by (rule comp_order.le_total)
qed

end

lemma name_cmp_less_iff: "name_cmp a b < 0 \<longleftrightarrow> a < b"
  unfolding name_cmp_def
proof (induction a arbitrary: b)
  case Nil
  show ?case by (cases b) auto
next
  case (Cons x a)
  show ?case
  proof (cases b)
    case b: (Cons y b')
    show ?thesis
      using Cons.IH [of b'] comp_order.cmp_eq_0 [of x y]
      by (cases "x = y") (simp_all add: b less_component_def comp_order.refl0)
  qed simp
qed

lemma name_cmp_le_iff: "name_cmp a b \<le> 0 \<longleftrightarrow> a \<le> b"
  using name_cmp_less_iff [of a b] name_order.cmp_eq_0 [of a b] by (metis order_le_less)

lemma compare_loop_lex:
  assumes "p1 + n \<le> length a" and "p2 + n \<le> length b"
  shows "\<exists>r. compare_loop c a b p1 p2 n = Some r \<and>
     lex_cmp c (take n (drop p1 a)) (take n (drop p2 b)) = r"
  using assms
proof (induction n arbitrary: p1 p2)
  case (Suc n)
  then have "drop p1 a = a ! p1 # drop (Suc p1) a" "drop p2 b = b ! p2 # drop (Suc p2) b"
    by (simp_all add: Cons_nth_drop_Suc)
  with Suc show ?case by (auto simp: Let_def)
qed simp

lemma lex_cmp_take:
  "lex_cmp c xs ys =
     (let n = min (length xs) (length ys); r = lex_cmp c (take n xs) (take n ys) in
      if r \<noteq> 0 then r else int (length xs) - int (length ys))"
  by (induction c xs ys rule: lex_cmp.induct) (auto simp: Let_def)

lemma Name_compare_range_eq:
  assumes "length a < 2 ^ 31" "length b < 2 ^ 31" "pos1 \<le> length a" "pos2 \<le> length b"
  shows "Name_compare_range c a pos1 count1 b pos2 count2 =
     Some (lex_cmp c (take count1 (drop pos1 a)) (take count2 (drop pos2 b)))"
proof -
  let ?c1 = "min count1 (length a - pos1)" and ?c2 = "min count2 (length b - pos2)"
  let ?n = "min ?c1 ?c2"
  have s: "size_sub (length a) pos1 = length a - pos1" "size_sub (length b) pos2 = length b - pos2"
    using assms by (auto intro: size_sub_id)
  have "?n + pos1 \<le> length a" "?n + pos2 \<le> length b"
    by (simp_all add: le_diff_conv2 [OF assms(3), symmetric] le_diff_conv2 [OF assms(4), symmetric])
  then have n: "pos1 + ?n \<le> length a" "pos2 + ?n \<le> length b" by (simp_all only: add.commute)
  obtain r where r: "compare_loop c a b pos1 pos2 ?n = Some r"
      "lex_cmp c (take ?n (drop pos1 a)) (take ?n (drop pos2 b)) = r"
    using compare_loop_lex [OF n, of c] by blast
  have l: "length (take count1 (drop pos1 a)) = ?c1" "length (take count2 (drop pos2 b)) = ?c2"
    by simp_all
  have m: "min ?n count1 = ?n" "min ?n count2 = ?n"
    by (rule min.absorb1; simp)+
  have i: "to_int32 (int ?c1 - int ?c2) = int ?c1 - int ?c2"
    using assms by (intro to_int32_id) auto
  have t: "take ?n (take count1 (drop pos1 a)) = take ?n (drop pos1 a)"
    "take ?n (take count2 (drop pos2 b)) = take ?n (drop pos2 b)"
    unfolding take_take m by (rule refl)+
  have lex: "lex_cmp c (take count1 (drop pos1 a)) (take count2 (drop pos2 b)) =
      (if r \<noteq> 0 then r else int ?c1 - int ?c2)"
    using lex_cmp_take [of c "take count1 (drop pos1 a)" "take count2 (drop pos2 b)"]
    unfolding Let_def l t r(2) .
  show ?thesis
    unfolding Name_compare_range_def s Let_def r(1) option.case i lex by (rule if_distrib [symmetric])
qed

lemma Name_compare_eq:
  "length a < 2 ^ 31 \<Longrightarrow> length b < 2 ^ 31 \<Longrightarrow> Name_compare a b = Some (name_cmp a b)"
  by (simp add: Name_compare_def Name_compare_range_eq name_cmp_def npos_def)

text \<open>Comparing components through any mix of wire encodings gives the same order of names.\<close>

lemma lex_cmp_sgn_cong:
  assumes "\<And>x y. x \<in> set xs \<Longrightarrow> y \<in> set ys \<Longrightarrow> sgn (c x y) = sgn (d x y)"
  shows "sgn (lex_cmp c xs ys) = sgn (lex_cmp d xs ys)"
  using assms
proof (induction c xs ys rule: lex_cmp.induct)
  case (1 c x xs y ys)
  have "sgn (c x y) = sgn (d x y)" using "1.prems" by simp
  then have "c x y = 0 \<longleftrightarrow> d x y = 0" by (metis sgn_0_0)
  with 1 show ?case by auto
qed auto

section \<open>The successor closes the range of a prefix\<close>

lemma Name_getSuccessor_snoc:
  "length q < 2 ^ 64 - 1 \<Longrightarrow> Name_getSuccessor (q @ [c]) = q @ [Component_getSuccessor c]"
  by (simp add: Name_getSuccessor_def getPrefix_minus_one Name_append1_def)

lemma lex_between:
  assumes "\<And>d. d \<in> set n \<Longrightarrow> comp_cmp c d < 0 \<Longrightarrow> comp_cmp c' d \<le> 0"
    and "name_cmp (q @ [c]) n \<le> 0" and "name_cmp n (q @ [c']) < 0"
  shows "prefix (q @ [c]) n"
  using assms
proof (induction q arbitrary: n)
  case Nil
  from Nil.prems(2) obtain d r where n: "n = d # r" by (cases n) (auto simp: name_cmp_def)
  from Nil.prems(3) have "comp_cmp d c' < 0"
    by (auto simp: n name_cmp_def comp_order.refl0 split: if_splits)
  then have "\<not> comp_cmp c' d \<le> 0" using comp_order.cmp_swap [of d c'] by simp
  with Nil.prems(1) [of d] have "\<not> comp_cmp c d < 0" by (auto simp: n)
  with Nil.prems(2) have "comp_cmp c d = 0" by (auto simp: n name_cmp_def split: if_splits)
  then show ?case by (simp add: n comp_order.cmp_eq_0)
next
  case (Cons x q)
  from Cons.prems(2) obtain y r where n: "n = y # r" by (cases n) (auto simp: name_cmp_def)
  have "comp_cmp x y \<le> 0" "comp_cmp y x \<le> 0"
    using Cons.prems(2,3) by (auto simp: n name_cmp_def split: if_splits)
  then have "x = y" by (rule comp_order.le_antisym)
  with Cons show ?case by (auto simp: n name_cmp_def comp_order.refl0)
qed

lemma prefix_range:
  assumes "p \<noteq> []" "length p < 2 ^ 64" and p: "list_all valid_component p"
    and n: "list_all valid_component n"
  shows "isPrefixOf p n \<longleftrightarrow> name_cmp p n \<le> 0 \<and> name_cmp n (Name_getSuccessor p) < 0"
proof -
  obtain q c where pq: "p = q @ [c]" using assms(1) by (metis rev_exhaust)
  have s: "Name_getSuccessor p = q @ [Component_getSuccessor c]"
    using assms(2) by (simp add: pq Name_getSuccessor_snoc)
  have least: "comp_cmp (Component_getSuccessor c) d \<le> 0" if "d \<in> set n" "comp_cmp c d < 0" for d
    using Component_getSuccessor_least [of c d] that p n by (auto simp: pq list_all_iff)
  show ?thesis
  proof
    assume "isPrefixOf p n"
    then obtain r where r: "n = q @ c # r" by (auto simp: isPrefixOf_iff prefix_def pq)
    show "name_cmp p n \<le> 0 \<and> name_cmp n (Name_getSuccessor p) < 0"
      using comp_order.lex_cmp_prefix_le [of "q @ [c]" r] Component_getSuccessor_greater [of c]
      by (simp add: s [unfolded pq] r pq name_cmp_def comp_order.lex_cmp_append_same comp_order.refl0)
  next
    assume "name_cmp p n \<le> 0 \<and> name_cmp n (Name_getSuccessor p) < 0"
    then show "isPrefixOf p n"
      using lex_between [of n c "Component_getSuccessor c" q] least
      by (simp add: isPrefixOf_iff pq s [unfolded pq])
  qed
qed

section \<open>Wire format round trip\<close>

lemma Component_wireEncode_eq:
  "Component_wireEncode c buf =
     (length (Block_encode (Component_toBlock c)), Block_encode (Component_toBlock c) @ buf)"
  by (simp add: Component_wireEncode_def encoder_eqs prependByteArray_def Block_encode_eq
      Component_toBlock_def length_writeVarNumber)

lemma Name_wireEncode_fold:
  "fold (\<lambda>cmpt (t, b). let (k, b') = Component_wireEncode cmpt b in (t + k, b')) cs (t, buf) =
     (t + length (concat (map (\<lambda>c. Block_encode (Component_toBlock c)) cs)),
      concat (map (\<lambda>c. Block_encode (Component_toBlock c)) (rev cs)) @ buf)"
  by (induction cs arbitrary: t buf) (simp_all add: Component_wireEncode_eq)

definition Name_value :: "name \<Rightarrow> bytes" where
  "Name_value n = concat (map (\<lambda>c. Block_encode (Component_toBlock c)) n)"

lemma length_concat_rev: "length (concat (map f (rev xs))) = length (concat (map f xs))"
  by (induction xs) auto

lemma Name_wireEncode_eq:
  "Name_wireEncode n buf =
     (length (Block_encode (Block 7 (Name_value n))), Block_encode (Block 7 (Name_value n)) @ buf)"
proof -
  have "fold (\<lambda>cmpt (t, b). let (k, b') = Component_wireEncode cmpt b in (t + k, b')) (rev n) (0, buf) =
      (length (Name_value n), Name_value n @ buf)"
    by (simp only: Name_wireEncode_fold rev_rev_ident length_concat_rev Name_value_def add_0)
  then show ?thesis
    unfolding Name_wireEncode_def
    by (simp add: encoder_eqs Block_encode_eq length_writeVarNumber)
qed

definition encodable_name :: "name \<Rightarrow> bool" where
  "encodable_name n \<longleftrightarrow>
     list_all (\<lambda>c. wf_block (Component_toBlock c)) n \<and> length (Name_value n) < 2 ^ 64"

lemma Name_wireDecode_value:
  "encodable_name n \<Longrightarrow> Name_wireDecode (Block 7 (Name_value n)) = Inr n"
  using Block_parse_encode [of "map Component_toBlock n"]
  by (simp add: Name_wireDecode_def Name_value_def encodable_name_def list_all_iff o_def
      Component_toBlock_def map_idI)

lemma wf_block_name: "encodable_name n \<Longrightarrow> wf_block (Block 7 (Name_value n))"
  by (simp add: encodable_name_def wf_block_def)

section \<open>Properties\<close>

text \<open>
  C1: For a non-empty valid prefix, the half-open interval from the prefix to its successor in
  the canonical order holds exactly the valid names that have the prefix. Range queries on a
  container ordered by name therefore return all matches and nothing else.
\<close>

theorem successor_closes_prefix_range:
  assumes "p \<noteq> []" "length p < 2 ^ 64" "list_all valid_component p" "list_all valid_component n"
  shows "isPrefixOf p n \<longleftrightarrow> p \<le> n \<and> n < Name_getSuccessor p"
  using prefix_range [OF assms] by (simp add: name_cmp_less_iff name_cmp_le_iff)

theorem successor_closes_prefix_range_witness:
  "isPrefixOf [Component 8 [65]] [Component 8 [65], Component 8 [66]] \<and>
   [Component 8 [65], Component 8 [66]] < Name_getSuccessor [Component 8 [65]] \<and>
   \<not> isPrefixOf [Component 8 [65]] [Component 8 [66]]"
proof -
  have 1: "isPrefixOf [Component 8 [65]] [Component 8 [65], Component 8 [66]]"
    "\<not> isPrefixOf [Component 8 [65]] [Component 8 [66]]"
    by (simp_all add: isPrefixOf_def)
  with successor_closes_prefix_range [of "[Component 8 [65]]" "[Component 8 [65], Component 8 [66]]"]
  show ?thesis by (simp add: valid_component_iff)
qed



text \<open>
  C5: A name survives its wire format: the encoder's output is one TLV of type Name whose decoding
  is the name, for every name with encodable components.
\<close>

theorem Name_wire_roundtrip:
  assumes "encodable_name n"
  shows "\<exists>b. Block_fromBytes (snd (Name_wireEncode n []) @ rest) = Inr b \<and> Name_wireDecode b = Inr n"
  using assms Block_fromBytes_encode [OF wf_block_name [OF assms]] Name_wireDecode_value
  by (simp add: Name_wireEncode_eq)

theorem Name_wire_roundtrip_witness:
  "encodable_name [Component 8 [65]] \<and>
   (\<exists>b. Block_fromBytes (snd (Name_wireEncode [Component 8 [65]] []) @ [1]) = Inr b \<and>
        Name_wireDecode b = Inr [Component 8 [65]])"
proof -
  have "encodable_name [Component 8 [65]]"
    by (simp add: encodable_name_def wf_block_def Component_toBlock_def Name_value_def
        Block_encode_eq writeVarNumber_def)
  with Name_wire_roundtrip [of "[Component 8 [65]]" "[1]"] show ?thesis by simp
qed

end
