(* ===== verification/NameUri.thy ===== *)
theory NameUri
  imports Names
begin

text \<open>
  The URI form of names (\<^verbatim>\<open>util/string-helper.cpp\<close>, the hex transforms, the URI functions of
  \<^verbatim>\<open>name-component.cpp\<close>, \<^verbatim>\<open>impl/name-component-types.hpp\<close> and \<^verbatim>\<open>name.cpp\<close>). Text is a list
  of octets. The main result is that parsing the printed form of a name gives the name back, for
  names whose decimal components use the minimal number encoding; \<^verbatim>\<open>Interest::hasFunction\<close> and
  \<^verbatim>\<open>Interest::removeHeadFunction\<close> go through this text form.
\<close>

abbreviation (input) ch_percent :: byte where "ch_percent \<equiv> 37"
abbreviation (input) ch_dash :: byte where "ch_dash \<equiv> 45"
abbreviation (input) ch_period :: byte where "ch_period \<equiv> 46"
abbreviation (input) ch_slash :: byte where "ch_slash \<equiv> 47"
abbreviation (input) ch_colon :: byte where "ch_colon \<equiv> 58"
abbreviation (input) ch_equal :: byte where "ch_equal \<equiv> 61"
abbreviation (input) ch_underscore :: byte where "ch_underscore \<equiv> 95"
abbreviation (input) ch_tilde :: byte where "ch_tilde \<equiv> 126"

definition ascii :: "string \<Rightarrow> bytes" where
  "ascii s = map of_char s"

section \<open>Hex digits and percent encoding\<close>

definition toHexChar :: "bool \<Rightarrow> nat \<Rightarrow> byte" where
  "toHexChar wantUpperCase n =
     (let n = n mod 16 in
      if n < 10 then word_of_nat (48 + n)
      else word_of_nat ((if wantUpperCase then 55 else 87) + n))"

definition fromHexChar :: "byte \<Rightarrow> nat option" where
  "fromHexChar c =
     (if 48 \<le> c \<and> c \<le> 57 then Some (unat c - 48)
      else if 65 \<le> c \<and> c \<le> 70 then Some (unat c - 65 + 10)
      else if 97 \<le> c \<and> c \<le> 102 then Some (unat c - 97 + 10)
      else None)"

definition isUnreserved :: "byte \<Rightarrow> bool" where
  "isUnreserved c \<longleftrightarrow>
     (97 \<le> c \<and> c \<le> 122) \<or> (65 \<le> c \<and> c \<le> 90) \<or> (48 \<le> c \<and> c \<le> 57) \<or>
     c = ch_dash \<or> c = ch_period \<or> c = ch_underscore \<or> c = ch_tilde"

fun escape :: "bytes \<Rightarrow> bytes" where
  "escape [] = []"
| "escape (c # cs) =
     (if isUnreserved c then [c]
      else [ch_percent, toHexChar True (unat c div 16), toHexChar True (unat c mod 16)]) @ escape cs"

text \<open>The loop of \<^verbatim>\<open>unescape\<close>; three octets are left exactly when \<open>i + 2 < len\<close>.\<close>

fun unescape :: "bytes \<Rightarrow> bytes" where
  "unescape (c # a # b # cs) =
     (if c = ch_percent then
        (case (fromHexChar a, fromHexChar b) of
           (Some hi, Some lo) \<Rightarrow> word_of_nat (16 * hi + lo) # unescape cs
         | _ \<Rightarrow> c # a # b # unescape cs)
      else c # unescape (a # b # cs))"
| "unescape cs = cs"

definition printHex :: "bool \<Rightarrow> bytes \<Rightarrow> bytes" where
  "printHex wantUpperCase v =
     concat (map (\<lambda>b. [toHexChar wantUpperCase (unat b div 16), toHexChar wantUpperCase (unat b mod 16)]) v)"

fun fromHex :: "bytes \<Rightarrow> bytes option" where
  "fromHex [] = Some []"
| "fromHex [a] = None"
| "fromHex (a # b # cs) =
     (case (fromHexChar a, fromHexChar b) of
        (Some hi, Some lo) \<Rightarrow> map_option ((#) (word_of_nat (16 * hi + lo))) (fromHex cs)
      | _ \<Rightarrow> None)"

section \<open>Decimal numbers\<close>

text \<open>\<^verbatim>\<open>to_string\<close> of an unsigned number, and the value of the leading digits of a text.\<close>

fun dec :: "nat \<Rightarrow> bytes" where
  "dec n = (if n < 10 then [word_of_nat (48 + n)] else dec (n div 10) @ [word_of_nat (48 + n mod 10)])"

declare dec.simps [simp del]

definition isDigit :: "byte \<Rightarrow> bool" where
  "isDigit c \<longleftrightarrow> 48 \<le> c \<and> c \<le> 57"

definition undec :: "bytes \<Rightarrow> nat" where
  "undec s = foldl (\<lambda>n c. 10 * n + (unat c - 48)) 0 (takeWhile isDigit s)"

section \<open>Components as text\<close>

datatype uri_format = CANONICAL | ALTERNATE | ENV_OR_CANONICAL | ENV_OR_ALTERNATE

text \<open>\<open>env\<close> is the environment variable's verdict: unset or unrecognised, or the boolean it names.\<close>

definition wantAltUri :: "bool option \<Rightarrow> uri_format \<Rightarrow> bool" where
  "wantAltUri env format =
     (case format of
        ENV_OR_CANONICAL \<Rightarrow> (case env of None \<Rightarrow> False | Some b \<Rightarrow> b)
      | ENV_OR_ALTERNATE \<Rightarrow> (case env of None \<Rightarrow> True | Some b \<Rightarrow> b)
      | _ \<Rightarrow> format = ALTERNATE)"

definition writeUriEscapedValue :: "component \<Rightarrow> bytes" where
  "writeUriEscapedValue c =
     (if list_all (\<lambda>x. x = ch_period) (cvalue c) then [ch_period, ch_period, ch_period] else []) @
     escape (cvalue c)"

definition base_writeUri :: "component \<Rightarrow> bytes" where
  "base_writeUri c = dec (ctype c) @ [ch_equal] @ writeUriEscapedValue c"

definition sha_writeUri :: "bytes \<Rightarrow> component \<Rightarrow> bytes" where
  "sha_writeUri uriPrefix c = uriPrefix @ [ch_equal] @ printHex False (cvalue c)"

definition decimal_writeUri :: "bytes \<Rightarrow> component \<Rightarrow> bytes" where
  "decimal_writeUri uriPrefix c =
     (if isNumber c then
        (case toNumber c of Inr n \<Rightarrow> uriPrefix @ [ch_equal] @ dec n | Inl _ \<Rightarrow> [])
      else base_writeUri c)"

datatype ct_class = CtSha bytes | CtGeneric | CtDecimal bytes | CtBase

text \<open>\<^verbatim>\<open>ComponentTypeTable\<close>: the rules by type number and by alternate URI prefix.\<close>

definition componentTypeTable :: "(nat \<times> ct_class) list" where
  "componentTypeTable =
     [(tlv_ImplicitSha256DigestComponent, CtSha (ascii ''sha256digest'')),
      (tlv_ParametersSha256DigestComponent, CtSha (ascii ''params-sha256'')),
      (tlv_GenericNameComponent, CtGeneric),
      (tlv_SegmentNameComponent, CtDecimal (ascii ''seg'')),
      (tlv_ByteOffsetNameComponent, CtDecimal (ascii ''off'')),
      (tlv_VersionNameComponent, CtDecimal (ascii ''v'')),
      (tlv_TimestampNameComponent, CtDecimal (ascii ''t'')),
      (tlv_SequenceNumNameComponent, CtDecimal (ascii ''seq''))]"

definition ct_get :: "nat \<Rightarrow> ct_class" where
  "ct_get type = (case map_of componentTypeTable type of None \<Rightarrow> CtBase | Some ct \<Rightarrow> ct)"

definition ct_prefix :: "ct_class \<Rightarrow> bytes option" where
  "ct_prefix ct = (case ct of CtSha p \<Rightarrow> Some p | CtDecimal p \<Rightarrow> Some p | _ \<Rightarrow> None)"

definition findByUriPrefix :: "bytes \<Rightarrow> (nat \<times> ct_class) option" where
  "findByUriPrefix p = List.find (\<lambda>(_, ct). ct_prefix ct = Some p) componentTypeTable"

definition Component_toUri :: "bool \<Rightarrow> component \<Rightarrow> bytes" where
  "Component_toUri alt c =
     (if alt then
        (case ct_get (ctype c) of
           CtSha p \<Rightarrow> sha_writeUri p c
         | CtGeneric \<Rightarrow> writeUriEscapedValue c
         | CtDecimal p \<Rightarrow> decimal_writeUri p c
         | CtBase \<Rightarrow> base_writeUri c)
      else base_writeUri c)"

definition parseUriEscapedValue :: "nat \<Rightarrow> bytes \<Rightarrow> comp_error + component" where
  "parseUriEscapedValue type input =
     (let value = unescape input in
      if list_all (\<lambda>x. x = ch_period) value then
        (if length value < 3 then Inl IllegalPeriods
         else ensureValid (Component type (take (length value - 3) value)))
      else ensureValid (Component type value))"

definition parseAltUriValue :: "nat \<times> ct_class \<Rightarrow> bytes \<Rightarrow> comp_error + component" where
  "parseAltUriValue tc input =
     (case snd tc of
        CtSha _ \<Rightarrow> (case fromHex input of
                      None \<Rightarrow> Inl BadHex | Some v \<Rightarrow> ensureValid (Component (fst tc) v))
      | _ \<Rightarrow> if undec input \<ge> 2 ^ 64 \<or> dec (undec input) \<noteq> input then Inl BadDecimal
             else ensureValid (fromNumber (undec input) (fst tc)))"

text \<open>
  The text up to the first \<^verbatim>\<open>=\<close>, when there is one, names the type. \<^verbatim>\<open>strtoul\<close> reads the leading
  digits; the comparison with the printed number rejects every other reading.
\<close>

definition fromEscapedString :: "bytes \<Rightarrow> comp_error + component" where
  "fromEscapedString input =
     (if ch_equal \<notin> set input then parseUriEscapedValue tlv_GenericNameComponent input
      else let typePrefix = takeWhile (\<lambda>x. x \<noteq> ch_equal) input;
               rest = tl (dropWhile (\<lambda>x. x \<noteq> ch_equal) input);
               type = undec typePrefix
           in if NameComponentMin \<le> type \<and> type \<le> NameComponentMax \<and> dec type = typePrefix
              then parseUriEscapedValue type rest
              else case findByUriPrefix typePrefix of
                     None \<Rightarrow> Inl (UnknownType typePrefix)
                   | Some ct \<Rightarrow> parseAltUriValue ct rest)"

section \<open>Names as text\<close>

definition Name_toUri :: "bool \<Rightarrow> name \<Rightarrow> bytes" where
  "Name_toUri alt n =
     (if n = [] then [ch_slash] else concat (map (\<lambda>c. ch_slash # Component_toUri alt c) n))"

text \<open>\<^verbatim>\<open>uri.find(c, from)\<close>.\<close>

definition str_find :: "byte \<Rightarrow> nat \<Rightarrow> bytes \<Rightarrow> nat option" where
  "str_find c i s =
     (let n = length (takeWhile (\<lambda>x. x \<noteq> c) (drop i s)) in
      if i + n < length s then Some (i + n) else None)"

text \<open>The loop of the \<^verbatim>\<open>Name(std::string)\<close> constructor over the components.\<close>

function uri_components :: "bytes \<Rightarrow> comp_error + name" where
  "uri_components s =
     (if s = [] then Inr []
      else case fromEscapedString (takeWhile (\<lambda>x. x \<noteq> ch_slash) s) of
             Inl e \<Rightarrow> Inl e
           | Inr c \<Rightarrow>
               (case uri_components (tl (dropWhile (\<lambda>x. x \<noteq> ch_slash) s)) of
                  Inl e \<Rightarrow> Inl e | Inr n \<Rightarrow> Inr (c # n)))"
  by pat_completeness auto
termination
proof (relation "measure length", goal_cases)
  case (2 s c)
  have "length (dropWhile (\<lambda>x. x \<noteq> ch_slash) s) \<le> length s" by (rule length_dropWhile_le)
  moreover have "length s > 0" using 2 by simp
  ultimately show ?case by (simp del: length_greater_0_conv)
qed simp

declare uri_components.simps [simp del]

definition Name_fromUri :: "bytes \<Rightarrow> comp_error + name" where
  "Name_fromUri uri =
     (if uri = [] then Inr []
      else
        let uri = (case str_find ch_colon 0 uri of
                     None \<Rightarrow> uri
                   | Some iColon \<Rightarrow>
                       (case str_find ch_slash 0 uri of
                          None \<Rightarrow> drop (iColon + 1) uri
                        | Some iFirstSlash \<Rightarrow>
                            if iColon < iFirstSlash then drop (iColon + 1) uri else uri))
        in if uri \<noteq> [] \<and> hd uri = ch_slash then
             (if length uri \<ge> 2 \<and> uri ! 1 = ch_slash then
                (case str_find ch_slash 2 uri of
                   None \<Rightarrow> Inr []
                 | Some iAfterAuthority \<Rightarrow> uri_components (drop (iAfterAuthority + 1) uri))
              else uri_components (drop 1 uri))
           else uri_components uri)"

section \<open>Percent encoding round trip\<close>

lemma unat_toHexChar:
  "unat (toHexChar u n) =
     (if n mod 16 < 10 then 48 + n mod 16 else (if u then 55 else 87) + n mod 16)"
proof -
  have "n mod 16 < 16" by simp
  then show ?thesis
    unfolding toHexChar_def Let_def by (auto simp: unat_byte_of_nat simp del: of_nat_add)
qed

lemma fromHexChar_toHexChar: "n < 16 \<Longrightarrow> fromHexChar (toHexChar u n) = Some n"
  by (auto simp: fromHexChar_def word_le_nat_alt unat_toHexChar)

lemma isUnreserved_toHexChar: "isUnreserved (toHexChar u n)"
proof -
  have "n mod 16 < 16" by simp
  then show ?thesis by (auto simp: isUnreserved_def word_le_nat_alt unat_toHexChar)
qed

lemma nibbles: "word_of_nat (16 * (unat (c :: byte) div 16) + unat c mod 16) = c"
  by (simp only: mult_div_mod_eq) simp

lemma nibble_bounds: "unat (c :: byte) div 16 < 16" "unat c mod 16 < 16"
  using unat_byte_less [of c] by simp_all

lemmas nibble_simps = fromHexChar_toHexChar nibbles nibble_bounds

lemma unescape_Cons: "c \<noteq> ch_percent \<Longrightarrow> unescape (c # cs) = c # unescape cs"
proof (cases cs)
  case (Cons a as)
  then show "c \<noteq> ch_percent \<Longrightarrow> ?thesis" by (cases as) simp_all
qed simp

lemma isUnreserved_simps [simp]:
  "\<not> isUnreserved ch_percent" "\<not> isUnreserved ch_slash" "\<not> isUnreserved ch_colon"
  "\<not> isUnreserved ch_equal" "isUnreserved ch_period"
  by (simp_all add: isUnreserved_def)

lemma unescape_escape: "unescape (escape cs) = cs"
proof (induction cs)
  case (Cons c cs)
  show ?case
  proof (cases "isUnreserved c")
    case True
    then have "c \<noteq> ch_percent" by auto
    with True Cons show ?thesis by (simp add: unescape_Cons)
  next
    case False
    with Cons show ?thesis by (simp add: nibble_simps)
  qed
qed simp

lemma set_escape: "x \<in> set (escape cs) \<Longrightarrow> x = ch_percent \<or> isUnreserved x"
  by (induction cs) (auto simp: isUnreserved_toHexChar split: if_splits)

lemma escape_neq_Nil: "cs \<noteq> [] \<Longrightarrow> escape cs \<noteq> []"
  by (cases cs) auto

lemma printHex_Cons:
  "printHex u (b # v) = toHexChar u (unat b div 16) # toHexChar u (unat b mod 16) # printHex u v"
  by (simp add: printHex_def)

lemma fromHex_printHex: "fromHex (printHex u v) = Some v"
  by (induction v) (simp_all add: printHex_Cons nibble_simps, simp add: printHex_def)

lemma set_printHex: "x \<in> set (printHex u v) \<Longrightarrow> isUnreserved x"
  by (auto simp: printHex_def isUnreserved_toHexChar)

section \<open>Decimal round trip\<close>

lemma isDigit_word: "n < 10 \<Longrightarrow> isDigit (word_of_nat (48 + n))"
  "n < 10 \<Longrightarrow> unat (word_of_nat (48 + n) :: byte) - 48 = n"
  by (simp_all add: isDigit_def word_le_nat_alt unat_byte_of_nat del: of_nat_add)

lemma dec_small: "n < 10 \<Longrightarrow> dec n = [word_of_nat (48 + n)]"
  by (subst dec.simps) simp

lemma dec_big: "\<not> n < 10 \<Longrightarrow> dec n = dec (n div 10) @ [word_of_nat (48 + n mod 10)]"
  by (subst dec.simps) simp

lemma dec_digits: "x \<in> set (dec n) \<Longrightarrow> isDigit x"
proof (induction n rule: dec.induct)
  case (1 n)
  then show ?case
    by (cases "n < 10")
      (auto simp: dec_small dec_big isDigit_word simp del: of_nat_add of_nat_numeral)
qed

lemma foldl_dec: "foldl (\<lambda>n c. 10 * n + (unat c - 48)) 0 (dec n) = n"
proof (induction n rule: dec.induct)
  case (1 n)
  then show ?case
    by (cases "n < 10")
      (simp_all add: dec_small dec_big isDigit_word del: of_nat_add of_nat_numeral)
qed

lemma undec_dec: "undec (dec n) = n"
proof -
  have "takeWhile isDigit (dec n) = dec n" unfolding takeWhile_eq_all_conv using dec_digits by blast
  then show ?thesis by (simp only: undec_def foldl_dec)
qed

lemma isDigit_unreserved: "isDigit x \<Longrightarrow> isUnreserved x"
  by (simp add: isDigit_def isUnreserved_def)

lemma dec_neq_Nil [simp]: "dec n \<noteq> []"
  by (cases "n < 10") (simp_all add: dec_small dec_big)

section \<open>Components round trip\<close>

lemma ascii_prefixes:
  "ascii ''sha256digest'' = [115, 104, 97, 50, 53, 54, 100, 105, 103, 101, 115, 116]"
  "ascii ''params-sha256'' = [112, 97, 114, 97, 109, 115, 45, 115, 104, 97, 50, 53, 54]"
  "ascii ''seg'' = [115, 101, 103]" "ascii ''off'' = [111, 102, 102]" "ascii ''v'' = [118]"
  "ascii ''t'' = [116]" "ascii ''seq'' = [115, 101, 113]"
  by (simp_all add: ascii_def)

text \<open>The component types with an alternate prefix.\<close>

lemma ct_get_cases:
  obtains (sha) p where "ct_get t = CtSha p" "t = 1 \<or> t = 2" "findByUriPrefix p = Some (t, CtSha p)"
      "undec p = 0" "list_all isUnreserved p"
  | (generic) "ct_get t = CtGeneric" "t = 8"
  | (decimal) p where "ct_get t = CtDecimal p" "33 \<le> t \<and> t \<le> 37" "findByUriPrefix p = Some (t, CtDecimal p)"
      "undec p = 0" "list_all isUnreserved p"
  | (base) "ct_get t = CtBase"
proof -
  have "ct_get t = CtBase \<or> t \<in> {1, 2, 8, 33, 34, 35, 36, 37}"
    by (auto simp: ct_get_def componentTypeTable_def)
  then show thesis
    using sha generic decimal base
    by (auto simp: ct_get_def componentTypeTable_def ascii_prefixes findByUriPrefix_def ct_prefix_def
        undec_def isDigit_def isUnreserved_def)
qed

lemma writeUriEscapedValue_neq_Nil: "writeUriEscapedValue c \<noteq> []"
  by (cases "cvalue c = []") (auto simp: writeUriEscapedValue_def escape_neq_Nil)

lemma set_writeUriEscapedValue:
  "x \<in> set (writeUriEscapedValue c) \<Longrightarrow> x = ch_percent \<or> isUnreserved x"
  by (auto simp: writeUriEscapedValue_def dest: set_escape split: if_splits)

lemma all_period_append_take:
  assumes "list_all (\<lambda>x. x = p) v"
  shows "take (length v) ([p, p, p] @ v) = v"
proof -
  have "v = replicate (length v) p" using assms by (auto simp: list_all_iff intro: replicate_eqI)
  moreover have "take (length v) ([p, p, p] @ v) = replicate (length v) p"
    using assms by (intro replicate_eqI) (auto simp: list_all_iff dest!: in_set_takeD)
  ultimately show ?thesis by simp
qed

lemma parseUriEscapedValue_write:
  "parseUriEscapedValue t (writeUriEscapedValue c) = ensureValid (Component t (cvalue c))"
proof (cases "list_all (\<lambda>x. x = ch_period) (cvalue c)")
  case True
  have "unescape (writeUriEscapedValue c) = [ch_period, ch_period, ch_period] @ cvalue c"
    using True by (simp add: writeUriEscapedValue_def unescape_Cons unescape_escape)
  with True all_period_append_take [OF True] show ?thesis
    by (simp add: parseUriEscapedValue_def Let_def)
next
  case False
  then show ?thesis
    by (simp add: parseUriEscapedValue_def Let_def writeUriEscapedValue_def unescape_escape)
qed

text \<open>A component the text form preserves: valid, and minimal if its type is a decimal one.\<close>

definition uri_canonical :: "bool \<Rightarrow> component \<Rightarrow> bool" where
  "uri_canonical alt c \<longleftrightarrow>
     valid_component c \<and>
     (alt \<longrightarrow> 33 \<le> ctype c \<longrightarrow> ctype c \<le> 37 \<longrightarrow> isNumber c \<longrightarrow>
        cvalue c = writeNonNegativeInteger (be_nat (cvalue c)))"

lemma be_nat_number: "isNumber c \<Longrightarrow> be_nat (cvalue c) < 2 ^ 64"
proof -
  assume n: "isNumber c"
  have "be_nat (cvalue c) < 256 ^ length (cvalue c)" by (rule be_nat_bound)
  moreover have "(256 :: nat) ^ length (cvalue c) \<le> 256 ^ 8"
    using n by (intro power_increasing) (auto simp: isNumber_def)
  ultimately show ?thesis by simp
qed

lemma toNumber_be_nat: "isNumber c \<Longrightarrow> toNumber c = Inr (be_nat (cvalue c))"
  using be_nat_number [of c]
  by (auto simp: toNumber_def isNumber_def readNonNegativeInteger_def readNumberFast_correct
      unat_of_nat)

lemma fromEscapedString_split:
  assumes "ch_equal \<notin> set p"
  shows "fromEscapedString (p @ ch_equal # r) =
    (if 1 \<le> undec p \<and> undec p \<le> 65535 \<and> dec (undec p) = p then parseUriEscapedValue (undec p) r
     else case findByUriPrefix p of
            None \<Rightarrow> Inl (UnknownType p) | Some ct \<Rightarrow> parseAltUriValue ct r)"
proof -
  have "takeWhile (\<lambda>x. x \<noteq> ch_equal) (p @ ch_equal # r) = p"
    "dropWhile (\<lambda>x. x \<noteq> ch_equal) (p @ ch_equal # r) = ch_equal # r"
    using assms by (simp_all add: takeWhile_append dropWhile_append)
  then show ?thesis by (simp add: fromEscapedString_def Let_def)
qed

lemma valid_componentD: "valid_component c \<Longrightarrow> ensureValid c = Inr c \<and> 1 \<le> ctype c \<and> ctype c \<le> 65535"
  using valid_component_iff [of c] by (simp add: valid_component_def)

lemma unreserved_no_equal: "list_all isUnreserved p \<Longrightarrow> ch_equal \<notin> set p"
  by (auto simp: list_all_iff)

lemma dec_unreserved: "list_all isUnreserved (dec n)"
  using dec_digits isDigit_unreserved by (auto simp: list_all_iff)

lemma fromEscapedString_base: "valid_component c \<Longrightarrow> fromEscapedString (base_writeUri c) = Inr c"
  using valid_componentD [of c] fromEscapedString_split [OF unreserved_no_equal [OF dec_unreserved]]
  by (simp add: base_writeUri_def undec_dec parseUriEscapedValue_write)

lemma fromEscapedString_toUri:
  assumes "uri_canonical alt c"
  shows "fromEscapedString (Component_toUri alt c) = Inr c"
proof (cases alt)
  case True
  have v: "valid_component c" using assms by (simp add: uri_canonical_def)
  note vD = valid_componentD [OF v]
  show ?thesis
  proof (cases rule: ct_get_cases [of "ctype c"])
    case (sha p)
    then show ?thesis
      using True vD fromEscapedString_split [OF unreserved_no_equal, of p]
      by (simp add: Component_toUri_def sha_writeUri_def parseAltUriValue_def fromHex_printHex)
  next
    case generic
    have "ch_equal \<notin> set (writeUriEscapedValue c)" using set_writeUriEscapedValue by fastforce
    moreover have "ensureValid (Component 8 (cvalue c)) = Inr c" using vD generic by (cases c) auto
    ultimately show ?thesis using True generic
      by (simp add: Component_toUri_def fromEscapedString_def parseUriEscapedValue_write)
  next
    case (decimal p)
    show ?thesis
    proof (cases "isNumber c")
      case num: True
      have "be_nat (cvalue c) < 2 ^ 64" by (rule be_nat_number [OF num])
      moreover have "fromNumber (be_nat (cvalue c)) (ctype c) = c"
        using assms True num decimal by (cases c) (auto simp: uri_canonical_def fromNumber_def)
      ultimately show ?thesis
        using True vD num decimal fromEscapedString_split [OF unreserved_no_equal, of p]
        by (simp add: Component_toUri_def decimal_writeUri_def toNumber_be_nat parseAltUriValue_def
            undec_dec)
    next
      case False
      then show ?thesis using True decimal fromEscapedString_base [OF v]
        by (simp add: Component_toUri_def decimal_writeUri_def)
    qed
  next
    case base
    then show ?thesis using True fromEscapedString_base [OF v] by (simp add: Component_toUri_def)
  qed
next
  case False
  then show ?thesis using assms fromEscapedString_base
    by (simp add: Component_toUri_def uri_canonical_def)
qed

section \<open>Names round trip\<close>

lemma set_Component_toUri:
  assumes "x \<in> set (Component_toUri alt c)"
  shows "x = ch_percent \<or> x = ch_equal \<or> isUnreserved x"
proof -
  have base: "x = ch_percent \<or> x = ch_equal \<or> isUnreserved x" if "x \<in> set (base_writeUri c)"
    using that dec_unreserved [of "ctype c"]
    by (auto simp: base_writeUri_def list_all_iff dest: set_writeUriEscapedValue)
  show ?thesis
    using assms dec_unreserved set_printHex set_writeUriEscapedValue base
    by (cases rule: ct_get_cases [of "ctype c"])
      (fastforce simp: Component_toUri_def sha_writeUri_def decimal_writeUri_def list_all_iff
        split: if_splits sum.splits)+
qed

lemma Component_toUri_chars:
  "ch_slash \<notin> set (Component_toUri alt c)" "ch_colon \<notin> set (Component_toUri alt c)"
  using set_Component_toUri [of _ alt c] isUnreserved_simps by fastforce+

lemma Component_toUri_neq_Nil: "Component_toUri alt c \<noteq> []"
  by (cases rule: ct_get_cases [of "ctype c"])
    (auto simp: Component_toUri_def sha_writeUri_def decimal_writeUri_def base_writeUri_def
      writeUriEscapedValue_neq_Nil toNumber_be_nat)

text \<open>The text of a name without its leading slash.\<close>

fun uri_tail :: "bool \<Rightarrow> name \<Rightarrow> bytes" where
  "uri_tail alt [] = []"
| "uri_tail alt [c] = Component_toUri alt c"
| "uri_tail alt (c # d # n) = Component_toUri alt c @ ch_slash # uri_tail alt (d # n)"

lemma Name_toUri_tail: "Name_toUri alt n = ch_slash # uri_tail alt n"
  unfolding Name_toUri_def by (induction alt n rule: uri_tail.induct) auto

lemma uri_components_tail:
  "list_all (uri_canonical alt) n \<Longrightarrow> uri_components (uri_tail alt n) = Inr n"
proof (induction alt n rule: uri_tail.induct)
  case (1 alt)
  show ?case by (simp add: uri_components.simps)
next
  case (2 alt c)
  have tw: "takeWhile (\<lambda>x. x \<noteq> ch_slash) (Component_toUri alt c) = Component_toUri alt c"
    "dropWhile (\<lambda>x. x \<noteq> ch_slash) (Component_toUri alt c) = []"
    using Component_toUri_chars [of alt c] by (auto simp: takeWhile_eq_all_conv)
  have "fromEscapedString (Component_toUri alt c) = Inr c"
    using 2 by (simp add: fromEscapedString_toUri)
  then show ?case
    unfolding uri_tail.simps uri_components.simps [of "Component_toUri alt c"] tw
    by (simp add: Component_toUri_neq_Nil uri_components.simps [of "[]"])
next
  case (3 alt c d n)
  have "takeWhile (\<lambda>x. x \<noteq> ch_slash) (Component_toUri alt c @ ch_slash # r) = Component_toUri alt c"
    "dropWhile (\<lambda>x. x \<noteq> ch_slash) (Component_toUri alt c @ ch_slash # r) = ch_slash # r" for r
    using Component_toUri_chars [of alt c] by (simp_all add: takeWhile_append dropWhile_append)
  with 3 show ?case
    by (subst uri_components.simps) (simp add: Component_toUri_neq_Nil fromEscapedString_toUri)
qed

lemma uri_tail_chars: "ch_colon \<notin> set (uri_tail alt n)" "uri_tail alt n \<noteq> [] \<Longrightarrow> hd (uri_tail alt n) \<noteq> ch_slash"
proof -
  show "ch_colon \<notin> set (uri_tail alt n)"
    by (induction alt n rule: uri_tail.induct) (auto simp: Component_toUri_chars)
  have "hd (Component_toUri alt c @ r) \<noteq> ch_slash" for c r
    using Component_toUri_chars(1) [of alt c] Component_toUri_neq_Nil [of alt c]
    by (metis hd_append2 hd_in_set)
  from this [of _ "[]"] this show "uri_tail alt n \<noteq> [] \<Longrightarrow> hd (uri_tail alt n) \<noteq> ch_slash"
    by (cases "(alt, n)" rule: uri_tail.cases) auto
qed

lemma str_find_None: "c \<notin> set s \<Longrightarrow> str_find c 0 s = None"
proof -
  assume "c \<notin> set s"
  then have "takeWhile (\<lambda>x. x \<noteq> c) s = s" unfolding takeWhile_eq_all_conv by blast
  then show ?thesis by (simp only: str_find_def Let_def drop_0) simp
qed

lemma Name_fromUri_slash:
  assumes "ch_colon \<notin> set s" and "s \<noteq> [] \<Longrightarrow> hd s \<noteq> ch_slash"
  shows "Name_fromUri (ch_slash # s) = uri_components s"
  using assms by (cases s) (simp_all add: Name_fromUri_def str_find_None)

lemma Name_fromUri_toUri:
  "list_all (uri_canonical alt) n \<Longrightarrow> Name_fromUri (Name_toUri alt n) = Inr n"
  using Name_fromUri_slash [OF uri_tail_chars] uri_components_tail by (simp add: Name_toUri_tail)

text \<open>Only the empty name prints as a single slash.\<close>

lemma Name_toUri_slash_iff: "Name_toUri alt n = [ch_slash] \<longleftrightarrow> n = []"
  unfolding Name_toUri_tail
  by (cases "(alt, n)" rule: uri_tail.cases) (auto simp: Component_toUri_neq_Nil)

section \<open>Properties\<close>

text \<open>
  C10: Parsing the URI of a name gives the name back, in the canonical and in the alternate format,
  for every name of valid components; in the alternate format numbers in segment, byte offset,
  version, timestamp and sequence number components must use the shortest encoding.
\<close>

theorem Name_uri_roundtrip:
  assumes "list_all (uri_canonical alt) n"
  shows "Name_fromUri (Name_toUri alt n) = Inr n"
  using assms by (rule Name_fromUri_toUri)

theorem Name_uri_roundtrip_witness:
  "list_all (uri_canonical True) [Component 8 [47], Component 8 [], Component 33 [5]] \<and>
   Name_fromUri (Name_toUri True [Component 8 [47], Component 8 [], Component 33 [5]]) =
     Inr [Component 8 [47], Component 8 [], Component 33 [5]]"
proof -
  have "list_all (uri_canonical True) [Component 8 [47], Component 8 [], Component 33 [5]]"
    by (simp add: uri_canonical_def valid_component_iff be_nat_Cons writeNonNegativeInteger_def)
  with Name_uri_roundtrip [of True] show ?thesis by blast
qed

end
