(* ===== verification/Packets.thy ===== *)
theory Packets
  imports NameUri
begin

text \<open>
  Interest and Data packets (\<^verbatim>\<open>interest.cpp\<close>, \<^verbatim>\<open>interest.hpp\<close>, \<^verbatim>\<open>data.cpp\<close>, \<^verbatim>\<open>data.hpp\<close>) with the
  function name the fork adds to both. A cached wire encoding is its octets, empty when there is
  none. SHA-256 is computed by a third-party library: it is the parameter \<open>sha\<close>. Times are
  \<^verbatim>\<open>time::milliseconds\<close>. The lemmas characterise matching, the lookup name \<^verbatim>\<open>getNameFunction\<close>,
  \<^verbatim>\<open>removeHeadFunction\<close> and the parameters digest.
\<close>

type_synonym nonce = bytes

record interest =
  i_name :: name
  i_function :: name
  i_forwardingHint :: "(nat \<times> name) list"
  i_nonce :: "nonce option"
  i_interestLifetime :: int
  i_hopLimit :: "byte option"
  i_canBePrefix :: bool
  i_mustBeFresh :: bool
  i_parameters :: "block list"
  i_wire :: bytes
  i_incomingFaceId :: "nat option"
  i_nextHopFaceId :: "nat option"
  i_pitToken :: "bytes option"

record data =
  d_name :: name
  d_function :: name
  d_freshnessPeriod :: int
  d_content :: "bytes option"
  d_wire :: bytes
  d_fullName :: name
  d_incomingFaceId :: "nat option"
  d_pitToken :: "bytes option"
  d_noCache :: bool

datatype packet_error =
    NoWireEncoding
  | TooManyParametersDigests
  | NegativeLifetime
  | BadFunctionUri comp_error
  | AssertionFailed

abbreviation (input) tlv_ApplicationParameters :: nat where "tlv_ApplicationParameters \<equiv> 36"

definition DEFAULT_INTEREST_LIFETIME :: int where
  "DEFAULT_INTEREST_LIFETIME = 4000"

section \<open>Functions\<close>

text \<open>\<^verbatim>\<open>hasFunction\<close> of Interest and of Data: the printed function is not a single slash.\<close>

definition hasFunction :: "name \<Rightarrow> bool" where
  "hasFunction f \<longleftrightarrow> Name_toUri True f \<noteq> [ch_slash]"

definition nameFunction :: "name \<Rightarrow> name \<Rightarrow> name" where
  "nameFunction n f =
     (let isEndWithDigest = length n > 0 \<and> isImplicitSha256Digest (last n);
          nteName = (if isEndWithDigest then getPrefix (-1) n else n)
      in if hasFunction f then fold Name_append1 f nteName else nteName)"

definition Interest_getNameFunction :: "interest \<Rightarrow> name" where
  "Interest_getNameFunction i = nameFunction (i_name i) (i_function i)"

definition Data_getNameFunction :: "data \<Rightarrow> name" where
  "Data_getNameFunction d = nameFunction (d_name d) (d_function d)"

definition Interest_setFunction :: "name \<Rightarrow> interest \<Rightarrow> interest" where
  "Interest_setFunction f i = i\<lparr>i_function := f, i_wire := []\<rparr>"

text \<open>\<^verbatim>\<open>str.erase(pos, len)\<close>.\<close>

definition str_erase :: "nat \<Rightarrow> nat \<Rightarrow> bytes \<Rightarrow> bytes" where
  "str_erase pos len s = take pos s @ drop (pos + len) s"

definition removeHeadFunction :: "bool \<Rightarrow> interest \<Rightarrow> packet_error + interest" where
  "removeHeadFunction alt i =
     (let str = Name_toUri alt (i_function i);
          str = (if hasFunction (i_function i) then
                   (case str_find ch_slash 1 str of
                      Some found \<Rightarrow> str_erase 1 found str
                    | None \<Rightarrow> str_erase 1 (length str - 1) str)
                 else str)
      in case Name_fromUri str of
           Inl e \<Rightarrow> Inl (BadFunctionUri e)
         | Inr f \<Rightarrow> Inr (Interest_setFunction f i))"

section \<open>Full name and matching\<close>

text \<open>\<^verbatim>\<open>getFullName\<close> computes the full name on first use and keeps it in the object.\<close>

definition getFullName :: "(bytes \<Rightarrow> bytes) \<Rightarrow> data \<Rightarrow> packet_error + (name \<times> data)" where
  "getFullName sha d =
     (if d_fullName d = [] then
        if d_wire d = [] then Inl NoWireEncoding
        else let full = d_name d @ [Component tlv_ImplicitSha256DigestComponent (sha (d_wire d))]
             in Inr (full, d\<lparr>d_fullName := full\<rparr>)
      else Inr (d_fullName d, d))"

definition matchesData :: "(bytes \<Rightarrow> bytes) \<Rightarrow> interest \<Rightarrow> data \<Rightarrow> packet_error + bool" where
  "matchesData sha i d =
     (let interestNameLength = length (i_name i);
          fullNameLength = length (d_name d) + 1;
          nameOk =
            (if interestNameLength = fullNameLength then
               if isImplicitSha256Digest (last (i_name i)) then
                 (case getFullName sha d of
                    Inl e \<Rightarrow> Inl e
                  | Inr (full, _) \<Rightarrow> Inr (i_name i = full))
               else Inr False
             else if i_canBePrefix i then Inr (isPrefixOf (i_name i) (d_name d))
             else Inr (i_name i = d_name d))
      in case nameOk of
           Inl e \<Rightarrow> Inl e
         | Inr False \<Rightarrow> Inr False
         | Inr True \<Rightarrow> if i_mustBeFresh i \<and> d_freshnessPeriod d \<le> 0 then Inr False else Inr True)"

definition matchesDataWFunction :: "(bytes \<Rightarrow> bytes) \<Rightarrow> interest \<Rightarrow> data \<Rightarrow> packet_error + bool" where
  "matchesDataWFunction sha i d =
     (if hasFunction (i_function i) \<noteq> hasFunction (d_function d) then Inr False
      else if \<not> hasFunction (i_function i) \<or> i_function i = d_function d then matchesData sha i d
      else Inr False)"

definition matchesInterest :: "interest \<Rightarrow> interest \<Rightarrow> bool" where
  "matchesInterest i other \<longleftrightarrow>
     i_name i = i_name other \<and> i_canBePrefix i = i_canBePrefix other \<and>
     i_mustBeFresh i = i_mustBeFresh other"

definition matchesInterestWFunction :: "interest \<Rightarrow> interest \<Rightarrow> bool" where
  "matchesInterestWFunction i other \<longleftrightarrow>
     (if hasFunction (i_function i) \<noteq> hasFunction (i_function other) then False
      else if i_function i = i_function other then matchesInterest i other
      else False)"

section \<open>Parameters digest\<close>

text \<open>The loop of \<^verbatim>\<open>findParametersDigestComponent\<close> at index \<open>k\<close> with the position found so far.\<close>

fun find_digest_loop :: "int \<Rightarrow> int \<Rightarrow> name \<Rightarrow> int" where
  "find_digest_loop k pos [] = pos"
| "find_digest_loop k pos (c # cs) =
     (if isParametersSha256Digest c then
        if pos \<noteq> -1 then -2 else find_digest_loop (k + 1) k cs
      else find_digest_loop (k + 1) pos cs)"

definition findParametersDigestComponent :: "name \<Rightarrow> int" where
  "findParametersDigestComponent n = find_digest_loop 0 (-1) n"

definition hasApplicationParameters :: "interest \<Rightarrow> bool" where
  "hasApplicationParameters i \<longleftrightarrow> i_parameters i \<noteq> []"

definition computeParametersDigest :: "(bytes \<Rightarrow> bytes) \<Rightarrow> interest \<Rightarrow> bytes" where
  "computeParametersDigest sha i = sha (concat (map Block_encode (i_parameters i)))"

definition isParametersDigestValid :: "(bytes \<Rightarrow> bytes) \<Rightarrow> interest \<Rightarrow> packet_error + bool" where
  "isParametersDigestValid sha i =
     (let digestIndex = findParametersDigestComponent (i_name i) in
      if digestIndex = -1 then Inr (\<not> hasApplicationParameters i)
      else if digestIndex < 0 then Inl AssertionFailed
      else if \<not> hasApplicationParameters i then Inr False
      else Inr (cvalue (i_name i ! nat digestIndex) = computeParametersDigest sha i))"

definition addOrReplaceParametersDigestComponent ::
  "(bytes \<Rightarrow> bytes) \<Rightarrow> interest \<Rightarrow> packet_error + interest" where
  "addOrReplaceParametersDigestComponent sha i =
     (if \<not> hasApplicationParameters i then Inl AssertionFailed
      else
        let digestIndex = findParametersDigestComponent (i_name i);
            digestComponent =
              Component tlv_ParametersSha256DigestComponent (computeParametersDigest sha i)
        in if digestIndex = -1 then Inr (i\<lparr>i_name := Name_append1 digestComponent (i_name i)\<rparr>)
           else case Name_set digestIndex digestComponent (i_name i) of
                  None \<Rightarrow> Inl AssertionFailed
                | Some n \<Rightarrow> if digestIndex < 0 then Inl AssertionFailed else Inr (i\<lparr>i_name := n\<rparr>))"

section \<open>Setters\<close>

definition Interest_setName :: "(bytes \<Rightarrow> bytes) \<Rightarrow> name \<Rightarrow> interest \<Rightarrow> packet_error + interest" where
  "Interest_setName sha n i =
     (if findParametersDigestComponent n = -2 then Inl TooManyParametersDigests
      else if n \<noteq> i_name i then
        (let i = i\<lparr>i_name := n\<rparr> in
         case (if hasApplicationParameters i then addOrReplaceParametersDigestComponent sha i
               else Inr i) of
           Inl e \<Rightarrow> Inl e
         | Inr i \<Rightarrow> Inr (i\<lparr>i_wire := []\<rparr>))
      else Inr i)"

definition setForwardingHint :: "(nat \<times> name) list \<Rightarrow> interest \<Rightarrow> interest" where
  "setForwardingHint value i = i\<lparr>i_forwardingHint := value, i_wire := []\<rparr>"

text \<open>\<^verbatim>\<open>getNonce\<close>; \<open>r\<close> is the nonce the random generator would return.\<close>

definition getNonce :: "nonce \<Rightarrow> interest \<Rightarrow> nonce \<times> interest" where
  "getNonce r i =
     (case i_nonce i of
        None \<Rightarrow> (r, i\<lparr>i_nonce := Some r, i_wire := []\<rparr>)
      | Some n \<Rightarrow> (n, i))"

definition setNonce :: "nonce option \<Rightarrow> interest \<Rightarrow> interest" where
  "setNonce n i = (if n \<noteq> i_nonce i then i\<lparr>i_nonce := n, i_wire := []\<rparr> else i)"

text \<open>
  \<^verbatim>\<open>refreshNonce\<close> draws nonces \<open>rs\<close> until one differs from the old nonce; \<^term>\<open>None\<close> if the
  supply ends before that.
\<close>

definition refreshNonce :: "nonce list \<Rightarrow> interest \<Rightarrow> interest option" where
  "refreshNonce rs i =
     (case i_nonce i of
        None \<Rightarrow> Some i
      | Some oldNonce \<Rightarrow>
          (case dropWhile (\<lambda>r. r = oldNonce) rs of
             [] \<Rightarrow> None
           | r # _ \<Rightarrow> Some (i\<lparr>i_nonce := Some r, i_wire := []\<rparr>)))"

definition setInterestLifetime :: "int \<Rightarrow> interest \<Rightarrow> packet_error + interest" where
  "setInterestLifetime lifetime i =
     (if lifetime < 0 then Inl NegativeLifetime
      else if lifetime \<noteq> i_interestLifetime i then
        Inr (i\<lparr>i_interestLifetime := lifetime, i_wire := []\<rparr>)
      else Inr i)"

definition setHopLimit :: "byte option \<Rightarrow> interest \<Rightarrow> interest" where
  "setHopLimit h i = (if h \<noteq> i_hopLimit i then i\<lparr>i_hopLimit := h, i_wire := []\<rparr> else i)"

definition setCanBePrefix :: "bool \<Rightarrow> interest \<Rightarrow> interest" where
  "setCanBePrefix b i = i\<lparr>i_canBePrefix := b, i_wire := []\<rparr>"

definition setApplicationParametersInternal :: "block \<Rightarrow> interest \<Rightarrow> interest" where
  "setApplicationParametersInternal b i =
     (if i_parameters i = [] then i\<lparr>i_parameters := [b]\<rparr>
      else i\<lparr>i_parameters := (i_parameters i)[0 := b]\<rparr>)"

text \<open>\<^verbatim>\<open>setApplicationParameters(const Block&)\<close> with a valid block.\<close>

definition setApplicationParameters ::
  "(bytes \<Rightarrow> bytes) \<Rightarrow> block \<Rightarrow> interest \<Rightarrow> packet_error + interest" where
  "setApplicationParameters sha b i =
     (let b' = (if btype b = tlv_ApplicationParameters then b
                else Block tlv_ApplicationParameters (Block_encode b))
      in case addOrReplaceParametersDigestComponent sha (setApplicationParametersInternal b' i) of
           Inl e \<Rightarrow> Inl e
         | Inr i \<Rightarrow> Inr (i\<lparr>i_wire := []\<rparr>))"

definition unsetApplicationParameters :: "interest \<Rightarrow> interest" where
  "unsetApplicationParameters i =
     (let i = i\<lparr>i_parameters := []\<rparr>;
          digestIndex = findParametersDigestComponent (i_name i);
          n = (if digestIndex \<ge> 0
               then (case Name_erase digestIndex (i_name i) of None \<Rightarrow> i_name i | Some n \<Rightarrow> n)
               else i_name i)
      in i\<lparr>i_name := n, i_wire := []\<rparr>)"

text \<open>The constructors, and the \<^verbatim>\<open>Data\<close> setters; \<^verbatim>\<open>setFunction\<close> does not go through \<^verbatim>\<open>resetWire\<close>.\<close>

definition Interest_new :: "(bytes \<Rightarrow> bytes) \<Rightarrow> name \<Rightarrow> int \<Rightarrow> packet_error + interest" where
  "Interest_new sha n lifetime =
     (case Interest_setName sha n
             \<lparr>i_name = [], i_function = [], i_forwardingHint = [], i_nonce = None,
              i_interestLifetime = 0, i_hopLimit = None, i_canBePrefix = False,
              i_mustBeFresh = False, i_parameters = [], i_wire = [], i_incomingFaceId = None,
              i_nextHopFaceId = None, i_pitToken = None\<rparr> of
        Inl e \<Rightarrow> Inl e
      | Inr i \<Rightarrow> setInterestLifetime lifetime i)"

definition Data_new :: "name \<Rightarrow> data" where
  "Data_new n =
     \<lparr>d_name = n, d_function = [], d_freshnessPeriod = 0, d_content = None, d_wire = [],
      d_fullName = [], d_incomingFaceId = None, d_pitToken = None, d_noCache = False\<rparr>"

definition Data_resetWire :: "data \<Rightarrow> data" where
  "Data_resetWire d = d\<lparr>d_wire := [], d_fullName := []\<rparr>"

definition Data_setName :: "name \<Rightarrow> data \<Rightarrow> data" where
  "Data_setName n d = (if n \<noteq> d_name d then Data_resetWire (d\<lparr>d_name := n\<rparr>) else d)"

definition Data_setFunction :: "name \<Rightarrow> data \<Rightarrow> data" where
  "Data_setFunction f d = d\<lparr>d_function := f, d_wire := []\<rparr>"

definition Data_setContent :: "bytes \<Rightarrow> data \<Rightarrow> data" where
  "Data_setContent c d = Data_resetWire (d\<lparr>d_content := Some c\<rparr>)"

definition Data_setContent2 :: "bytes \<Rightarrow> data \<Rightarrow> data" where
  "Data_setContent2 c d = d\<lparr>d_wire := [], d_content := Some c\<rparr>"

definition Data_unsetContent :: "data \<Rightarrow> data" where
  "Data_unsetContent d = Data_resetWire (d\<lparr>d_content := None\<rparr>)"

section \<open>The lookup name\<close>

lemma hasFunction_iff: "hasFunction f \<longleftrightarrow> f \<noteq> []"
  by (simp add: hasFunction_def Name_toUri_slash_iff)

text \<open>The text form decides the same whatever the environment selects.\<close>

lemma hasFunction_any_format: "hasFunction f \<longleftrightarrow> Name_toUri alt f \<noteq> [ch_slash]"
  by (simp add: hasFunction_iff Name_toUri_slash_iff)

definition strip_digest :: "name \<Rightarrow> name" where
  "strip_digest n = (if n \<noteq> [] \<and> isImplicitSha256Digest (last n) then butlast n else n)"

lemma fold_Name_append1: "fold Name_append1 f n = n @ f"
  by (induction f arbitrary: n) (simp_all add: Name_append1_def)

lemma nameFunction_eq: "length n < 2 ^ 64 \<Longrightarrow> nameFunction n f = strip_digest n @ f"
  by (auto simp: nameFunction_def hasFunction_iff Let_def fold_Name_append1 strip_digest_def
      getPrefix_minus_one)

lemma nameFunction_no_digest: "\<not> isImplicitSha256Digest (last n) \<or> n = [] \<Longrightarrow> nameFunction n f = n @ f"
  by (auto simp: nameFunction_def hasFunction_iff Let_def fold_Name_append1)

section \<open>Removing the head function\<close>

lemma str_find_after:
  "c \<notin> set xs \<Longrightarrow> str_find c (length ps) (ps @ xs @ c # ys) = Some (length ps + length xs)"
  by (simp add: str_find_def Let_def takeWhile_append)

lemma str_find_after_None: "c \<notin> set xs \<Longrightarrow> str_find c (length ps) (ps @ xs) = None"
proof -
  assume "c \<notin> set xs"
  then have "takeWhile (\<lambda>x. x \<noteq> c) xs = xs" unfolding takeWhile_eq_all_conv by blast
  then have "takeWhile (\<lambda>x. x \<noteq> c) (drop (length ps) (ps @ xs)) = xs" by (simp only: drop_append) simp
  then show ?thesis unfolding str_find_def Let_def by (simp only:) simp
qed

text \<open>Erasing the first component from the text of a name gives the text of the rest.\<close>

lemma erase_head_uri:
  "(case str_find ch_slash 1 (Name_toUri alt (c # f)) of
      Some found \<Rightarrow> str_erase 1 found (Name_toUri alt (c # f))
    | None \<Rightarrow> str_erase 1 (length (Name_toUri alt (c # f)) - 1) (Name_toUri alt (c # f))) =
   Name_toUri alt f"
proof (cases f)
  case Nil
  have "str_find ch_slash 1 (ch_slash # Component_toUri alt c) = None"
    using str_find_after_None [OF Component_toUri_chars(1), of "[ch_slash]"] by simp
  with Nil show ?thesis by (simp add: Name_toUri_tail str_erase_def)
next
  case (Cons d f')
  have "str_find ch_slash 1 (ch_slash # Component_toUri alt c @ ch_slash # uri_tail alt (d # f')) =
      Some (1 + length (Component_toUri alt c))"
    using str_find_after [OF Component_toUri_chars(1), of "[ch_slash]"] by simp
  with Cons show ?thesis by (simp add: Name_toUri_tail str_erase_def)
qed

lemma removeHeadFunction_eq:
  assumes "list_all (uri_canonical alt) (i_function i)"
  shows "removeHeadFunction alt i = Inr (Interest_setFunction (tl (i_function i)) i)"
proof (cases "i_function i")
  case Nil
  then show ?thesis
    using Name_fromUri_toUri [of alt "[]"] by (simp add: removeHeadFunction_def hasFunction_iff)
next
  case (Cons c f)
  with assms have "Name_fromUri (Name_toUri alt f) = Inr f" by (simp add: Name_fromUri_toUri)
  then show ?thesis
    by (simp add: removeHeadFunction_def hasFunction_iff Cons erase_head_uri Let_def del: One_nat_def)
qed

section \<open>Matching\<close>

text \<open>A Data packet whose cached full name, if any, is the digest of its current wire encoding.\<close>

definition fullName_ok :: "(bytes \<Rightarrow> bytes) \<Rightarrow> data \<Rightarrow> bool" where
  "fullName_ok sha d \<longleftrightarrow> d_wire d \<noteq> [] \<and>
     d_fullName d \<in> {[], d_name d @ [Component 1 (sha (d_wire d))]}"

lemma getFullName_ok:
  "fullName_ok sha d \<Longrightarrow>
   \<exists>d'. getFullName sha d = Inr (d_name d @ [Component 1 (sha (d_wire d))], d') \<and> fullName_ok sha d'"
  by (auto simp: fullName_ok_def getFullName_def Let_def)

lemma matchesData_iff:
  assumes "fullName_ok sha d" and "length (sha (d_wire d)) = 32"
  shows "matchesData sha i d = Inr
    ((i_name i = d_name d @ [Component 1 (sha (d_wire d))] \<or>
      (if i_canBePrefix i then prefix (i_name i) (d_name d) else i_name i = d_name d)) \<and>
     (i_mustBeFresh i \<longrightarrow> 0 < d_freshnessPeriod d))"
proof -
  obtain d' where "getFullName sha d = Inr (d_name d @ [Component 1 (sha (d_wire d))], d')"
    using getFullName_ok [OF assms(1)] by blast
  moreover have "isImplicitSha256Digest (Component 1 (sha (d_wire d)))"
    using assms(2) by (simp add: isImplicitSha256Digest_def SHA256_DIGEST_SIZE_def)
  ultimately show ?thesis
    by (auto simp: matchesData_def Let_def isPrefixOf_iff not_le dest: prefix_length_le
        split: bool.splits)
qed

section \<open>Parameters digest\<close>

lemma find_digest_loop_found:
  "0 \<le> pos \<Longrightarrow> 0 \<le> k \<Longrightarrow>
   find_digest_loop k pos n = (if list_ex isParametersSha256Digest n then -2 else pos)"
  by (induction n arbitrary: k) auto

lemma find_digest_loop_cases:
  assumes "0 \<le> k"
  obtains (none) "find_digest_loop k (-1) n = -1" "\<not> list_ex isParametersSha256Digest n"
  | (one) a c b where "n = a @ c # b" "isParametersSha256Digest c"
      "\<not> list_ex isParametersSha256Digest a" "\<not> list_ex isParametersSha256Digest b"
      "find_digest_loop k (-1) n = k + int (length a)"
  | (many) "find_digest_loop k (-1) n = -2"
  using assms
proof (induction n arbitrary: k thesis)
  case (Cons c n)
  show ?case
  proof (cases "isParametersSha256Digest c")
    case True
    then show ?thesis
      using Cons.prems(2) [of "[]" c n] Cons.prems(3,4)
      by (cases "list_ex isParametersSha256Digest n") (auto simp: find_digest_loop_found)
  next
    case False
    show ?thesis
    proof (rule Cons.IH [of "k + 1"])
      fix a x b
      assume "n = a @ x # b" "isParametersSha256Digest x" "\<not> list_ex isParametersSha256Digest a"
        "\<not> list_ex isParametersSha256Digest b" "find_digest_loop (k + 1) (-1) n = k + 1 + int (length a)"
      with False show ?thesis by (intro Cons.prems(2) [of "c # a" x b]) auto
    qed (use False Cons.prems in auto)
  qed
qed simp

lemmas findParametersDigest_cases =
  find_digest_loop_cases [of 0, folded findParametersDigestComponent_def, simplified]

lemma find_digest_loop_append:
  "\<not> list_ex isParametersSha256Digest a \<Longrightarrow>
   find_digest_loop k pos (a @ n) = find_digest_loop (k + int (length a)) pos n"
  by (induction a arbitrary: k) (auto simp: algebra_simps)

lemma findParametersDigest_one:
  "isParametersSha256Digest c \<Longrightarrow> \<not> list_ex isParametersSha256Digest a \<Longrightarrow>
   \<not> list_ex isParametersSha256Digest b \<Longrightarrow>
   findParametersDigestComponent (a @ c # b) = int (length a)"
  by (simp add: findParametersDigestComponent_def find_digest_loop_append find_digest_loop_found)

lemma addOrReplace_valid:
  assumes "hasApplicationParameters i" and "findParametersDigestComponent (i_name i) \<noteq> -2"
    and sha: "\<And>v. length (sha v) = 32"
  shows "\<exists>i'. addOrReplaceParametersDigestComponent sha i = Inr i' \<and>
    isParametersDigestValid sha i' = Inr True \<and> i_parameters i' = i_parameters i"
proof -
  let ?c = "Component 2 (computeParametersDigest sha i)"
  have c: "isParametersSha256Digest ?c"
    using sha by (simp add: isParametersSha256Digest_def computeParametersDigest_def SHA256_DIGEST_SIZE_def)
  have valid: "isParametersDigestValid sha (i\<lparr>i_name := a @ ?c # b\<rparr>) = Inr True"
    if "\<not> list_ex isParametersSha256Digest a" "\<not> list_ex isParametersSha256Digest b" for a b
    using findParametersDigest_one [OF c that] assms(1)
    by (simp add: isParametersDigestValid_def hasApplicationParameters_def computeParametersDigest_def)
  show ?thesis
  proof (cases rule: findParametersDigest_cases [of "i_name i"])
    case 1
    then show ?thesis using valid [of "i_name i" "[]"] assms(1)
      by (simp add: addOrReplaceParametersDigestComponent_def Name_append1_def)
  next
    case (2 a x b)
    then show ?thesis using valid [of a b] assms(1)
      by (simp add: addOrReplaceParametersDigestComponent_def Name_set_def)
  next
    case 3
    with assms(2) show ?thesis by simp
  qed
qed

lemma digest_ignores_wire [simp]:
  "isParametersDigestValid sha (i\<lparr>i_wire := w\<rparr>) = isParametersDigestValid sha i"
  "hasApplicationParameters (i\<lparr>i_wire := w\<rparr>) = hasApplicationParameters i"
  by (simp_all add: isParametersDigestValid_def computeParametersDigest_def
      hasApplicationParameters_def Let_def)

lemma setApplicationParameters_valid:
  assumes "findParametersDigestComponent (i_name i) \<noteq> -2" and "\<And>v. length (sha v) = 32"
  shows "\<exists>i'. setApplicationParameters sha b i = Inr i' \<and> isParametersDigestValid sha i' = Inr True \<and>
    hasApplicationParameters i'"
proof -
  let ?b = "if btype b = 36 then b else Block 36 (Block_encode b)"
  let ?j = "setApplicationParametersInternal ?b i"
  have j: "hasApplicationParameters ?j" "i_name ?j = i_name i"
    by (auto simp: setApplicationParametersInternal_def hasApplicationParameters_def)
  obtain i' where "addOrReplaceParametersDigestComponent sha ?j = Inr i'"
      "isParametersDigestValid sha i' = Inr True" "i_parameters i' = i_parameters ?j"
    using addOrReplace_valid [of ?j sha] assms j by auto
  with j(1) show ?thesis
    by (simp add: setApplicationParameters_def Let_def) (simp add: hasApplicationParameters_def)
qed

section \<open>Properties\<close>

text \<open>
  C11: \<^verbatim>\<open>removeHeadFunction\<close> edits the printed function name and parses the result. For functions
  that the text form preserves it removes exactly the first function, leaves an empty chain
  empty, never fails, and drops the cached wire encoding.
\<close>

theorem removeHeadFunction_drops_head:
  assumes "list_all (uri_canonical alt) (i_function i)"
  shows "removeHeadFunction alt i = Inr (i\<lparr>i_function := tl (i_function i), i_wire := []\<rparr>)"
  using removeHeadFunction_eq [OF assms] by (simp add: Interest_setFunction_def)

definition sample_interest :: "name \<Rightarrow> name \<Rightarrow> interest" where
  "sample_interest n f =
     \<lparr>i_name = n, i_function = f, i_forwardingHint = [], i_nonce = Some [1, 2, 3, 4],
      i_interestLifetime = 4000, i_hopLimit = None, i_canBePrefix = False,
      i_mustBeFresh = False, i_parameters = [], i_wire = [], i_incomingFaceId = None,
      i_nextHopFaceId = None, i_pitToken = None\<rparr>"

theorem removeHeadFunction_drops_head_witness:
  "removeHeadFunction True (sample_interest [Component 8 [65]] [Component 8 [70], Component 8 [71]]) =
     Inr (sample_interest [Component 8 [65]] [Component 8 [71]])"
  using removeHeadFunction_drops_head
    [of True "sample_interest [Component 8 [65]] [Component 8 [70], Component 8 [71]]"]
  by (simp add: sample_interest_def uri_canonical_def valid_component_iff)

text \<open>
  C12: Matching with functions: for a Data packet that came off the wire, \<^verbatim>\<open>matchesDataWFunction\<close>
  never throws and accepts exactly when the functions are equal, the Interest name is the full
  name of the Data or (a prefix of, with CanBePrefix) its name, and a MustBeFresh Interest meets
  a positive freshness period.
\<close>

theorem matchesDataWFunction_spec:
  assumes "fullName_ok sha d" and "length (sha (d_wire d)) = 32"
  shows "matchesDataWFunction sha i d = Inr
    (i_function i = d_function d \<and>
     (i_name i = d_name d @ [Component 1 (sha (d_wire d))] \<or>
      (if i_canBePrefix i then isPrefixOf (i_name i) (d_name d) else i_name i = d_name d)) \<and>
     (\<not> i_mustBeFresh i \<or> 0 < d_freshnessPeriod d))"
  using matchesData_iff [OF assms] by (auto simp: matchesDataWFunction_def hasFunction_iff isPrefixOf_iff)

definition sample_data :: "name \<Rightarrow> name \<Rightarrow> data" where
  "sample_data n f =
     \<lparr>d_name = n, d_function = f, d_freshnessPeriod = 1000, d_content = Some [], d_wire = [6, 0],
      d_fullName = [], d_incomingFaceId = None, d_pitToken = None, d_noCache = False\<rparr>"

theorem matchesDataWFunction_spec_witness:
  "matchesDataWFunction (\<lambda>_. replicate 32 0) (sample_interest [Component 8 [65]] [Component 8 [70]])
     (sample_data [Component 8 [65]] [Component 8 [70]]) = Inr True \<and>
   matchesDataWFunction (\<lambda>_. replicate 32 0) (sample_interest [Component 8 [65]] [])
     (sample_data [Component 8 [65]] [Component 8 [70]]) = Inr False"
  using matchesDataWFunction_spec [of "\<lambda>_. replicate 32 0" "sample_data [Component 8 [65]] [Component 8 [70]]"]
  by (simp add: sample_interest_def sample_data_def fullName_ok_def)

text \<open>
  C13: Setting application parameters on an Interest whose name has at most one parameters digest
  always succeeds and leaves the name with a digest component that matches the SHA-256 of the
  parameters.
\<close>

theorem setApplicationParameters_digest:
  assumes "findParametersDigestComponent (i_name i) \<noteq> -2" and "\<And>v. length (sha v) = 32"
  shows "\<exists>i'. setApplicationParameters sha b i = Inr i' \<and> isParametersDigestValid sha i' = Inr True \<and>
    hasApplicationParameters i'"
  using assms by (rule setApplicationParameters_valid)

theorem setApplicationParameters_digest_witness:
  "\<exists>i'. setApplicationParameters (\<lambda>_. replicate 32 7) (Block 36 [1]) (sample_interest [Component 8 [65]] [])
       = Inr i' \<and> isParametersDigestValid (\<lambda>_. replicate 32 7) i' = Inr True"
  using setApplicationParameters_digest [of "sample_interest [Component 8 [65]] []" "\<lambda>_. replicate 32 7" "Block 36 [1]"]
  by (auto simp: sample_interest_def findParametersDigestComponent_def isParametersSha256Digest_def)

text \<open>
  The full name cached by \<^verbatim>\<open>getFullName\<close> survives \<^verbatim>\<open>Data::setFunction\<close> and \<^verbatim>\<open>setContent2\<close>: the
  digest of the old packet is returned for a Data packet that has no wire encoding any more,
  while after \<^verbatim>\<open>setContent\<close> the call throws, as its documentation says.
\<close>

theorem setFunction_keeps_stale_full_name:
  assumes "getFullName sha d = Inr (full, d')" and "full \<noteq> []"
  shows "getFullName sha (Data_setFunction f d') = Inr (full, Data_setFunction f d') \<and>
    getFullName sha (Data_setContent2 c d') = Inr (full, Data_setContent2 c d') \<and>
    getFullName sha (Data_setContent c d') = Inl NoWireEncoding"
proof -
  have "d_fullName d' = full" using assms by (auto simp: getFullName_def Let_def split: if_splits)
  with assms(2) show ?thesis
    by (simp add: getFullName_def Data_setFunction_def Data_setContent2_def Data_setContent_def
        Data_resetWire_def)
qed

end
