(* ===== verification/NameTree.thy ===== *)
theory NameTree
  imports Packets
begin

text \<open>
  The name tree (\<^verbatim>\<open>daemon/table/name-tree.cpp\<close>, \<^verbatim>\<open>name-tree-entry.cpp\<close>, \<^verbatim>\<open>name-tree-iterator.cpp\<close>):
  the index shared by FIB, PIT, Measurements and Strategy Choice. The model is the collection of
  its entries, at most one per name; the hash table that stores them is the subject of theory
  \<open>Hashtable\<close>. The parent of an entry is the entry of the name without its last component, as
  \<^verbatim>\<open>setParent\<close> asserts; children are kept as a list, in insertion order. The lemmas give the
  structural invariant and the results of the lookups: longest prefix match, all prefix matches,
  and removal of entries that became empty.
\<close>

section \<open>Entries\<close>

record nexthop =
  nh_face :: face_ptr
  nh_cost :: nat

record fib_entry =
  fe_prefix :: name
  fe_nextHops :: "nexthop list"

record measurements_entry =
  me_name :: name
  me_expiry :: time_ns

text \<open>
  A Strategy Choice entry owns a strategy object; what distinguishes two of them is the class and
  the instance name.
\<close>

datatype strategy_type =
    AccessStrategy
  | AsfStrategy
  | BestRouteStrategy
  | FunctionChainStrategy
  | MulticastStrategy
  | RandomStrategy
  | SelfLearningStrategy

record strategy =
  st_type :: strategy_type
  st_instanceName :: name

text \<open>PIT entries are shared objects: an entry of the name tree holds their identities.\<close>

type_synonym pit_id = nat

record nte =
  nte_name :: name
  nte_children :: "name list"
  nte_fib :: "fib_entry option"
  nte_pits :: "pit_id list"
  nte_measurements :: "measurements_entry option"
  nte_strategy :: "strategy option"

type_synonym nametree = "nte list"

definition new_nte :: "name \<Rightarrow> nte" where
  "new_nte n = \<lparr>nte_name = n, nte_children = [], nte_fib = None, nte_pits = [],
     nte_measurements = None, nte_strategy = None\<rparr>"

definition hasTableEntries :: "nte \<Rightarrow> bool" where
  "hasTableEntries e \<longleftrightarrow>
     nte_fib e \<noteq> None \<or> nte_pits e \<noteq> [] \<or> nte_measurements e \<noteq> None \<or> nte_strategy e \<noteq> None"

definition nte_isEmpty :: "nte \<Rightarrow> bool" where
  "nte_isEmpty e \<longleftrightarrow> nte_children e = [] \<and> \<not> hasTableEntries e"

definition setFibEntry :: "fib_entry option \<Rightarrow> nte \<Rightarrow> nte" where
  "setFibEntry f e = e\<lparr>nte_fib := f\<rparr>"

definition insertPitEntry :: "pit_id \<Rightarrow> nte \<Rightarrow> nte" where
  "insertPitEntry p e = e\<lparr>nte_pits := nte_pits e @ [p]\<rparr>"

text \<open>The found element is overwritten by the last one, which is then popped.\<close>

definition erasePitEntry :: "pit_id \<Rightarrow> nte \<Rightarrow> nte" where
  "erasePitEntry p e =
     e\<lparr>nte_pits := butlast (update_first (\<lambda>q. q = p) (\<lambda>_. last (nte_pits e)) (nte_pits e))\<rparr>"

definition setMeasurementsEntry :: "measurements_entry option \<Rightarrow> nte \<Rightarrow> nte" where
  "setMeasurementsEntry m e = e\<lparr>nte_measurements := m\<rparr>"

definition setStrategyChoiceEntry :: "strategy option \<Rightarrow> nte \<Rightarrow> nte" where
  "setStrategyChoiceEntry s e = e\<lparr>nte_strategy := s\<rparr>"

section \<open>The index\<close>

definition nt_find :: "nametree \<Rightarrow> name \<Rightarrow> nte option" where
  "nt_find t n = List.find (\<lambda>e. nte_name e = n) t"

definition nt_update :: "name \<Rightarrow> (nte \<Rightarrow> nte) \<Rightarrow> nametree \<Rightarrow> nametree" where
  "nt_update n f t = update_first (\<lambda>e. nte_name e = n) f t"

definition nt_delete :: "name \<Rightarrow> nametree \<Rightarrow> nametree" where
  "nt_delete n t = delete_first (\<lambda>e. nte_name e = n) t"

definition getMaxDepth :: nat where
  "getMaxDepth = 32"

definition setParent :: "name \<Rightarrow> nametree \<Rightarrow> nametree" where
  "setParent n t = nt_update (butlast n) (\<lambda>p. p\<lparr>nte_children := nte_children p @ [n]\<rparr>) t"

definition unsetParent :: "name \<Rightarrow> nametree \<Rightarrow> nametree" where
  "unsetParent n t =
     nt_update (butlast n) (\<lambda>p. p\<lparr>nte_children := delete_first (\<lambda>c. c = n) (nte_children p)\<rparr>) t"

text \<open>One round of the loop of \<^verbatim>\<open>lookup\<close>: make sure the entry of the first \<open>i\<close> components exists.\<close>

definition lookup_step :: "name \<Rightarrow> nat \<Rightarrow> nametree \<Rightarrow> nametree" where
  "lookup_step n i t =
     (case nt_find t (take i n) of
        Some _ \<Rightarrow> t
      | None \<Rightarrow> let t' = new_nte (take i n) # t in
                if i = 0 then t' else setParent (take i n) t')"

definition nt_lookup :: "name \<Rightarrow> nat \<Rightarrow> nametree \<Rightarrow> nametree" where
  "nt_lookup n prefixLen t = fold (lookup_step n) [0 ..< Suc prefixLen] t"

text \<open>\<^verbatim>\<open>eraseIfEmpty\<close>, with the number of erased entries.\<close>

function eraseIfEmpty :: "name \<Rightarrow> bool \<Rightarrow> nametree \<Rightarrow> nametree \<times> nat" where
  "eraseIfEmpty n canEraseAncestors t =
     (case nt_find t n of
        None \<Rightarrow> (t, 0)
      | Some e \<Rightarrow>
          if \<not> nte_isEmpty e then (t, 0)
          else if n = [] then (nt_delete n t, 1)
          else let t' = nt_delete n (unsetParent n t) in
               if canEraseAncestors
               then (case eraseIfEmpty (butlast n) canEraseAncestors t' of (t'', k) \<Rightarrow> (t'', Suc k))
               else (t', 1))"
  by pat_completeness auto
termination
  by (relation "measure (\<lambda>(n, _, _). length n)") auto

declare eraseIfEmpty.simps [simp del]

definition findExactMatch :: "name \<Rightarrow> nat \<Rightarrow> nametree \<Rightarrow> nte option" where
  "findExactMatch n prefixLen t =
     (let prefixLen = min (length n) prefixLen in
      if prefixLen > getMaxDepth then None else nt_find t (take prefixLen n))"

section \<open>Matching\<close>

text \<open>\<^verbatim>\<open>findLongestPrefixMatch(name)\<close>: the loop from the full depth down.\<close>

fun lpm_loop :: "nametree \<Rightarrow> name \<Rightarrow> (nte \<Rightarrow> bool) \<Rightarrow> nat \<Rightarrow> nte option" where
  "lpm_loop t n sel i =
     (let next = (case i of 0 \<Rightarrow> None | Suc j \<Rightarrow> lpm_loop t n sel j) in
      case nt_find t (take i n) of
        Some e \<Rightarrow> if sel e then Some e else next
      | None \<Rightarrow> next)"

declare lpm_loop.simps [simp del]

definition findLongestPrefixMatch :: "name \<Rightarrow> (nte \<Rightarrow> bool) \<Rightarrow> nametree \<Rightarrow> nte option" where
  "findLongestPrefixMatch n sel t = lpm_loop t n sel (min (length n) getMaxDepth)"

text \<open>\<^verbatim>\<open>findLongestPrefixMatch(entry)\<close>: from an entry up through its parents.\<close>

function lpm_entry :: "nametree \<Rightarrow> (nte \<Rightarrow> bool) \<Rightarrow> name \<Rightarrow> nte option" where
  "lpm_entry t sel n =
     (case nt_find t n of
        None \<Rightarrow> None
      | Some e \<Rightarrow> if sel e then Some e
                  else if n = [] then None else lpm_entry t sel (butlast n))"
  by pat_completeness auto
termination
  by (relation "measure (\<lambda>(_, _, n). length n)") auto

declare lpm_entry.simps [simp del]

text \<open>
  \<^verbatim>\<open>findLongestPrefixMatch(pitEntry)\<close>: from the entry \<open>at\<close> the PIT entry is attached to, go
  deeper along the PIT entry's name while entries exist, then search upwards.
\<close>

fun go_deeper :: "nametree \<Rightarrow> name \<Rightarrow> nat \<Rightarrow> nat \<Rightarrow> name \<Rightarrow> name" where
  "go_deeper t n i 0 at = at"
| "go_deeper t n i (Suc k) at =
     (case findExactMatch n i t of
        None \<Rightarrow> at
      | Some e \<Rightarrow> go_deeper t n (Suc i) k (nte_name e))"

definition lpm_pit :: "nametree \<Rightarrow> (nte \<Rightarrow> bool) \<Rightarrow> name \<Rightarrow> name \<Rightarrow> nte option" where
  "lpm_pit t sel pitName at =
     (let depth = min (length pitName) getMaxDepth;
          at' = (if length at < length pitName
                 then go_deeper t pitName (length at + 1) (depth - length at) at else at)
      in lpm_entry t sel at')"

text \<open>
  \<^verbatim>\<open>findAllMatches\<close>: the iterator starts at the longest prefix match and walks up the parents,
  stopping at the entries the selector accepts.
\<close>

function up_matches :: "nametree \<Rightarrow> (nte \<Rightarrow> bool) \<Rightarrow> name \<Rightarrow> nte list" where
  "up_matches t sel n =
     (case nt_find t n of
        None \<Rightarrow> []
      | Some e \<Rightarrow> (if sel e then [e] else []) @
                  (if n = [] then [] else up_matches t sel (butlast n)))"
  by pat_completeness auto
termination
  by (relation "measure (\<lambda>(_, _, n). length n)") auto

declare up_matches.simps [simp del]

definition findAllMatches :: "name \<Rightarrow> (nte \<Rightarrow> bool) \<Rightarrow> nametree \<Rightarrow> nte list" where
  "findAllMatches n sel t =
     (case findLongestPrefixMatch n sel t of
        None \<Rightarrow> []
      | Some e \<Rightarrow> up_matches t sel (nte_name e))"

text \<open>
  \<^verbatim>\<open>partialEnumerate\<close>: pre-order traversal of the subtree of an entry. The selector says whether
  to visit an entry and whether to descend to its children. \<open>depth\<close> bounds the descent; names in
  the tree have at most \<^const>\<open>getMaxDepth\<close> components.
\<close>

fun preorder :: "nat \<Rightarrow> nametree \<Rightarrow> (nte \<Rightarrow> bool \<times> bool) \<Rightarrow> name \<Rightarrow> nte list" where
  "preorder 0 t pred n = []"
| "preorder (Suc depth) t pred n =
     (case nt_find t n of
        None \<Rightarrow> []
      | Some e \<Rightarrow>
          (case pred e of (wantSelf, wantChildren) \<Rightarrow>
             (if wantSelf then [e] else []) @
             (if wantChildren then concat (map (preorder depth t pred) (nte_children e)) else [])))"

definition partialEnumerate :: "name \<Rightarrow> (nte \<Rightarrow> bool \<times> bool) \<Rightarrow> nametree \<Rightarrow> nte list" where
  "partialEnumerate n pred t =
     (case findExactMatch n (length n) t of
        None \<Rightarrow> []
      | Some e \<Rightarrow> preorder (Suc getMaxDepth) t pred (nte_name e))"

section \<open>Invariant\<close>

definition nt_names :: "nametree \<Rightarrow> name set" where
  "nt_names t = nte_name ` set t"

text \<open>
  One entry per name, no name deeper than the limit, every entry but the root has its parent,
  and the children of an entry are the entries one component longer.
\<close>

definition nt_inv :: "nametree \<Rightarrow> bool" where
  "nt_inv t \<longleftrightarrow>
     distinct (map nte_name t) \<and>
     (\<forall>e \<in> set t. length (nte_name e) \<le> getMaxDepth \<and>
        (nte_name e \<noteq> [] \<longrightarrow> butlast (nte_name e) \<in> nt_names t) \<and>
        distinct (nte_children e) \<and>
        set (nte_children e) = {c \<in> nt_names t. c \<noteq> [] \<and> butlast c = nte_name e})"

definition no_empty :: "nametree \<Rightarrow> bool" where
  "no_empty t \<longleftrightarrow> (\<forall>e \<in> set t. \<not> nte_isEmpty e)"

section \<open>The index as a map\<close>

lemma nt_find_SomeD: "nt_find t n = Some e \<Longrightarrow> e \<in> set t \<and> nte_name e = n"
  unfolding nt_find_def by (drule find_SomeD) simp

lemma nt_find_name: "nt_find t n = Some e \<Longrightarrow> nte_name e = n"
  by (simp add: nt_find_SomeD)

lemma nt_find_None_iff: "nt_find t n = None \<longleftrightarrow> n \<notin> nt_names t"
  by (auto simp: nt_find_def find_None_iff' nt_names_def)

lemma nt_names_iff: "n \<in> nt_names t \<longleftrightarrow> nt_find t n \<noteq> None"
  by (simp add: nt_find_None_iff)

lemma nt_find_mem:
  "distinct (map nte_name t) \<Longrightarrow> e \<in> set t \<Longrightarrow> nt_find t (nte_name e) = Some e"
  unfolding nt_find_def by (rule find_key_Some) auto

lemma nt_find_Cons [table_simps]:
  "nt_find (e # t) n = (if nte_name e = n then Some e else nt_find t n)"
  by (simp add: nt_find_def)

lemma nt_find_Nil [table_simps]: "nt_find [] n = None"
  by (simp add: nt_find_def)

lemma nt_find_update [table_simps]:
  assumes "\<And>e. nte_name (f e) = nte_name e"
  shows "nt_find (nt_update n f t) m = (if m = n then map_option f (nt_find t n) else nt_find t m)"
  using assms by (induction t) (auto simp: nt_update_def nt_find_def)

lemma nt_find_delete [table_simps]:
  assumes "distinct (map nte_name t)"
  shows "nt_find (nt_delete n t) m = (if m = n then None else nt_find t m)"
  using assms
  by (induction t) (auto simp: nt_delete_def nt_find_def find_None_iff' image_iff)

lemma distinct_nt_update:
  "(\<And>e. nte_name (f e) = nte_name e) \<Longrightarrow>
   distinct (map nte_name (nt_update n f t)) \<longleftrightarrow> distinct (map nte_name t)"
  by (simp add: nt_update_def map_key_update_first)

lemma distinct_nt_delete: "distinct (map nte_name t) \<Longrightarrow> distinct (map nte_name (nt_delete n t))"
  by (simp add: nt_delete_def delete_first_filter distinct_map_filter)

text \<open>The invariant read off the map.\<close>

definition find_inv :: "(name \<Rightarrow> nte option) \<Rightarrow> bool" where
  "find_inv F \<longleftrightarrow>
     (\<forall>n e. F n = Some e \<longrightarrow>
        nte_name e = n \<and> length n \<le> getMaxDepth \<and> (n \<noteq> [] \<longrightarrow> F (butlast n) \<noteq> None) \<and>
        distinct (nte_children e) \<and>
        set (nte_children e) = {c. c \<noteq> [] \<and> butlast c = n \<and> F c \<noteq> None})"

lemma nt_inv_iff: "nt_inv t \<longleftrightarrow> distinct (map nte_name t) \<and> find_inv (nt_find t)"
proof -
  have "(\<forall>e \<in> set t. P (nte_name e) e) \<longleftrightarrow> (\<forall>n e. nt_find t n = Some e \<longrightarrow> P n e)"
    if "distinct (map nte_name t)" for P
    using that by (metis nt_find_SomeD nt_find_mem)
  from this [of "\<lambda>n e. length n \<le> getMaxDepth \<and> (n \<noteq> [] \<longrightarrow> nt_find t (butlast n) \<noteq> None) \<and>
        distinct (nte_children e) \<and>
        set (nte_children e) = {c. c \<noteq> [] \<and> butlast c = n \<and> nt_find t c \<noteq> None}"]
  show ?thesis
    unfolding nt_inv_def find_inv_def nt_names_iff by (auto simp: nt_find_name conj_commute)
qed

lemma find_invD:
  assumes "find_inv F" "F n = Some e"
  shows "nte_name e = n" "length n \<le> getMaxDepth" "n \<noteq> [] \<Longrightarrow> F (butlast n) \<noteq> None"
    "distinct (nte_children e)" "c \<in> set (nte_children e) \<longleftrightarrow> c \<noteq> [] \<and> butlast c = n \<and> F c \<noteq> None"
  using assms unfolding find_inv_def by blast+

text \<open>Every prefix of a name in the tree is in the tree.\<close>

lemma find_inv_prefix:
  assumes inv: "find_inv F" and "F n \<noteq> None" and "prefix p n"
  shows "F p \<noteq> None"
  using assms(2,3)
proof (induction n rule: rev_induct)
  case (snoc c n)
  show ?case
  proof (cases "p = n @ [c]")
    case False
    with snoc.prems(2) have "prefix p n" by (metis prefix_snoc)
    moreover have "F n \<noteq> None"
      using find_invD(3) [OF inv] snoc.prems(1) by (metis butlast_snoc not_None_eq snoc_eq_iff_butlast)
    ultimately show ?thesis by (rule snoc.IH [rotated])
  qed (use snoc.prems in simp)
qed simp

section \<open>Operations keep the invariant\<close>

lemma nt_inv_update [inv_intros]:
  assumes "nt_inv t" and f: "\<And>e. nte_name (f e) = nte_name e" "\<And>e. nte_children (f e) = nte_children e"
  shows "nt_inv (nt_update n f t)"
proof -
  have "find_inv (nt_find (nt_update n f t))"
    using assms(1) f unfolding nt_inv_iff find_inv_def nt_find_update [of f, OF f(1)]
    by (auto split: if_splits)
  with assms(1) f(1) show ?thesis by (simp add: nt_inv_iff distinct_nt_update)
qed

lemma find_inv_insert:
  assumes inv: "find_inv F" and new: "F n = None" and len: "length n \<le> getMaxDepth"
    and par: "n \<noteq> [] \<Longrightarrow> F (butlast n) \<noteq> None"
  shows "find_inv (\<lambda>m. if m = n then Some (new_nte n)
    else if n \<noteq> [] \<and> m = butlast n then map_option (\<lambda>p. p\<lparr>nte_children := nte_children p @ [n]\<rparr>) (F m)
    else F m)" (is "find_inv ?F")
proof -
  have dom: "?F m = None \<longleftrightarrow> m \<noteq> n \<and> F m = None" for m by auto
  have nochild: "F c = None" if "butlast c = n" "c \<noteq> []" for c
    using find_invD(3) [OF inv, of c] that new by fastforce
  show ?thesis
    unfolding find_inv_def
  proof (intro allI impI)
    fix m e assume e: "?F m = Some e"
    show "nte_name e = m \<and> length m \<le> getMaxDepth \<and> (m \<noteq> [] \<longrightarrow> ?F (butlast m) \<noteq> None) \<and>
        distinct (nte_children e) \<and> set (nte_children e) = {c. c \<noteq> [] \<and> butlast c = m \<and> ?F c \<noteq> None}"
    proof (cases "m = n")
      case True
      with e have "e = new_nte n" by simp
      with True len par nochild show ?thesis by (auto simp: new_nte_def dom)
    next
      case False
      then obtain e0 where e0: "F m = Some e0" using e by (auto split: if_splits)
      note D = find_invD [OF inv e0]
      have ch: "nte_children e = (if n \<noteq> [] \<and> m = butlast n then nte_children e0 @ [n] else nte_children e0)"
        "nte_name e = m" using e e0 False D(1) by (auto split: if_splits)
      have "n \<notin> set (nte_children e0)" using D(5) new by simp
      then have "distinct (nte_children e)" using D(4) ch(1) by simp
      moreover have "set (nte_children e) = {c. c \<noteq> [] \<and> butlast c = m \<and> ?F c \<noteq> None}"
        unfolding dom ch(1) using D(5) by auto
      moreover have "m \<noteq> [] \<longrightarrow> ?F (butlast m) \<noteq> None" unfolding dom using D(3) by simp
      ultimately show ?thesis using D(2) ch(2) by blast
    qed
  qed
qed

lemma nt_find_lookup_step:
  assumes "i \<le> length n"
  shows "nt_find (lookup_step n i t) m =
    (if nt_find t (take i n) \<noteq> None then nt_find t m
     else if m = take i n then Some (new_nte m)
     else if take i n \<noteq> [] \<and> m = butlast (take i n)
     then map_option (\<lambda>p. p\<lparr>nte_children := nte_children p @ [take i n]\<rparr>) (nt_find t m)
     else nt_find t m)"
proof (cases "nt_find t (take i n)")
  case None
  show ?thesis
  proof (cases "i = 0")
    case True
    with None show ?thesis by (simp add: lookup_step_def table_simps new_nte_def)
  next
    case False
    with assms have "take i n \<noteq> []" by auto
    moreover from this have "butlast (take i n) \<noteq> take i n"
      by (metis append_butlast_last_id append_self_conv list.distinct(1))
    ultimately show ?thesis
      using None False
      by (auto simp: lookup_step_def setParent_def table_simps new_nte_def)
  qed
qed (simp add: lookup_step_def)

lemma distinct_lookup_step:
  "distinct (map nte_name t) \<Longrightarrow> distinct (map nte_name (lookup_step n i t))"
  by (auto simp: lookup_step_def Let_def setParent_def distinct_nt_update new_nte_def
      nt_find_None_iff nt_names_def image_iff split: option.split)

lemma lookup_step_inv:
  assumes inv: "nt_inv t" and i: "i \<le> length n" "i \<le> getMaxDepth"
    and par: "0 < i \<Longrightarrow> nt_find t (take (i - 1) n) \<noteq> None"
  shows "nt_inv (lookup_step n i t)"
proof (cases "nt_find t (take i n)")
  case None
  have bl: "butlast (take i n) = take (i - 1) n" if "0 < i" using i(1) that by (simp add: butlast_take)
  have "nt_find (lookup_step n i t) = (\<lambda>m. if m = take i n then Some (new_nte (take i n))
    else if take i n \<noteq> [] \<and> m = butlast (take i n)
    then map_option (\<lambda>p. p\<lparr>nte_children := nte_children p @ [take i n]\<rparr>) (nt_find t m)
    else nt_find t m)"
    by (rule ext) (simp add: nt_find_lookup_step [OF i(1)] None)
  moreover have "find_inv \<dots>"
    using inv None i par bl by (intro find_inv_insert) (auto simp: nt_inv_iff)
  ultimately show ?thesis using inv by (simp add: nt_inv_iff distinct_lookup_step)
qed (use inv in \<open>simp add: lookup_step_def\<close>)

text \<open>
  \<^verbatim>\<open>lookup\<close> creates exactly the missing prefixes, with nothing attached, and changes nothing else
  but child lists.
\<close>

lemma nt_lookup_Suc: "nt_lookup n (Suc k) t = lookup_step n (Suc k) (nt_lookup n k t)"
  by (simp add: nt_lookup_def)

lemma nt_lookup_0: "nt_lookup n 0 t = lookup_step n 0 t"
  by (simp add: nt_lookup_def)

lemma lookup_step_none: "i \<le> length n \<Longrightarrow> nt_find (lookup_step n i t) m = None \<longleftrightarrow> m \<noteq> take i n \<and> nt_find t m = None"
  by (auto simp: nt_find_lookup_step)

lemma nt_lookup_inv_names:
  assumes "nt_inv t" "k \<le> length n" "k \<le> getMaxDepth"
  shows "nt_inv (nt_lookup n k t) \<and>
    (\<forall>m. nt_find (nt_lookup n k t) m = None \<longleftrightarrow> nt_find t m = None \<and> \<not> (\<exists>i \<le> k. m = take i n))"
  using assms(2,3)
proof (induction k)
  case 0
  then show ?case using assms(1) by (simp add: nt_lookup_0 lookup_step_inv lookup_step_none) blast
next
  case (Suc k)
  then have IH: "nt_inv (nt_lookup n k t)"
    "\<And>m. nt_find (nt_lookup n k t) m = None \<longleftrightarrow> nt_find t m = None \<and> \<not> (\<exists>i \<le> k. m = take i n)"
    by auto
  have "nt_find (nt_lookup n k t) (take k n) \<noteq> None" unfolding IH(2) by blast
  with Suc.prems IH(1) have "nt_inv (nt_lookup n (Suc k) t)"
    unfolding nt_lookup_Suc by (intro lookup_step_inv) auto
  moreover have "nt_find (nt_lookup n (Suc k) t) m = None \<longleftrightarrow>
      nt_find t m = None \<and> \<not> (\<exists>i \<le> Suc k. m = take i n)" for m
    unfolding nt_lookup_Suc lookup_step_none [OF Suc.prems(1)] IH(2) by (auto simp: le_Suc_eq)
  ultimately show ?case by blast
qed

lemmas nt_lookup_inv [inv_intros] = nt_lookup_inv_names [THEN conjunct1]

section \<open>What is attached to a name\<close>

text \<open>The tables as maps from names; an absent entry has nothing attached.\<close>

definition nt_get :: "nametree \<Rightarrow> name \<Rightarrow> nte" where
  "nt_get t n = (case nt_find t n of Some e \<Rightarrow> e | None \<Rightarrow> new_nte n)"

definition nt_fib :: "nametree \<Rightarrow> name \<Rightarrow> fib_entry option" where
  "nt_fib t n = nte_fib (nt_get t n)"

definition nt_pits :: "nametree \<Rightarrow> name \<Rightarrow> pit_id list" where
  "nt_pits t n = nte_pits (nt_get t n)"

definition nt_meas :: "nametree \<Rightarrow> name \<Rightarrow> measurements_entry option" where
  "nt_meas t n = nte_measurements (nt_get t n)"

definition nt_strategy :: "nametree \<Rightarrow> name \<Rightarrow> strategy option" where
  "nt_strategy t n = nte_strategy (nt_get t n)"

lemmas nt_view_defs = nt_fib_def nt_pits_def nt_meas_def nt_strategy_def nt_get_def

text \<open>Two trees with the same attachments at every name.\<close>

definition same_attached :: "nametree \<Rightarrow> nametree \<Rightarrow> bool" where
  "same_attached t t' \<longleftrightarrow> (\<forall>n. nt_fib t n = nt_fib t' n \<and> nt_pits t n = nt_pits t' n \<and>
     nt_meas t n = nt_meas t' n \<and> nt_strategy t n = nt_strategy t' n)"

lemma same_attached_refl [simp]: "same_attached t t"
  by (simp add: same_attached_def)

lemma same_attached_trans [trans]:
  "same_attached t1 t2 \<Longrightarrow> same_attached t2 t3 \<Longrightarrow> same_attached t1 t3"
  by (simp add: same_attached_def)

lemma same_attachedD:
  assumes "same_attached t t'"
  shows "nt_fib t' = nt_fib t" "nt_pits t' = nt_pits t" "nt_meas t' = nt_meas t"
    "nt_strategy t' = nt_strategy t"
  using assms by (auto simp: same_attached_def)

lemma nt_get_update:
  assumes "\<And>e. nte_name (f e) = nte_name e" and "nt_find t n \<noteq> None"
  shows "nt_get (nt_update n f t) m = (if m = n then f (nt_get t n) else nt_get t m)"
  using assms by (auto simp: nt_get_def nt_find_update)

lemma same_attached_lookup_step: "i \<le> length n \<Longrightarrow> same_attached t (lookup_step n i t)"
  unfolding same_attached_def nt_view_defs nt_find_lookup_step
  by (auto simp: new_nte_def split: option.splits)

lemma same_attached_lookup: "k \<le> length n \<Longrightarrow> same_attached t (nt_lookup n k t)"
proof (induction k)
  case 0
  then show ?case by (simp add: nt_lookup_0 same_attached_lookup_step)
next
  case (Suc k)
  then show ?case
    unfolding nt_lookup_Suc by (meson Suc_leD same_attached_lookup_step same_attached_trans)
qed

section \<open>Erasing empty entries\<close>

lemma find_inv_delete:
  assumes inv: "find_inv F" and e: "F n = Some e" "nte_children e = []"
  shows "find_inv (\<lambda>m. if m = n then None
    else if n \<noteq> [] \<and> m = butlast n
    then map_option (\<lambda>p. p\<lparr>nte_children := delete_first (\<lambda>c. c = n) (nte_children p)\<rparr>) (F m)
    else F m)" (is "find_inv ?F")
proof -
  have dom: "?F m = None \<longleftrightarrow> m = n \<or> F m = None" for m by auto
  have nochild: "c \<noteq> [] \<Longrightarrow> butlast c = n \<Longrightarrow> F c = None" for c
    using find_invD(5) [OF inv e(1)] e(2) by auto
  show ?thesis
    unfolding find_inv_def
  proof (intro allI impI)
    fix m a assume a: "?F m = Some a"
    then have mn: "m \<noteq> n" by auto
    then obtain a0 where a0: "F m = Some a0" using a by (auto split: if_splits)
    note D = find_invD [OF inv a0]
    have ch: "nte_children a = (if n \<noteq> [] \<and> m = butlast n
        then filter (\<lambda>c. c \<noteq> n) (nte_children a0) else nte_children a0)" "nte_name a = m"
      using a a0 mn D(1,4) delete_first_filter [of "\<lambda>c. c" "nte_children a0" n]
      by (auto split: if_splits)
    have "c \<in> set (nte_children a) \<longleftrightarrow> c \<noteq> [] \<and> butlast c = m \<and> ?F c \<noteq> None" for c
      unfolding dom ch(1) by (cases "c = n") (auto simp add: D(5))
    then have "set (nte_children a) = {c. c \<noteq> [] \<and> butlast c = m \<and> ?F c \<noteq> None}" by blast
    moreover have "distinct (nte_children a)" unfolding ch(1) using D(4) by simp
    moreover have "m \<noteq> [] \<longrightarrow> ?F (butlast m) \<noteq> None"
      unfolding dom using D(3) nochild a0 by fastforce
    ultimately show "nte_name a = m \<and> length m \<le> getMaxDepth \<and> (m \<noteq> [] \<longrightarrow> ?F (butlast m) \<noteq> None) \<and>
        distinct (nte_children a) \<and> set (nte_children a) = {c. c \<noteq> [] \<and> butlast c = m \<and> ?F c \<noteq> None}"
      using D(2) ch(2) by blast
  qed
qed

definition erase1 :: "name \<Rightarrow> nametree \<Rightarrow> nametree" where
  "erase1 n t = nt_delete n (if n = [] then t else unsetParent n t)"

lemma nt_find_erase1:
  assumes "distinct (map nte_name t)"
  shows "nt_find (erase1 n t) m =
    (if m = n then None
     else if n \<noteq> [] \<and> m = butlast n
     then map_option (\<lambda>p. p\<lparr>nte_children := delete_first (\<lambda>c. c = n) (nte_children p)\<rparr>) (nt_find t m)
     else nt_find t m)"
  using assms by (simp add: erase1_def unsetParent_def table_simps distinct_nt_update)

lemma erase1_inv:
  assumes "nt_inv t" "nt_find t n = Some e" "nte_children e = []"
  shows "nt_inv (erase1 n t)"
proof -
  have d: "distinct (map nte_name t)" and i: "find_inv (nt_find t)" using assms(1) by (simp_all add: nt_inv_iff)
  have "nt_find (erase1 n t) = (\<lambda>m. if m = n then None
    else if n \<noteq> [] \<and> m = butlast n
    then map_option (\<lambda>p. p\<lparr>nte_children := delete_first (\<lambda>c. c = n) (nte_children p)\<rparr>) (nt_find t m)
    else nt_find t m)"
    by (rule ext) (rule nt_find_erase1 [OF d])
  then have "find_inv (nt_find (erase1 n t))" using find_inv_delete [OF i assms(2,3)] by simp
  moreover have "distinct (map nte_name (erase1 n t))"
    using d by (simp add: erase1_def unsetParent_def distinct_nt_delete distinct_nt_update)
  ultimately show ?thesis by (simp add: nt_inv_iff)
qed

lemma same_attached_erase1:
  assumes "distinct (map nte_name t)" "nt_find t n = Some e" "\<not> hasTableEntries e"
  shows "same_attached t (erase1 n t)"
  using assms(2,3) unfolding same_attached_def nt_view_defs nt_find_erase1 [OF assms(1)]
  by (auto simp: new_nte_def hasTableEntries_def split: option.splits)

lemma eraseIfEmpty_eq:
  "fst (eraseIfEmpty n anc t) =
     (case nt_find t n of
        None \<Rightarrow> t
      | Some e \<Rightarrow> if nte_isEmpty e then
                    if anc \<and> n \<noteq> [] then fst (eraseIfEmpty (butlast n) anc (erase1 n t)) else erase1 n t
                  else t)"
  by (subst eraseIfEmpty.simps) (auto simp: erase1_def Let_def split: option.splits prod.splits)

lemma erase1_ok:
  assumes "nt_inv t" "nt_find t n = Some e" "nte_isEmpty e"
  shows "nt_inv (erase1 n t) \<and> same_attached t (erase1 n t)"
  using erase1_inv [OF assms(1,2)] same_attached_erase1 [OF _ assms(2)] assms(1,3)
  by (simp add: nte_isEmpty_def nt_inv_iff)

lemma eraseIfEmpty_ok:
  "nt_inv t \<Longrightarrow> nt_inv (fst (eraseIfEmpty n anc t)) \<and> same_attached t (fst (eraseIfEmpty n anc t))"
proof (induction "length n" arbitrary: n t rule: less_induct)
  case less
  show ?case
  proof (cases "nt_find t n")
    case (Some e)
    show ?thesis
    proof (cases "nte_isEmpty e")
      case True
      note ok = erase1_ok [OF less.prems Some True]
      show ?thesis
      proof (cases "anc \<and> n \<noteq> []")
        case anc: True
        then have "length (butlast n) < length n" by simp
        from less.hyps [OF this, of "erase1 n t"] ok anc Some True show ?thesis
          using same_attached_trans by (simp add: eraseIfEmpty_eq [of n]) blast
      qed (use ok Some True in \<open>auto simp: eraseIfEmpty_eq [of n]\<close>)
    qed (use Some less.prems in \<open>simp add: eraseIfEmpty_eq [of n]\<close>)
  qed (use less.prems in \<open>simp add: eraseIfEmpty_eq [of n]\<close>)
qed

lemmas eraseIfEmpty_inv [inv_intros] = eraseIfEmpty_ok [THEN conjunct1]
lemmas eraseIfEmpty_attached = eraseIfEmpty_ok [THEN conjunct2]

text \<open>
  Erasing with ancestors cleans up completely: when the named entry is the only one that may be
  empty, no empty entry is left.
\<close>

lemma erase1_only_parent_empty:
  assumes inv: "nt_inv t" and "nt_find t n = Some e" "nte_isEmpty e"
    and ne: "\<And>m a. nt_find t m = Some a \<Longrightarrow> m \<noteq> n \<Longrightarrow> \<not> nte_isEmpty a"
    and a: "nt_find (erase1 n t) m = Some a" and m: "n = [] \<or> m \<noteq> butlast n"
  shows "\<not> nte_isEmpty a"
  using a m ne inv unfolding nt_inv_iff by (auto simp: nt_find_erase1 split: if_splits)

lemma eraseIfEmpty_cleans:
  assumes "nt_inv t" and "\<And>m a. nt_find t m = Some a \<Longrightarrow> m \<noteq> n \<Longrightarrow> \<not> nte_isEmpty a"
    and "nt_find (fst (eraseIfEmpty n True t)) m = Some a"
  shows "\<not> nte_isEmpty a"
  using assms
proof (induction "length n" arbitrary: n t rule: less_induct)
  case less
  show ?case
  proof (cases "\<exists>e. nt_find t n = Some e \<and> nte_isEmpty e")
    case True
    then obtain e where e: "nt_find t n = Some e" "nte_isEmpty e" by blast
    have rest: "\<not> nte_isEmpty b" if "nt_find (erase1 n t) k = Some b" "n = [] \<or> k \<noteq> butlast n" for k b
      using less.prems(2) erase1_only_parent_empty [OF less.prems(1) e _ that] by blast
    show ?thesis
    proof (cases "n = []")
      case True
      with less.prems(3) e rest show ?thesis by (simp add: eraseIfEmpty_eq [of "[]"])
    next
      case False
      then have "length (butlast n) < length n" by simp
      moreover have "nt_find (fst (eraseIfEmpty (butlast n) True (erase1 n t))) m = Some a"
        using less.prems(3) e False by (simp add: eraseIfEmpty_eq [of n])
      ultimately show ?thesis
        using less.hyps [of "butlast n" "erase1 n t"] erase1_ok [OF less.prems(1) e] rest by blast
    qed
  next
    case False
    then have "fst (eraseIfEmpty n True t) = t" by (auto simp: eraseIfEmpty_eq [of n] split: option.split)
    with less.prems(2,3) False show ?thesis by metis
  qed
qed

section \<open>Longest prefix match\<close>

text \<open>The entry of the longest prefix with at most \<open>i\<close> components that the selector accepts.\<close>

definition is_longest :: "nametree \<Rightarrow> (nte \<Rightarrow> bool) \<Rightarrow> name \<Rightarrow> nat \<Rightarrow> nte option \<Rightarrow> bool" where
  "is_longest t sel n i r \<longleftrightarrow>
     (case r of
        None \<Rightarrow> \<forall>j \<le> i. \<forall>e. nt_find t (take j n) = Some e \<longrightarrow> \<not> sel e
      | Some e \<Rightarrow> sel e \<and> (\<exists>j \<le> i. nt_find t (take j n) = Some e \<and>
          (\<forall>k \<le> i. j < k \<longrightarrow> (\<forall>e'. nt_find t (take k n) = Some e' \<longrightarrow> \<not> sel e'))))"

lemma lpm_loop_longest: "is_longest t sel n i (lpm_loop t n sel i)"
proof (induction i)
  case 0
  show ?case by (subst lpm_loop.simps) (auto simp: is_longest_def Let_def split: option.split)
next
  case (Suc i)
  show ?case
  proof (cases "\<exists>e. nt_find t (take (Suc i) n) = Some e \<and> sel e")
    case True
    then obtain e where "nt_find t (take (Suc i) n) = Some e" "sel e" by blast
    then show ?thesis by (subst lpm_loop.simps) (auto simp: is_longest_def Let_def intro!: exI [of _ "Suc i"])
  next
    case False
    then have "lpm_loop t n sel (Suc i) = lpm_loop t n sel i"
      by (subst lpm_loop.simps) (auto simp: Let_def split: option.split)
    with Suc False show ?thesis
      unfolding is_longest_def by (cases "lpm_loop t n sel i") (auto simp: le_Suc_eq)
  qed
qed

lemma find_prefix_take:
  "nt_inv t \<Longrightarrow> nt_find t p = Some e \<Longrightarrow> prefix p n \<Longrightarrow>
   \<exists>j \<le> min (length n) getMaxDepth. p = take j n \<and> j = length p"
  using find_invD(2) [of "nt_find t" p e]
  by (auto simp: nt_inv_iff prefix_def intro!: exI [of _ "length p"])

lemma findLongestPrefixMatch_Some:
  assumes inv: "nt_inv t"
  shows "findLongestPrefixMatch n sel t = Some e \<longleftrightarrow>
    nt_find t (nte_name e) = Some e \<and> prefix (nte_name e) n \<and> sel e \<and>
    (\<forall>p e'. nt_find t p = Some e' \<longrightarrow> prefix p n \<longrightarrow> sel e' \<longrightarrow> length p \<le> length (nte_name e))"
    (is "?L e \<longleftrightarrow> ?R e")
proof -
  let ?d = "min (length n) getMaxDepth"
  note L = lpm_loop_longest [of t sel n ?d, folded findLongestPrefixMatch_def]
  have right: "?R e" if "?L e" for e
  proof -
    from that L obtain j where j: "j \<le> ?d" "nt_find t (take j n) = Some e" "sel e"
      and max: "\<And>k e'. k \<le> ?d \<Longrightarrow> j < k \<Longrightarrow> nt_find t (take k n) = Some e' \<Longrightarrow> \<not> sel e'"
      by (auto simp: is_longest_def)
    have "nte_name e = take j n" using j(2) by (rule nt_find_name)
    moreover have "length p \<le> j" if "nt_find t p = Some e'" "prefix p n" "sel e'" for p e'
      using find_prefix_take [OF inv that(1,2)] that max by (metis not_le)
    ultimately show "?R e" using j by (auto simp: take_is_prefix)
  qed
  have left: "?L e" if R: "?R e"
  proof (cases "findLongestPrefixMatch n sel t")
    case None
    obtain j where "j \<le> ?d" "nte_name e = take j n" using find_prefix_take [OF inv] R by blast
    moreover have "\<forall>j \<le> ?d. \<forall>e. nt_find t (take j n) = Some e \<longrightarrow> \<not> sel e"
      using None L by (simp add: is_longest_def)
    ultimately show ?thesis using R by auto
  next
    case (Some e')
    with right [of e'] have e': "nt_find t (nte_name e') = Some e'" "prefix (nte_name e') n" "sel e'"
      "length (nte_name e) \<le> length (nte_name e')" using R by blast+
    with R have "length (nte_name e') = length (nte_name e)" by (meson le_antisym)
    with R e' have "nte_name e' = nte_name e" by (metis append_eq_append_conv prefix_def)
    with R [THEN conjunct1] e'(1) have "e' = e" by simp
    with Some show ?thesis by simp
  qed
  show ?thesis using left right by blast
qed

lemma findLongestPrefixMatch_None:
  assumes inv: "nt_inv t"
  shows "findLongestPrefixMatch n sel t = None \<longleftrightarrow>
    (\<forall>p e. nt_find t p = Some e \<longrightarrow> prefix p n \<longrightarrow> \<not> sel e)"
proof
  assume "findLongestPrefixMatch n sel t = None"
  then have "\<forall>j \<le> min (length n) getMaxDepth. \<forall>e. nt_find t (take j n) = Some e \<longrightarrow> \<not> sel e"
    using lpm_loop_longest [of t sel n "min (length n) getMaxDepth", folded findLongestPrefixMatch_def]
    by (simp add: is_longest_def)
  then show "\<forall>p e. nt_find t p = Some e \<longrightarrow> prefix p n \<longrightarrow> \<not> sel e"
    using find_prefix_take [OF inv] by fastforce
next
  assume none: "\<forall>p e. nt_find t p = Some e \<longrightarrow> prefix p n \<longrightarrow> \<not> sel e"
  then show "findLongestPrefixMatch n sel t = None"
    using findLongestPrefixMatch_Some [OF inv, of n sel] by (metis not_None_eq)
qed

text \<open>Searching upwards from an entry is searching by its name.\<close>

lemma lpm_entry_eq_loop:
  assumes inv: "nt_inv t" and "nt_find t n \<noteq> None"
  shows "lpm_entry t sel n = lpm_loop t n sel (length n)"
  using assms(2)
proof (induction n rule: rev_induct)
  case Nil
  then show ?case by (subst lpm_entry.simps, subst lpm_loop.simps) (auto simp: Let_def split: option.split)
next
  case (snoc c n)
  have "nt_find t n \<noteq> None"
    using find_inv_prefix [of "nt_find t" "n @ [c]" n] inv snoc.prems by (auto simp: nt_inv_iff)
  with snoc.IH have IH: "lpm_entry t sel n = lpm_loop t n sel (length n)" by simp
  have "lpm_loop t (n @ [c]) sel j = lpm_loop t n sel j" if "j \<le> length n" for j
    using that
  proof (induction j)
    case 0
    show ?case by (subst (1 2) lpm_loop.simps) (simp add: Let_def)
  next
    case (Suc j)
    then show ?case by (subst (1 2) lpm_loop.simps) (simp add: Let_def)
  qed
  with IH snoc.prems show ?case
    by (subst lpm_entry.simps, subst lpm_loop.simps) (auto simp: Let_def split: option.split)
qed

lemma lpm_entry_eq:
  assumes inv: "nt_inv t" and "nt_find t n \<noteq> None"
  shows "lpm_entry t sel n = findLongestPrefixMatch n sel t"
proof -
  have "length n \<le> getMaxDepth"
    using assms find_invD(2) [of "nt_find t" n] by (auto simp: nt_inv_iff)
  then show ?thesis using lpm_entry_eq_loop [OF assms] by (simp add: findLongestPrefixMatch_def)
qed

text \<open>A search that starts from a PIT entry: the entry it is attached to, or deeper.\<close>

lemma lpm_pit_attached:
  assumes "nt_inv t" "nt_find t at \<noteq> None" "length pitName \<le> length at"
  shows "lpm_pit t sel pitName at = findLongestPrefixMatch at sel t"
  using assms by (simp add: lpm_pit_def Let_def lpm_entry_eq)

lemma go_deeper_spec:
  assumes "nt_find t (take i n) \<noteq> None" "i + k \<le> min (length n) getMaxDepth"
  shows "\<exists>j. i \<le> j \<and> j \<le> i + k \<and> go_deeper t n (Suc i) k (take i n) = take j n \<and>
    nt_find t (take j n) \<noteq> None \<and> (j = i + k \<or> nt_find t (take (Suc j) n) = None)"
  using assms
proof (induction k arbitrary: i)
  case 0
  then show ?case by auto
next
  case (Suc k)
  have "min (length n) (Suc i) = Suc i" "\<not> Suc i > getMaxDepth" using Suc.prems(2) by auto
  then have ex: "findExactMatch n (Suc i) t = nt_find t (take (Suc i) n)"
    by (simp add: findExactMatch_def)
  show ?case
  proof (cases "nt_find t (take (Suc i) n)")
    case None
    with Suc.prems ex show ?thesis by (intro exI [of _ i]) simp
  next
    case (Some e)
    then obtain j where "Suc i \<le> j" "j \<le> Suc i + k"
        "go_deeper t n (Suc (Suc i)) k (take (Suc i) n) = take j n"
        "nt_find t (take j n) \<noteq> None" "j = Suc i + k \<or> nt_find t (take (Suc j) n) = None"
      using Suc.IH [of "Suc i"] Suc.prems by auto
    then show ?thesis using ex Some nt_find_name [OF Some] by (intro exI [of _ j]) auto
  qed
qed

lemma findLongestPrefixMatch_cong:
  assumes inv: "nt_inv t"
    and "\<And>p. nt_find t p \<noteq> None \<Longrightarrow> prefix p n \<longleftrightarrow> prefix p m"
  shows "findLongestPrefixMatch n sel t = findLongestPrefixMatch m sel t"
proof -
  have eq: "prefix p n \<longleftrightarrow> prefix p m" if "nt_find t p = Some e" for p e
    using assms(2) that by simp
  show ?thesis
  proof (cases "findLongestPrefixMatch m sel t")
    case None
    then have "findLongestPrefixMatch n sel t = None"
      unfolding findLongestPrefixMatch_None [OF inv] using eq by blast
    with None show ?thesis by simp
  next
    case (Some e)
    then have "findLongestPrefixMatch n sel t = Some e"
      unfolding findLongestPrefixMatch_Some [OF inv] using eq by blast
    with Some show ?thesis by simp
  qed
qed

lemma lpm_pit_prefix:
  assumes inv: "nt_inv t" and at: "nt_find t at \<noteq> None" "prefix at pitName" "length at < length pitName"
  shows "lpm_pit t sel pitName at = findLongestPrefixMatch pitName sel t"
proof -
  let ?d = "min (length pitName) getMaxDepth"
  have ta: "at = take (length at) pitName" using at(2) by (metis append_eq_conv_conj prefix_def)
  have la: "length at \<le> getMaxDepth" using inv at(1) find_invD(2) [of "nt_find t" at] by (auto simp: nt_inv_iff)
  obtain j where j: "go_deeper t pitName (length at + 1) (?d - length at) at = take j pitName"
      "nt_find t (take j pitName) \<noteq> None" "j \<le> ?d" "j = ?d \<or> nt_find t (take (Suc j) pitName) = None"
    using go_deeper_spec [of t "length at" pitName "?d - length at"] at la ta by (auto simp: min_def)
  have "lpm_pit t sel pitName at = lpm_entry t sel (take j pitName)"
    using at(3) j(1) by (simp add: lpm_pit_def Let_def)
  also have "\<dots> = findLongestPrefixMatch (take j pitName) sel t" by (rule lpm_entry_eq [OF inv j(2)])
  also have "\<dots> = findLongestPrefixMatch pitName sel t"
  proof (rule findLongestPrefixMatch_cong [OF inv])
    fix p assume p: "nt_find t p \<noteq> None"
    show "prefix p (take j pitName) \<longleftrightarrow> prefix p pitName"
    proof
      assume "prefix p pitName"
      then obtain k where k: "k \<le> ?d" "p = take k pitName" using find_prefix_take [OF inv] p by blast
      have "\<not> j < k"
      proof
        assume "j < k"
        then have "prefix (take (Suc j) pitName) p"
          using k(2) take_take [of "Suc j" k pitName] take_is_prefix [of "Suc j" "take k pitName"]
          by (simp add: min_def)
        then have "nt_find t (take (Suc j) pitName) \<noteq> None"
          using find_inv_prefix [of "nt_find t" p] inv p by (simp add: nt_inv_iff)
        with j(4) k(1) \<open>j < k\<close> show False by auto
      qed
      then show "prefix p (take j pitName)" using k(2) take_take [of k j pitName] take_is_prefix [of k "take j pitName"]
        by (simp add: not_less min_def)
    qed (meson prefix_order.trans take_is_prefix)
  qed
  finally show ?thesis .
qed

section \<open>All prefix matches\<close>

lemma set_up_matches:
  assumes inv: "nt_inv t" and "nt_find t n \<noteq> None"
  shows "set (up_matches t sel n) = {e. sel e \<and> (\<exists>p. prefix p n \<and> nt_find t p = Some e)}"
  using assms(2)
proof (induction n rule: rev_induct)
  case Nil
  then show ?case by (subst up_matches.simps) auto
next
  case (snoc c n)
  have "nt_find t n \<noteq> None"
    using find_inv_prefix [of "nt_find t" "n @ [c]" n] inv snoc.prems by (auto simp: nt_inv_iff)
  with snoc show ?case
    by (subst up_matches.simps) (auto simp: prefix_snoc split: option.splits)
qed

lemma up_matches_sorted:
  "sorted_wrt (\<lambda>a b. length (nte_name b) < length (nte_name a)) (up_matches t sel n) \<and>
   (\<forall>e \<in> set (up_matches t sel n). length (nte_name e) \<le> length n)"
proof (induction n rule: rev_induct)
  case Nil
  show ?case by (subst (1 2) up_matches.simps) (auto dest: nt_find_name split: option.split)
next
  case (snoc c n)
  show ?case
  proof (cases "nt_find t (n @ [c])")
    case (Some e)
    with snoc nt_find_name [OF Some] show ?thesis
      by (subst (1 2) up_matches.simps) (auto simp: less_Suc_eq_le le_SucI)
  qed (simp add: up_matches.simps [of t sel "n @ [c]"])
qed

lemma set_findAllMatches:
  assumes inv: "nt_inv t"
  shows "set (findAllMatches n sel t) = {e. sel e \<and> (\<exists>p. prefix p n \<and> nt_find t p = Some e)}"
proof (cases "findLongestPrefixMatch n sel t")
  case None
  then show ?thesis unfolding findLongestPrefixMatch_None [OF inv] findAllMatches_def
    using None by auto
next
  case (Some e)
  note S = Some [unfolded findLongestPrefixMatch_Some [OF inv]]
  have "prefix p (nte_name e) \<longleftrightarrow> prefix p n" if "nt_find t p = Some a" "sel a" for p a
    using S that by (metis prefix_length_prefix prefix_order.trans)
  moreover have "nt_find t (nte_name e) \<noteq> None" using S by simp
  ultimately show ?thesis
    using set_up_matches [OF inv, of "nte_name e" sel] by (auto simp: findAllMatches_def Some)
qed

lemma findAllMatches_sorted:
  "sorted_wrt (\<lambda>a b. length (nte_name b) < length (nte_name a)) (findAllMatches n sel t)"
  using up_matches_sorted by (auto simp: findAllMatches_def split: option.split)

section \<open>Subtree enumeration\<close>

text \<open>The entries of a subtree that are visited: every entry strictly above lets the walk descend.\<close>

definition reachable_below :: "nametree \<Rightarrow> (nte \<Rightarrow> bool \<times> bool) \<Rightarrow> name \<Rightarrow> name \<Rightarrow> bool" where
  "reachable_below t pred n m \<longleftrightarrow> prefix n m \<and>
     (\<forall>k a. prefix n k \<longrightarrow> strict_prefix k m \<longrightarrow> nt_find t k = Some a \<longrightarrow> snd (pred a))"

lemma reachable_below_unfold:
  assumes inv: "nt_inv t" and a: "nt_find t n = Some a" and e: "nt_find t m = Some e"
  shows "reachable_below t pred n m \<longleftrightarrow>
    m = n \<or> snd (pred a) \<and> (\<exists>c \<in> set (nte_children a). reachable_below t pred c m)"
proof -
  have fi: "find_inv (nt_find t)" using inv by (simp add: nt_inv_iff)
  note ch = find_invD(5) [OF fi a]
  show ?thesis
  proof
    assume R: "reachable_below t pred n m"
    show "m = n \<or> snd (pred a) \<and> (\<exists>c \<in> set (nte_children a). reachable_below t pred c m)"
    proof (cases "m = n")
      case False
      with R have sp: "strict_prefix n m" by (auto simp: reachable_below_def strict_prefix_def)
      then obtain x r where m: "m = n @ x # r" by (auto elim: strict_prefixE')
      have "nt_find t (n @ [x]) \<noteq> None"
        using find_inv_prefix [OF fi, of m "n @ [x]"] e m by auto
      then have "n @ [x] \<in> set (nte_children a)" by (simp add: ch)
      moreover have "reachable_below t pred (n @ [x]) m"
        using R m unfolding reachable_below_def by (auto dest: append_prefixD)
      moreover have "snd (pred a)" using R sp a by (auto simp: reachable_below_def)
      ultimately show ?thesis by blast
    qed simp
  next
    assume H: "m = n \<or> snd (pred a) \<and> (\<exists>c \<in> set (nte_children a). reachable_below t pred c m)"
    show "reachable_below t pred n m"
    proof (cases "m = n")
      case False
      with H obtain c where c: "c \<in> set (nte_children a)" "reachable_below t pred c m" "snd (pred a)" by blast
      then obtain x where x: "c = n @ [x]" using ch by (metis append_butlast_last_id)
      have "prefix n m" using c(2) x by (auto simp: reachable_below_def dest: append_prefixD)
      moreover have "snd (pred b)" if "prefix n k" "strict_prefix k m" "nt_find t k = Some b" for k b
      proof (cases "k = n")
        case True
        with that a c(3) show ?thesis by simp
      next
        case k: False
        have "strict_prefix n k" using that(1) k by (simp add: strict_prefix_def)
        then have "length c \<le> length k" using prefix_length_less [of n k] x by simp
        moreover have "prefix c m" "prefix k m" using c(2) that(2) by (simp_all add: reachable_below_def strict_prefix_def)
        ultimately have "prefix c k" using prefix_length_prefix by blast
        with c(2) that show ?thesis by (auto simp: reachable_below_def)
      qed
      ultimately show ?thesis by (auto simp: reachable_below_def)
    qed (auto simp: reachable_below_def strict_prefix_def)
  qed
qed

lemma preorder_mem:
  assumes inv: "nt_inv t" and "nt_find t n \<noteq> None" and "getMaxDepth < length n + depth"
  shows "e \<in> set (preorder depth t pred n) \<longleftrightarrow>
    (\<exists>m. nt_find t m = Some e \<and> fst (pred e) \<and> reachable_below t pred n m)"
  using assms(2,3)
proof (induction depth arbitrary: n)
  case 0
  then show ?case using inv find_invD(2) [of "nt_find t" n] by (auto simp: nt_inv_iff)
next
  case (Suc depth)
  then obtain a where a: "nt_find t n = Some a" by blast
  have fi: "find_inv (nt_find t)" using inv by (simp add: nt_inv_iff)
  have IH: "e \<in> set (preorder depth t pred c) \<longleftrightarrow>
      (\<exists>m. nt_find t m = Some e \<and> fst (pred e) \<and> reachable_below t pred c m)"
    if "c \<in> set (nte_children a)" for c
  proof (rule Suc.IH)
    have c: "c \<noteq> []" "butlast c = n" "nt_find t c \<noteq> None" using find_invD(5) [OF fi a] that by auto
    then show "nt_find t c \<noteq> None" by simp
    have "length c = Suc (length n)" using c(1,2) by (cases c rule: rev_cases) auto
    with Suc.prems(2) show "getMaxDepth < length c + depth" by simp
  qed
  obtain ws wc where p: "pred a = (ws, wc)" by fastforce
  have "e \<in> set (preorder (Suc depth) t pred n) \<longleftrightarrow>
      ws \<and> e = a \<or> wc \<and> (\<exists>c \<in> set (nte_children a). e \<in> set (preorder depth t pred c))"
    using a p by auto
  also have "\<dots> \<longleftrightarrow> (\<exists>m. nt_find t m = Some e \<and> fst (pred e) \<and> reachable_below t pred n m)"
    using IH reachable_below_unfold [OF inv a] p a by (metis fst_conv option.inject snd_conv)
  finally show ?case .
qed

lemma partialEnumerate_mem:
  assumes inv: "nt_inv t"
  shows "e \<in> set (partialEnumerate n pred t) \<longleftrightarrow>
    nt_find t n \<noteq> None \<and> (\<exists>m. nt_find t m = Some e \<and> fst (pred e) \<and> reachable_below t pred n m)"
proof -
  have "findExactMatch n (length n) t = nt_find t n"
    using inv find_invD(2) [of "nt_find t" n]
    by (cases "nt_find t n") (auto simp: findExactMatch_def nt_inv_iff Let_def)
  then show ?thesis
    using preorder_mem [OF inv, of n "Suc getMaxDepth" e pred] nt_find_name [of t n]
    by (cases "nt_find t n") (simp_all add: partialEnumerate_def del: preorder.simps)
qed

section \<open>Properties\<close>

text \<open>A small tree for the witnesses: the prefixes of a two-component name, a FIB entry at \<open>/A\<close>.\<close>

definition sample_tree :: nametree where
  "sample_tree = nt_update [Component 8 [65]] (setFibEntry (Some \<lparr>fe_prefix = [Component 8 [65]], fe_nextHops = []\<rparr>))
     (nt_lookup [Component 8 [65], Component 8 [66]] 2 [])"

lemma nt_inv_Nil [simp]: "nt_inv []"
  by (simp add: nt_inv_def)

lemma sample_tree_inv: "nt_inv sample_tree"
  unfolding sample_tree_def
  by (intro nt_inv_update nt_lookup_inv) (simp_all add: setFibEntry_def getMaxDepth_def)

text \<open>
  C14: Longest prefix match is what its name says: the result is an entry of the tree whose name is
  a prefix of the given name, which the selector accepts, and no accepted entry has a longer
  matching name; nothing is returned only if no prefix is accepted. The search that walks up the
  parent links from the entry of a name gives the same result.
\<close>

theorem findLongestPrefixMatch_correct:
  assumes "nt_inv t"
  shows "(findLongestPrefixMatch n sel t = Some e \<longleftrightarrow>
      nt_find t (nte_name e) = Some e \<and> isPrefixOf (nte_name e) n \<and> sel e \<and>
      (\<forall>p e'. nt_find t p = Some e' \<and> isPrefixOf p n \<and> sel e' \<longrightarrow> length p \<le> length (nte_name e))) \<and>
    (findLongestPrefixMatch n sel t = None \<longleftrightarrow>
      (\<forall>p e. nt_find t p = Some e \<and> isPrefixOf p n \<longrightarrow> \<not> sel e)) \<and>
    (nt_find t n \<noteq> None \<longrightarrow> lpm_entry t sel n = findLongestPrefixMatch n sel t)"
  using findLongestPrefixMatch_Some [OF assms, of n sel e] findLongestPrefixMatch_None [OF assms, of n sel]
    lpm_entry_eq [OF assms, of n sel] by (auto simp: isPrefixOf_iff)

theorem findLongestPrefixMatch_correct_witness:
  "nt_inv sample_tree \<and>
   (\<exists>e. findLongestPrefixMatch [Component 8 [65], Component 8 [67]] (\<lambda>e. nte_fib e \<noteq> None) sample_tree = Some e) \<and>
   (findLongestPrefixMatch [Component 8 [67]] (\<lambda>e. nte_fib e \<noteq> None) sample_tree = None \<longleftrightarrow>
      (\<forall>p e. nt_find sample_tree p = Some e \<and> isPrefixOf p [Component 8 [67]] \<longrightarrow> \<not> nte_fib e \<noteq> None))"
proof (intro conjI)
  show "nt_inv sample_tree" by (rule sample_tree_inv)
  show "\<exists>e. findLongestPrefixMatch [Component 8 [65], Component 8 [67]] (\<lambda>e. nte_fib e \<noteq> None) sample_tree = Some e"
    by (simp add: sample_tree_def findLongestPrefixMatch_def nt_lookup_def lookup_step_def nt_find_def
        nt_update_def setParent_def new_nte_def setFibEntry_def getMaxDepth_def lpm_loop.simps
        numeral_2_eq_2)
  show "findLongestPrefixMatch [Component 8 [67]] (\<lambda>e. nte_fib e \<noteq> None) sample_tree = None \<longleftrightarrow>
      (\<forall>p e. nt_find sample_tree p = Some e \<and> isPrefixOf p [Component 8 [67]] \<longrightarrow> \<not> nte_fib e \<noteq> None)"
    using findLongestPrefixMatch_correct [OF sample_tree_inv] by blast
qed

text \<open>
  C15: \<^verbatim>\<open>findAllMatches\<close> yields exactly the accepted entries whose names are prefixes of the given
  name, longest first.
\<close>

theorem findAllMatches_correct:
  assumes "nt_inv t"
  shows "set (findAllMatches n sel t) = {e. sel e \<and> (\<exists>p. isPrefixOf p n \<and> nt_find t p = Some e)} \<and>
    sorted_wrt (\<lambda>a b. length (nte_name b) < length (nte_name a)) (findAllMatches n sel t)"
  using set_findAllMatches [OF assms] findAllMatches_sorted by (simp add: isPrefixOf_iff)

theorem findAllMatches_correct_witness:
  "set (findAllMatches [Component 8 [65]] (\<lambda>_. True) sample_tree) =
     {e. \<exists>p. isPrefixOf p [Component 8 [65]] \<and> nt_find sample_tree p = Some e}"
  using findAllMatches_correct [OF sample_tree_inv, of "[Component 8 [65]]" "\<lambda>_. True"] by simp

text \<open>
  C16: The structural invariant of the tree (one entry per name, bounded depth, every parent
  present, exact child lists) is kept by \<^verbatim>\<open>lookup\<close> and \<^verbatim>\<open>eraseIfEmpty\<close>, and neither changes what
  is attached to any name.
\<close>

theorem nametree_invariant:
  assumes "nt_inv t" and "k \<le> length n" "k \<le> getMaxDepth"
  shows "nt_inv (nt_lookup n k t) \<and> same_attached t (nt_lookup n k t) \<and>
    nt_find (nt_lookup n k t) (take k n) \<noteq> None \<and>
    nt_inv (fst (eraseIfEmpty m anc t)) \<and> same_attached t (fst (eraseIfEmpty m anc t))"
  using nt_lookup_inv_names [OF assms] same_attached_lookup [OF assms(2)] eraseIfEmpty_ok [OF assms(1)]
  by blast

theorem nametree_invariant_witness:
  "nt_inv (nt_lookup [Component 8 [67]] 1 sample_tree) \<and>
   nt_inv (fst (eraseIfEmpty [Component 8 [65], Component 8 [66]] True sample_tree))"
  using nametree_invariant [OF sample_tree_inv, of 1 "[Component 8 [67]]"] by (simp add: getMaxDepth_def)

text \<open>
  C17: \<^verbatim>\<open>eraseIfEmpty\<close> with ancestors leaves no garbage: if only the given entry may be empty, then
  afterwards no entry of the tree is empty.
\<close>

theorem eraseIfEmpty_no_empty:
  assumes "nt_inv t" and "\<And>m a. nt_find t m = Some a \<Longrightarrow> m \<noteq> n \<Longrightarrow> \<not> nte_isEmpty a"
  shows "no_empty (fst (eraseIfEmpty n True t))"
  unfolding no_empty_def
proof
  fix a assume "a \<in> set (fst (eraseIfEmpty n True t))"
  then have "nt_find (fst (eraseIfEmpty n True t)) (nte_name a) = Some a"
    using eraseIfEmpty_inv [OF assms(1), of n True] by (simp add: nt_find_mem nt_inv_iff)
  with assms show "\<not> nte_isEmpty a" by (rule eraseIfEmpty_cleans)
qed

theorem eraseIfEmpty_no_empty_witness:
  "no_empty (fst (eraseIfEmpty [Component 8 [65]] True (nt_lookup [Component 8 [65]] 1 [])))"
proof (rule eraseIfEmpty_no_empty)
  show "nt_inv (nt_lookup [Component 8 [65]] 1 [])" by (rule nt_lookup_inv) (simp_all add: getMaxDepth_def)
  show "\<not> nte_isEmpty a" if "nt_find (nt_lookup [Component 8 [65]] 1 []) m = Some a" "m \<noteq> [Component 8 [65]]" for m a
    using that
    by (auto simp: nt_lookup_def lookup_step_def nt_find_def setParent_def nt_update_def new_nte_def
        nte_isEmpty_def split: if_splits)
qed

end
