(* ===== verification/NameTreeViews.thy ===== *)
theory NameTreeViews
  imports NameTree
begin

text \<open>
  What the tables built on the name tree share: the state component that holds the tree, and the
  contract of an attachment, one of the four things a name tree entry carries. A table reads its
  attachment, replaces it at a name after \<^verbatim>\<open>lookup\<close> made sure the entry exists, and clears it before
  \<^verbatim>\<open>eraseIfEmpty\<close>; what these do to the view of the table and to the structure of the tree is
  proved once, in the contract.
\<close>

record nt_state =
  ntree :: nametree

section \<open>The contract of an attachment\<close>

locale attachment =
  fixes get :: "nte \<Rightarrow> 'a" and put :: "'a \<Rightarrow> nte \<Rightarrow> nte" and nothing :: 'a
  assumes put_name: "nte_name (put a e) = nte_name e"
    and put_children: "nte_children (put a e) = nte_children e"
    and get_put: "get (put a e) = a"
    and get_new: "get (new_nte n) = nothing"
    and same_get: "same_attached t t' \<Longrightarrow> get (nt_get t n) = get (nt_get t' n)"
begin

lemma put_inv: "nt_inv t \<Longrightarrow> nt_inv (nt_update n (put a) t)"
  by (rule nt_inv_update) (simp_all add: put_name put_children)

lemma names_put: "nt_find (nt_update n (put a) t) m = None \<longleftrightarrow> nt_find t m = None"
  by (auto simp: nt_find_update put_name)

lemma get_update:
  "nt_find t n \<noteq> None \<Longrightarrow>
   (\<lambda>m. get (nt_get (nt_update n (put a) t) m)) = (\<lambda>m. get (nt_get t m)) (n := a)"
  by (auto simp: nt_get_update put_name get_put)

lemma get_absent: "nt_find t n = None \<Longrightarrow> get (nt_get t n) = nothing"
  by (simp add: nt_get_def get_new)

text \<open>Attach: look the name up, then put the attachment there.\<close>

lemma attach_view:
  assumes "nt_inv t" "k \<le> length n" "k \<le> getMaxDepth"
  shows "(\<lambda>m. get (nt_get (nt_update (take k n) (put a) (nt_lookup n k t)) m)) =
    (\<lambda>m. get (nt_get t m)) (take k n := a)"
proof -
  have "nt_find (nt_lookup n k t) (take k n) \<noteq> None"
    using nt_lookup_inv_names [OF assms] by blast
  moreover have "get (nt_get (nt_lookup n k t) m) = get (nt_get t m)" for m
    using same_get [OF same_attached_lookup [OF assms(2), of t]] by simp
  ultimately show ?thesis by (simp add: get_update)
qed

lemma attach_inv:
  "nt_inv t \<Longrightarrow> k \<le> length n \<Longrightarrow> k \<le> getMaxDepth \<Longrightarrow>
   nt_inv (nt_update (take k n) (put a) (nt_lookup n k t))"
  by (intro put_inv nt_lookup_inv)

text \<open>Detach: clear the attachment, then erase the entry if nothing is left on it.\<close>

lemma detach_view:
  assumes "nt_inv t" "nt_find t n \<noteq> None"
  shows "(\<lambda>m. get (nt_get (fst (eraseIfEmpty n anc (nt_update n (put a) t))) m)) =
    (\<lambda>m. get (nt_get t m)) (n := a)"
proof -
  have "get (nt_get (fst (eraseIfEmpty n anc (nt_update n (put a) t))) m) =
    get (nt_get (nt_update n (put a) t) m)" for m
    using same_get [OF eraseIfEmpty_attached [OF put_inv [OF assms(1)]]] by metis
  then show ?thesis using get_update [OF assms(2)] by simp
qed

lemma detach_inv: "nt_inv t \<Longrightarrow> nt_inv (fst (eraseIfEmpty n anc (nt_update n (put a) t)))"
  by (intro eraseIfEmpty_inv put_inv)

text \<open>Longest prefix match on the presence of an attachment, read off the view.\<close>

lemma lpm_view:
  assumes "nt_inv t" "\<not> P nothing"
  shows "map_option (get) (findLongestPrefixMatch n (\<lambda>e. P (get e)) t) =
    map_option (\<lambda>k. get (nt_get t (take k n)))
      (List.find (\<lambda>k. P (get (nt_get t (take k n)))) (rev [0 ..< Suc (length n)]))"
proof -
  have deep: "nt_find t (take k n) = None" if "getMaxDepth < k" "k \<le> length n" for k
    using assms(1) that find_invD(2) [of "nt_find t" "take k n"] by (fastforce simp: nt_inv_iff)
  have loop: "map_option get (lpm_loop t n (\<lambda>e. P (get e)) k) =
      map_option (\<lambda>k. get (nt_get t (take k n)))
        (List.find (\<lambda>k. P (get (nt_get t (take k n)))) (rev [0 ..< Suc k]))" for k
  proof (induction k)
    case 0
    then show ?case using assms(2)
      by (auto simp: lpm_loop.simps nt_get_def get_new split: option.splits)
  next
    case (Suc k)
    then show ?case using assms(2)
      by (subst lpm_loop.simps) (auto simp: Let_def nt_get_def get_new split: option.splits)
  qed
  have skip: "List.find (\<lambda>k. P (get (nt_get t (take k n)))) (rev [0 ..< Suc (getMaxDepth + j)]) =
      List.find (\<lambda>k. P (get (nt_get t (take k n)))) (rev [0 ..< Suc getMaxDepth])"
    if "getMaxDepth + j \<le> length n" for j
    using that
  proof (induction j)
    case (Suc j)
    then have "get (nt_get t (take (Suc (getMaxDepth + j)) n)) = nothing"
      by (intro get_absent deep) auto
    with Suc assms(2) show ?case by simp
  qed simp
  show ?thesis
  proof (cases "length n \<le> getMaxDepth")
    case False
    then have "length n = getMaxDepth + (length n - getMaxDepth)" by simp
    with skip [of "length n - getMaxDepth"] False loop show ?thesis
      by (simp add: findLongestPrefixMatch_def min_def del: upt_Suc)
  qed (simp add: findLongestPrefixMatch_def loop min_absorb1 del: upt_Suc)
qed

end

lemmas same_attached_get = same_attached_def [unfolded nt_fib_def nt_pits_def nt_meas_def nt_strategy_def]

interpretation fib_att: attachment nte_fib setFibEntry None
  by unfold_locales (auto simp: setFibEntry_def new_nte_def same_attached_get)

definition setPits :: "pit_id list \<Rightarrow> nte \<Rightarrow> nte" where
  "setPits ps e = e\<lparr>nte_pits := ps\<rparr>"

interpretation pit_att: attachment nte_pits setPits "[]"
  by unfold_locales (auto simp: setPits_def new_nte_def same_attached_get)

interpretation meas_att: attachment nte_measurements setMeasurementsEntry None
  by unfold_locales (auto simp: setMeasurementsEntry_def new_nte_def same_attached_get)

interpretation sc_att: attachment nte_strategy setStrategyChoiceEntry None
  by unfold_locales (auto simp: setStrategyChoiceEntry_def new_nte_def same_attached_get)

section \<open>Each attachment leaves the others alone\<close>

lemma nt_get_update_cases:
  assumes "\<And>e. nte_name (f e) = nte_name e"
  shows "nt_get (nt_update n f t) m = (if m = n \<and> nt_find t n \<noteq> None then f (nt_get t n) else nt_get t m)"
  using assms by (auto simp: nt_get_def nt_find_update)

lemma nt_fib_other [table_simps]:
  "nt_fib (nt_update n (setPits ps) t) = nt_fib t"
  "nt_fib (nt_update n (setMeasurementsEntry me) t) = nt_fib t"
  "nt_fib (nt_update n (setStrategyChoiceEntry sc) t) = nt_fib t"
  by (auto simp: nt_fib_def nt_get_update_cases setPits_def setMeasurementsEntry_def setStrategyChoiceEntry_def)

lemma nt_pits_other [table_simps]:
  "nt_pits (nt_update n (setFibEntry fe) t) = nt_pits t"
  "nt_pits (nt_update n (setMeasurementsEntry me) t) = nt_pits t"
  "nt_pits (nt_update n (setStrategyChoiceEntry sc) t) = nt_pits t"
  by (auto simp: nt_pits_def nt_get_update_cases setFibEntry_def setMeasurementsEntry_def setStrategyChoiceEntry_def)

lemma nt_meas_other [table_simps]:
  "nt_meas (nt_update n (setFibEntry fe) t) = nt_meas t"
  "nt_meas (nt_update n (setPits ps) t) = nt_meas t"
  "nt_meas (nt_update n (setStrategyChoiceEntry sc) t) = nt_meas t"
  by (auto simp: nt_meas_def nt_get_update_cases setFibEntry_def setPits_def setStrategyChoiceEntry_def)

lemma nt_strategy_other [table_simps]:
  "nt_strategy (nt_update n (setFibEntry fe) t) = nt_strategy t"
  "nt_strategy (nt_update n (setPits ps) t) = nt_strategy t"
  "nt_strategy (nt_update n (setMeasurementsEntry me) t) = nt_strategy t"
  by (auto simp: nt_strategy_def nt_get_update_cases setFibEntry_def setPits_def setMeasurementsEntry_def)

lemma insertPitEntry_setPits: "insertPitEntry p e = setPits (nte_pits e @ [p]) e"
  by (simp add: insertPitEntry_def setPits_def)

lemma erasePitEntry_setPits:
  "erasePitEntry p e = setPits (butlast (update_first (\<lambda>q. q = p) (\<lambda>_. last (nte_pits e)) (nte_pits e))) e"
  by (simp add: erasePitEntry_def setPits_def)

lemma finite_nt_names: "finite (nt_names t)"
  by (simp add: nt_names_def)

lemma finite_nt_fib: "finite (dom (nt_fib t))"
proof (rule finite_subset [OF _ finite_nt_names [of t]])
  show "dom (nt_fib t) \<subseteq> nt_names t"
    using fib_att.get_absent [of t] by (force simp: nt_fib_def nt_names_iff)
qed

end
