(* ===== verification/Fib.thy ===== *)
theory Fib
  imports NameTreeViews "HOL-Library.Multiset"
begin

text \<open>
  The Forwarding Information Base (\<^verbatim>\<open>daemon/table/fib.cpp\<close>, \<^verbatim>\<open>fib-entry.cpp\<close>): entries attached to
  the name tree, each with nexthops ordered by cost. The abstract FIB is a map from prefixes to
  maps from faces to costs; every operation is shown to act on it as its documentation says.
\<close>

section \<open>Entries\<close>

text \<open>An iterator is a position; \<^verbatim>\<open>end()\<close> is the length of the list.\<close>

definition findNextHop :: "face_ptr \<Rightarrow> fib_entry \<Rightarrow> nat" where
  "findNextHop face e = length (takeWhile (\<lambda>nh. nh_face nh \<noteq> face) (fe_nextHops e))"

definition hasNextHop :: "face_ptr \<Rightarrow> fib_entry \<Rightarrow> bool" where
  "hasNextHop face e \<longleftrightarrow> findNextHop face e \<noteq> length (fe_nextHops e)"

definition hasNextHops :: "fib_entry \<Rightarrow> bool" where
  "hasNextHops e \<longleftrightarrow> fe_nextHops e \<noteq> []"

text \<open>
  \<^verbatim>\<open>std::sort\<close> by ascending cost. The order of nexthops with equal cost is not specified by the
  language; the model keeps it.
\<close>

definition sortNextHops :: "fib_entry \<Rightarrow> fib_entry" where
  "sortNextHops e = e\<lparr>fe_nextHops := sort_key nh_cost (fe_nextHops e)\<rparr>"

definition Entry_addOrUpdateNextHop :: "face_ptr \<Rightarrow> nat \<Rightarrow> fib_entry \<Rightarrow> fib_entry \<times> nat \<times> bool" where
  "Entry_addOrUpdateNextHop face cost e =
     (let it = findNextHop face e;
          isNew = (it = length (fe_nextHops e));
          nhs = (if isNew then fe_nextHops e @ [\<lparr>nh_face = face, nh_cost = 0\<rparr>] else fe_nextHops e);
          nhs = nhs[it := (nhs ! it)\<lparr>nh_cost := cost\<rparr>]
      in (sortNextHops (e\<lparr>fe_nextHops := nhs\<rparr>), it, isNew))"

definition Entry_removeNextHop :: "face_ptr \<Rightarrow> fib_entry \<Rightarrow> fib_entry \<times> bool" where
  "Entry_removeNextHop face e =
     (let it = findNextHop face e in
      if it \<noteq> length (fe_nextHops e)
      then (e\<lparr>fe_nextHops := take it (fe_nextHops e) @ drop (Suc it) (fe_nextHops e)\<rparr>, True)
      else (e, False))"

section \<open>The table\<close>

record fib_state = nt_state +
  fib_nItems :: "64 word"

definition Fib_emptyEntry :: fib_entry where
  "Fib_emptyEntry = \<lparr>fe_prefix = [], fe_nextHops = []\<rparr>"

definition nteHasFibEntry :: "nte \<Rightarrow> bool" where
  "nteHasFibEntry e \<longleftrightarrow> nte_fib e \<noteq> None"

definition Fib_result :: "nte option \<Rightarrow> fib_entry" where
  "Fib_result r =
     (case r of Some e \<Rightarrow> (case nte_fib e of Some fe \<Rightarrow> fe | None \<Rightarrow> Fib_emptyEntry)
      | None \<Rightarrow> Fib_emptyEntry)"

definition Fib_findLongestPrefixMatch :: "name \<Rightarrow> 'a fib_state_scheme \<Rightarrow> fib_entry" where
  "Fib_findLongestPrefixMatch pfx s = Fib_result (findLongestPrefixMatch pfx nteHasFibEntry (ntree s))"

text \<open>The overload for a PIT entry: its name and the name it is attached to.\<close>

definition Fib_findLongestPrefixMatch_pit :: "name \<Rightarrow> name \<Rightarrow> 'a fib_state_scheme \<Rightarrow> fib_entry" where
  "Fib_findLongestPrefixMatch_pit pitName at s = Fib_result (lpm_pit (ntree s) nteHasFibEntry pitName at)"

definition Fib_findLongestPrefixMatch_measurements :: "name \<Rightarrow> 'a fib_state_scheme \<Rightarrow> fib_entry" where
  "Fib_findLongestPrefixMatch_measurements at s = Fib_result (lpm_entry (ntree s) nteHasFibEntry at)"

definition Fib_findExactMatch :: "name \<Rightarrow> 'a fib_state_scheme \<Rightarrow> fib_entry option" where
  "Fib_findExactMatch pfx s =
     (case findExactMatch pfx (length pfx) (ntree s) of
        Some e \<Rightarrow> nte_fib e
      | None \<Rightarrow> None)"

definition Fib_insert :: "name \<Rightarrow> 'a fib_state_scheme \<Rightarrow> 'a fib_state_scheme \<times> bool" where
  "Fib_insert pfx s =
     (let t = nt_lookup pfx (length pfx) (ntree s) in
      case nt_fib t pfx of
        Some _ \<Rightarrow> (s\<lparr>ntree := t\<rparr>, False)
      | None \<Rightarrow>
          (s\<lparr>ntree := nt_update pfx (setFibEntry (Some \<lparr>fe_prefix = pfx, fe_nextHops = []\<rparr>)) t,
             fib_nItems := fib_nItems s + 1\<rparr>, True))"

definition Fib_erase_nte :: "name \<Rightarrow> bool \<Rightarrow> 'a fib_state_scheme \<Rightarrow> 'a fib_state_scheme" where
  "Fib_erase_nte n canDeleteNte s =
     (let t = nt_update n (setFibEntry None) (ntree s);
          t = (if canDeleteNte then fst (eraseIfEmpty n True t) else t)
      in s\<lparr>ntree := t, fib_nItems := fib_nItems s - 1\<rparr>)"

definition Fib_erase :: "name \<Rightarrow> 'a fib_state_scheme \<Rightarrow> 'a fib_state_scheme" where
  "Fib_erase pfx s =
     (case findExactMatch pfx (length pfx) (ntree s) of
        Some e \<Rightarrow> Fib_erase_nte (nte_name e) True s
      | None \<Rightarrow> s)"

text \<open>
  \<^verbatim>\<open>addOrUpdateNextHop\<close> of the entry at a prefix. The second result is what \<^verbatim>\<open>afterNewNextHop\<close> is
  signalled with: the nexthop at the iterator the entry returned.
\<close>

definition Fib_addOrUpdateNextHop ::
    "name \<Rightarrow> face_ptr \<Rightarrow> nat \<Rightarrow> 'a fib_state_scheme \<Rightarrow> 'a fib_state_scheme \<times> nexthop option" where
  "Fib_addOrUpdateNextHop pfx face cost s =
     (case nt_fib (ntree s) pfx of
        None \<Rightarrow> (s, None)
      | Some e \<Rightarrow>
          (case Entry_addOrUpdateNextHop face cost e of (e', it, isNew) \<Rightarrow>
             (s\<lparr>ntree := nt_update pfx (setFibEntry (Some e')) (ntree s)\<rparr>,
              if isNew then Some (fe_nextHops e' ! it) else None)))"

datatype remove_result = NO_SUCH_NEXTHOP | NEXTHOP_REMOVED | FIB_ENTRY_REMOVED

definition Fib_removeNextHop ::
    "name \<Rightarrow> face_ptr \<Rightarrow> 'a fib_state_scheme \<Rightarrow> 'a fib_state_scheme \<times> remove_result" where
  "Fib_removeNextHop pfx face s =
     (case nt_fib (ntree s) pfx of
        None \<Rightarrow> (s, NO_SUCH_NEXTHOP)
      | Some e \<Rightarrow>
          (case Entry_removeNextHop face e of (e', isRemoved) \<Rightarrow>
             let s' = s\<lparr>ntree := nt_update pfx (setFibEntry (Some e')) (ntree s)\<rparr> in
             if \<not> isRemoved then (s', NO_SUCH_NEXTHOP)
             else if \<not> hasNextHops e' then (Fib_erase_nte pfx False s', FIB_ENTRY_REMOVED)
             else (s', NEXTHOP_REMOVED)))"

section \<open>Nexthops as a map from faces to costs\<close>

definition nh_map :: "fib_entry \<Rightarrow> face_ptr \<Rightarrow> nat option" where
  "nh_map e = map_of (map (\<lambda>nh. (nh_face nh, nh_cost nh)) (fe_nextHops e))"

definition fib_entry_ok :: "fib_entry \<Rightarrow> bool" where
  "fib_entry_ok e \<longleftrightarrow> distinct (map nh_face (fe_nextHops e)) \<and> sorted (map nh_cost (fe_nextHops e))"

lemma nh_split:
  obtains (absent) "findNextHop face e = length (fe_nextHops e)" "\<forall>nh \<in> set (fe_nextHops e). nh_face nh \<noteq> face"
  | (present) xs nh ys where "fe_nextHops e = xs @ nh # ys" "\<forall>nh \<in> set xs. nh_face nh \<noteq> face"
      "nh_face nh = face" "findNextHop face e = length xs"
proof (cases "\<forall>nh \<in> set (fe_nextHops e). nh_face nh \<noteq> face")
  case True
  then have "takeWhile (\<lambda>nh. nh_face nh \<noteq> face) (fe_nextHops e) = fe_nextHops e"
    unfolding takeWhile_eq_all_conv by blast
  then have "findNextHop face e = length (fe_nextHops e)" by (simp only: findNextHop_def)
  from this True show thesis by (rule absent)
next
  case False
  then have "\<exists>nh \<in> set (fe_nextHops e). nh_face nh = face" by blast
  from split_list_first_prop [OF this] obtain xs nh ys where
    e: "fe_nextHops e = xs @ nh # ys" "nh_face nh = face" "\<forall>nh \<in> set xs. nh_face nh \<noteq> face"
    by blast
  then have "takeWhile (\<lambda>nh. nh_face nh \<noteq> face) (fe_nextHops e) = xs"
    unfolding e(1) by (subst takeWhile_append2) auto
  then have "findNextHop face e = length xs" by (simp only: findNextHop_def)
  from e(1,3,2) this show thesis by (rule present)
qed

lemma nh_map_perm:
  assumes "distinct (map nh_face (fe_nextHops e))" "mset (fe_nextHops e') = mset (fe_nextHops e)"
  shows "nh_map e' = nh_map e" and "distinct (map nh_face (fe_nextHops e'))"
proof -
  have "mset (map nh_face (fe_nextHops e')) = mset (map nh_face (fe_nextHops e))"
    using assms(2) by simp
  then show d: "distinct (map nh_face (fe_nextHops e'))"
    using assms(1) mset_eq_imp_distinct_iff by blast
  have "set (fe_nextHops e') = set (fe_nextHops e)"
    using assms(2) mset_eq_setD by blast
  with d assms(1) show "nh_map e' = nh_map e"
    unfolding nh_map_def by (subst map_of_inject_set) (simp_all add: o_def)
qed

lemma map_of_nexthops_append:
  "\<forall>nh \<in> set xs. nh_face nh \<noteq> face \<Longrightarrow>
   map_of (map (\<lambda>nh. (nh_face nh, nh_cost nh)) xs) face = None"
  by (induction xs) auto

text \<open>The list that \<^verbatim>\<open>addOrUpdateNextHop\<close> sorts.\<close>

lemma addOrUpdate_list:
  assumes "distinct (map nh_face (fe_nextHops e))"
  obtains nhs where "fst (Entry_addOrUpdateNextHop face cost e) = sortNextHops (e\<lparr>fe_nextHops := nhs\<rparr>)"
    "distinct (map nh_face nhs)" "nh_map (e\<lparr>fe_nextHops := nhs\<rparr>) = (nh_map e)(face \<mapsto> cost)"
proof (cases rule: nh_split [of face e])
  case absent
  show thesis
  proof (rule that [of "fe_nextHops e @ [\<lparr>nh_face = face, nh_cost = cost\<rparr>]"])
    show "nh_map (e\<lparr>fe_nextHops := fe_nextHops e @ [\<lparr>nh_face = face, nh_cost = cost\<rparr>]\<rparr>) = (nh_map e)(face \<mapsto> cost)"
      using map_of_nexthops_append [OF absent(2)] by (auto simp: nh_map_def map_add_def split: option.splits)
  qed (use absent assms in \<open>auto simp: Entry_addOrUpdateNextHop_def Let_def\<close>)
next
  case (present xs nh ys)
  show thesis
  proof (rule that [of "xs @ nh\<lparr>nh_cost := cost\<rparr> # ys"])
    show "nh_map (e\<lparr>fe_nextHops := xs @ nh\<lparr>nh_cost := cost\<rparr> # ys\<rparr>) = (nh_map e)(face \<mapsto> cost)"
      using map_of_nexthops_append [OF present(2)] present(1,3)
      by (auto simp: nh_map_def map_add_def fun_eq_iff split: option.splits)
  qed (use present assms in \<open>auto simp: Entry_addOrUpdateNextHop_def Let_def\<close>)
qed

lemma addOrUpdate_entry:
  assumes "fib_entry_ok e"
  shows "fib_entry_ok (fst (Entry_addOrUpdateNextHop face cost e))"
    and "nh_map (fst (Entry_addOrUpdateNextHop face cost e)) = (nh_map e)(face \<mapsto> cost)"
    and "snd (snd (Entry_addOrUpdateNextHop face cost e)) \<longleftrightarrow> nh_map e face = None"
    and "fe_prefix (fst (Entry_addOrUpdateNextHop face cost e)) = fe_prefix e"
proof -
  from assms obtain nhs where nhs: "fst (Entry_addOrUpdateNextHop face cost e) = sortNextHops (e\<lparr>fe_nextHops := nhs\<rparr>)"
    "distinct (map nh_face nhs)" "nh_map (e\<lparr>fe_nextHops := nhs\<rparr>) = (nh_map e)(face \<mapsto> cost)"
    by (auto simp: fib_entry_ok_def elim: addOrUpdate_list)
  have p: "mset (fe_nextHops (sortNextHops (e\<lparr>fe_nextHops := nhs\<rparr>))) = mset (fe_nextHops (e\<lparr>fe_nextHops := nhs\<rparr>))"
    by (simp add: sortNextHops_def)
  note perm = nh_map_perm [OF _ p]
  show "fib_entry_ok (fst (Entry_addOrUpdateNextHop face cost e))"
    using perm(2) nhs by (simp add: fib_entry_ok_def) (simp add: sortNextHops_def)
  show "nh_map (fst (Entry_addOrUpdateNextHop face cost e)) = (nh_map e)(face \<mapsto> cost)"
    using perm(1) nhs by simp
  show "fe_prefix (fst (Entry_addOrUpdateNextHop face cost e)) = fe_prefix e"
    by (simp add: nhs(1) sortNextHops_def)
  show "snd (snd (Entry_addOrUpdateNextHop face cost e)) \<longleftrightarrow> nh_map e face = None"
    by (cases rule: nh_split [of face e])
      (auto simp: Entry_addOrUpdateNextHop_def Let_def nh_map_def map_of_nexthops_append map_add_def)
qed

lemma remove_entry:
  assumes "fib_entry_ok e"
  shows "fib_entry_ok (fst (Entry_removeNextHop face e))"
    and "nh_map (fst (Entry_removeNextHop face e)) = (nh_map e)(face := None)"
    and "snd (Entry_removeNextHop face e) \<longleftrightarrow> nh_map e face \<noteq> None"
    and "fe_prefix (fst (Entry_removeNextHop face e)) = fe_prefix e"
proof -
  have "fib_entry_ok (fst (Entry_removeNextHop face e)) \<and>
    nh_map (fst (Entry_removeNextHop face e)) = (nh_map e)(face := None) \<and>
    (snd (Entry_removeNextHop face e) \<longleftrightarrow> nh_map e face \<noteq> None) \<and>
    fe_prefix (fst (Entry_removeNextHop face e)) = fe_prefix e"
  proof (cases rule: nh_split [of face e])
    case absent
    then show ?thesis using assms map_of_nexthops_append [OF absent(2)]
      by (auto simp: Entry_removeNextHop_def nh_map_def)
  next
    case (present xs nh ys)
    have "\<forall>nh \<in> set ys. nh_face nh \<noteq> face"
      using assms present by (auto simp: fib_entry_ok_def image_iff)
    from map_of_nexthops_append [OF this] map_of_nexthops_append [OF present(2)] show ?thesis
      using assms present
      by (auto simp: Entry_removeNextHop_def nh_map_def fib_entry_ok_def sorted_append map_add_def
          fun_eq_iff split: option.splits)
  qed
  then show "fib_entry_ok (fst (Entry_removeNextHop face e))"
    and "nh_map (fst (Entry_removeNextHop face e)) = (nh_map e)(face := None)"
    and "snd (Entry_removeNextHop face e) \<longleftrightarrow> nh_map e face \<noteq> None"
    and "fe_prefix (fst (Entry_removeNextHop face e)) = fe_prefix e"
    by blast+
qed

section \<open>The abstract FIB\<close>

type_synonym routes = "name \<rightharpoonup> (face_ptr \<rightharpoonup> nat)"

definition fib_abs :: "'a fib_state_scheme \<Rightarrow> routes" where
  "fib_abs s n = map_option nh_map (nt_fib (ntree s) n)"

definition fib_inv :: "'a fib_state_scheme \<Rightarrow> bool" where
  "fib_inv s \<longleftrightarrow> nt_inv (ntree s) \<and>
     (\<forall>n e. nt_fib (ntree s) n = Some e \<longrightarrow> fe_prefix e = n \<and> fib_entry_ok e) \<and>
     fib_nItems s = of_nat (card (dom (nt_fib (ntree s))))"

lemma fib_invD:
  assumes "fib_inv s"
  shows "nt_inv (ntree s)" "nt_fib (ntree s) n = Some e \<Longrightarrow> fe_prefix e = n"
    "nt_fib (ntree s) n = Some e \<Longrightarrow> fib_entry_ok e"
    "fib_nItems s = of_nat (card (dom (nt_fib (ntree s))))"
  using assms by (auto simp: fib_inv_def)

text \<open>One entry changes: what that does to the view, the invariant and the abstract table.\<close>

lemma nt_fib_put [table_simps]:
  "nt_find t n \<noteq> None \<Longrightarrow> nt_fib (nt_update n (setFibEntry f) t) = (nt_fib t)(n := f)"
  using fib_att.get_update [of t n f] by (simp add: nt_fib_def fun_eq_iff)

lemma nt_fib_lookup [table_simps]: "k \<le> length n \<Longrightarrow> nt_fib (nt_lookup n k t) = nt_fib t"
  by (rule same_attachedD [OF same_attached_lookup])

lemma nt_fib_erase [table_simps]: "nt_inv t \<Longrightarrow> nt_fib (fst (eraseIfEmpty n anc t)) = nt_fib t"
  by (rule same_attachedD [OF eraseIfEmpty_attached])

lemma nt_fib_present: "nt_fib t n = Some e \<Longrightarrow> nt_find t n \<noteq> None"
  using fib_att.get_absent [of t n] by (auto simp: nt_fib_def)

lemma nt_find_lookup_self:
  "nt_inv t \<Longrightarrow> length n \<le> getMaxDepth \<Longrightarrow> nt_find (nt_lookup n (length n) t) n \<noteq> None"
  using nt_lookup_inv_names [of t "length n" n] by (metis order_refl take_all)

lemma word_card_dom_delete:
  "finite (dom m) \<Longrightarrow> m n = Some e \<Longrightarrow>
   (of_nat (card (dom (m(n := None)))) :: 64 word) = of_nat (card (dom m)) - 1"
  by (subst card.remove [of "dom m" n]) (auto simp: card_Diff_singleton)

lemma Fib_insert_ok:
  assumes "fib_inv s" "length p \<le> getMaxDepth"
  shows "fib_inv (fst (Fib_insert p s))"
    and "fib_abs (fst (Fib_insert p s)) =
      (fib_abs s)(p \<mapsto> (case fib_abs s p of Some r \<Rightarrow> r | None \<Rightarrow> Map.empty))"
    and "snd (Fib_insert p s) \<longleftrightarrow> fib_abs s p = None"
proof -
  note inv = fib_invD [OF assms(1)]
  have t: "nt_inv (nt_lookup p (length p) (ntree s))" "nt_find (nt_lookup p (length p) (ntree s)) p \<noteq> None"
    using inv(1) assms(2) by (auto intro: nt_lookup_inv simp: nt_find_lookup_self)
  have u: "nt_inv (nt_update p (setFibEntry f) (nt_lookup p (length p) (ntree s)))" for f
    using t(1) by (rule fib_att.put_inv)
  show "fib_inv (fst (Fib_insert p s))"
    using inv(2-4) t u
    by (auto simp: fib_inv_def Fib_insert_def Let_def nt_fib_lookup nt_fib_put fib_entry_ok_def
        finite_nt_fib domIff split: option.splits if_splits)
  show "snd (Fib_insert p s) \<longleftrightarrow> fib_abs s p = None"
    by (auto simp: Fib_insert_def Let_def nt_fib_lookup fib_abs_def split: option.splits)
  show "fib_abs (fst (Fib_insert p s)) =
      (fib_abs s)(p \<mapsto> (case fib_abs s p of Some r \<Rightarrow> r | None \<Rightarrow> Map.empty))"
    using t by (auto simp: Fib_insert_def Let_def nt_fib_lookup nt_fib_put fib_abs_def nh_map_def fun_eq_iff
        split: option.splits)
qed

lemma Fib_put_ok:
  assumes "fib_inv s" "nt_fib (ntree s) p = Some e" "fib_entry_ok e'" "fe_prefix e' = p"
  shows "fib_inv (s\<lparr>ntree := nt_update p (setFibEntry (Some e')) (ntree s)\<rparr>)"
    and "fib_abs (s\<lparr>ntree := nt_update p (setFibEntry (Some e')) (ntree s)\<rparr>) = (fib_abs s)(p \<mapsto> nh_map e')"
proof -
  note present = nt_fib_present [OF assms(2)]
  have "dom ((nt_fib (ntree s))(p \<mapsto> e')) = dom (nt_fib (ntree s))"
    using assms(2) by auto
  then show "fib_inv (s\<lparr>ntree := nt_update p (setFibEntry (Some e')) (ntree s)\<rparr>)"
    using fib_invD [OF assms(1)] assms(3,4) fib_att.put_inv
    by (auto simp: fib_inv_def nt_fib_put [OF present] split: if_splits)
  show "fib_abs (s\<lparr>ntree := nt_update p (setFibEntry (Some e')) (ntree s)\<rparr>) = (fib_abs s)(p \<mapsto> nh_map e')"
    by (auto simp: fib_abs_def nt_fib_put [OF present])
qed

lemma Fib_erase_nte_ok:
  assumes "fib_inv s" "nt_fib (ntree s) p = Some e"
  shows "fib_inv (Fib_erase_nte p del s)" and "fib_abs (Fib_erase_nte p del s) = (fib_abs s)(p := None)"
proof -
  note inv = fib_invD [OF assms(1)] and present = nt_fib_present [OF assms(2)]
  have u: "nt_inv (nt_update p (setFibEntry None) (ntree s))" using inv(1) by (rule fib_att.put_inv)
  have v: "nt_fib (ntree (Fib_erase_nte p del s)) = (nt_fib (ntree s))(p := None)"
    using u by (simp add: Fib_erase_nte_def Let_def nt_fib_erase nt_fib_put [OF present])
  show "fib_inv (Fib_erase_nte p del s)"
    unfolding fib_inv_def v using inv u word_card_dom_delete [OF finite_nt_fib assms(2)]
    by (auto simp: Fib_erase_nte_def Let_def eraseIfEmpty_inv split: if_splits)
  show "fib_abs (Fib_erase_nte p del s) = (fib_abs s)(p := None)"
    by (auto simp: fib_abs_def v)
qed

lemma findExactMatch_self: "nt_inv t \<Longrightarrow> findExactMatch n (length n) t = nt_find t n"
  using find_invD(2) [of "nt_find t" n] by (cases "nt_find t n") (auto simp: findExactMatch_def nt_inv_iff Let_def)

lemma Fib_erase_ok:
  assumes "fib_inv s" "fib_abs s p \<noteq> None"
  shows "fib_inv (Fib_erase p s)" and "fib_abs (Fib_erase p s) = (fib_abs s)(p := None)"
proof -
  obtain e where e: "nt_fib (ntree s) p = Some e" using assms(2) by (auto simp: fib_abs_def)
  then have "Fib_erase p s = Fib_erase_nte p True s"
    using nt_fib_present [OF e] fib_invD(1) [OF assms(1)]
    by (auto simp: Fib_erase_def findExactMatch_self dest: nt_find_name)
  with Fib_erase_nte_ok [OF assms(1) e]
  show "fib_inv (Fib_erase p s)" "fib_abs (Fib_erase p s) = (fib_abs s)(p := None)" by simp_all
qed

lemma Fib_addOrUpdateNextHop_ok:
  assumes "fib_inv s"
  shows "fib_inv (fst (Fib_addOrUpdateNextHop p face cost s))"
    and "fib_abs s p = Some r \<Longrightarrow>
      fib_abs (fst (Fib_addOrUpdateNextHop p face cost s)) = (fib_abs s)(p \<mapsto> r(face \<mapsto> cost)) \<and>
      (snd (Fib_addOrUpdateNextHop p face cost s) \<noteq> None \<longleftrightarrow> r face = None)"
proof -
  have *: "fib_inv (fst (Fib_addOrUpdateNextHop p face cost s)) \<and>
      fib_abs (fst (Fib_addOrUpdateNextHop p face cost s)) = (fib_abs s)(p \<mapsto> (nh_map e)(face \<mapsto> cost)) \<and>
      (snd (Fib_addOrUpdateNextHop p face cost s) \<noteq> None \<longleftrightarrow> nh_map e face = None)"
    if e: "nt_fib (ntree s) p = Some e" for e
  proof -
    note ok = addOrUpdate_entry [OF fib_invD(3) [OF assms e], of face cost]
    obtain e' it isNew where a: "Entry_addOrUpdateNextHop face cost e = (e', it, isNew)"
      by (cases "Entry_addOrUpdateNextHop face cost e") auto
    show ?thesis
      using Fib_put_ok [OF assms e, of e'] ok fib_invD(2) [OF assms e] a e
      by (auto simp: Fib_addOrUpdateNextHop_def)
  qed
  show "fib_inv (fst (Fib_addOrUpdateNextHop p face cost s))"
    using * assms by (cases "nt_fib (ntree s) p") (auto simp: Fib_addOrUpdateNextHop_def)
  show "fib_abs (fst (Fib_addOrUpdateNextHop p face cost s)) = (fib_abs s)(p \<mapsto> r(face \<mapsto> cost)) \<and>
      (snd (Fib_addOrUpdateNextHop p face cost s) \<noteq> None \<longleftrightarrow> r face = None)" if "fib_abs s p = Some r"
    using that * by (auto simp: fib_abs_def)
qed

lemma nh_map_empty_iff: "nh_map e = Map.empty \<longleftrightarrow> \<not> hasNextHops e"
  by (auto simp: nh_map_def hasNextHops_def)

lemma Fib_removeNextHop_ok:
  assumes "fib_inv s"
  shows "fib_inv (fst (Fib_removeNextHop p face s))"
    and "fib_abs s p = Some r \<Longrightarrow>
      Fib_removeNextHop p face s = (fst (Fib_removeNextHop p face s),
        if r face = None then NO_SUCH_NEXTHOP
        else if r(face := None) = Map.empty then FIB_ENTRY_REMOVED else NEXTHOP_REMOVED) \<and>
      fib_abs (fst (Fib_removeNextHop p face s)) =
        (if r face \<noteq> None \<and> r(face := None) = Map.empty then (fib_abs s)(p := None)
         else (fib_abs s)(p \<mapsto> r(face := None)))"
proof -
  have *: "fib_inv (fst (Fib_removeNextHop p face s)) \<and>
      Fib_removeNextHop p face s = (fst (Fib_removeNextHop p face s),
        if nh_map e face = None then NO_SUCH_NEXTHOP
        else if (nh_map e)(face := None) = Map.empty then FIB_ENTRY_REMOVED else NEXTHOP_REMOVED) \<and>
      fib_abs (fst (Fib_removeNextHop p face s)) =
        (if nh_map e face \<noteq> None \<and> (nh_map e)(face := None) = Map.empty then (fib_abs s)(p := None)
         else (fib_abs s)(p \<mapsto> (nh_map e)(face := None)))"
    if e: "nt_fib (ntree s) p = Some e" for e
  proof -
    note ok = remove_entry [OF fib_invD(3) [OF assms e], of face]
    obtain e' r where a: "Entry_removeNextHop face e = (e', r)"
      by (cases "Entry_removeNextHop face e") auto
    let ?s = "s\<lparr>ntree := nt_update p (setFibEntry (Some e')) (ntree s)\<rparr>"
    have put: "fib_inv ?s" "fib_abs ?s = (fib_abs s)(p \<mapsto> nh_map e')"
      using Fib_put_ok [OF assms e, of e'] ok fib_invD(2) [OF assms e] a by auto
    have "nt_fib (ntree ?s) p = Some e'"
      using nt_fib_put [OF nt_fib_present [OF e]] by simp
    note er = Fib_erase_nte_ok [OF put(1) this, of False]
    have eq: "Fib_removeNextHop p face s =
        (if \<not> r then (?s, NO_SUCH_NEXTHOP)
         else if \<not> hasNextHops e' then (Fib_erase_nte p False ?s, FIB_ENTRY_REMOVED)
         else (?s, NEXTHOP_REMOVED))"
      by (simp add: Fib_removeNextHop_def e a Let_def)
    have m: "nh_map e' = (nh_map e)(face := None)" "r \<longleftrightarrow> nh_map e face \<noteq> None" "fib_entry_ok e'"
      using ok a by auto
    show ?thesis
      unfolding eq using put er by (simp add: m(2) nh_map_empty_iff [symmetric] m(1) del: fun_upd_apply)
  qed
  show "fib_inv (fst (Fib_removeNextHop p face s))"
    using * assms by (cases "nt_fib (ntree s) p") (auto simp: Fib_removeNextHop_def)
  show "Fib_removeNextHop p face s = (fst (Fib_removeNextHop p face s),
        if r face = None then NO_SUCH_NEXTHOP
        else if r(face := None) = Map.empty then FIB_ENTRY_REMOVED else NEXTHOP_REMOVED) \<and>
      fib_abs (fst (Fib_removeNextHop p face s)) =
        (if r face \<noteq> None \<and> r(face := None) = Map.empty then (fib_abs s)(p := None)
         else (fib_abs s)(p \<mapsto> r(face := None)))" if r: "fib_abs s p = Some r"
  proof -
    from r obtain e where "nt_fib (ntree s) p = Some e" "r = nh_map e" by (auto simp: fib_abs_def)
    with * show ?thesis by blast
  qed
qed

text \<open>Longest prefix match on the abstract table.\<close>

definition longest_route :: "(name \<rightharpoonup> 'r) \<Rightarrow> name \<Rightarrow> 'r option" where
  "longest_route m n =
     (case List.find (\<lambda>k. m (take k n) \<noteq> None) (rev [0 ..< Suc (length n)]) of
        Some k \<Rightarrow> m (take k n)
      | None \<Rightarrow> None)"

lemma Fib_lpm:
  assumes "fib_inv s"
  shows "Fib_findLongestPrefixMatch n s =
    (case longest_route (nt_fib (ntree s)) n of Some e \<Rightarrow> e | None \<Rightarrow> Fib_emptyEntry)"
proof -
  have sel: "nteHasFibEntry = (\<lambda>e. nte_fib e \<noteq> None)" by (simp add: nteHasFibEntry_def fun_eq_iff)
  have "map_option nte_fib (findLongestPrefixMatch n nteHasFibEntry (ntree s)) =
    map_option (\<lambda>k. nt_fib (ntree s) (take k n))
      (List.find (\<lambda>k. nt_fib (ntree s) (take k n) \<noteq> None) (rev [0 ..< Suc (length n)]))"
    unfolding sel nt_fib_def by (rule fib_att.lpm_view [OF fib_invD(1) [OF assms]]) simp
  then show ?thesis
    unfolding Fib_findLongestPrefixMatch_def Fib_result_def longest_route_def
    by (auto simp del: upt_Suc split: option.splits)
qed

lemma find_rev_upt:
  "case List.find P (rev [0 ..< Suc l]) of
     Some k \<Rightarrow> k \<le> l \<and> P k \<and> (\<forall>j. k < j \<and> j \<le> l \<longrightarrow> \<not> P j)
   | None \<Rightarrow> \<forall>k \<le> l. \<not> P k"
proof (induction l)
  case (Suc l)
  then show ?case by (auto simp: le_Suc_eq split: option.splits)
qed auto

lemma prefix_take_iff: "prefix p n \<longleftrightarrow> (\<exists>k \<le> length n. p = take k n)"
  by (metis append_eq_conv_conj nle_le prefix_def prefix_length_le take_is_prefix take_all)

lemma longest_route_Some:
  assumes "longest_route m n = Some r"
  obtains p where "prefix p n" "m p = Some r" "\<And>q. prefix q n \<Longrightarrow> m q \<noteq> None \<Longrightarrow> length q \<le> length p"
proof -
  obtain k where k: "k \<le> length n" "m (take k n) = Some r"
    "\<And>j. k < j \<Longrightarrow> j \<le> length n \<Longrightarrow> m (take j n) = None"
    using assms find_rev_upt [of "length n" "\<lambda>k. m (take k n) \<noteq> None"]
    by (auto simp: longest_route_def simp del: upt_Suc split: option.splits)
  show thesis
  proof (rule that [of "take k n"])
    show "length q \<le> length (take k n)" if q: "prefix q n" "m q \<noteq> None" for q
    proof -
      from q(1) obtain j where "j \<le> length n" "q = take j n" by (auto simp: prefix_take_iff)
      with k q(2) show ?thesis by (cases "k < j") auto
    qed
  qed (use k in \<open>auto simp: take_is_prefix\<close>)
qed

lemma longest_route_None: "longest_route m n = None \<Longrightarrow> prefix p n \<Longrightarrow> m p = None"
  using find_rev_upt [of "length n" "\<lambda>k. m (take k n) \<noteq> None"]
  by (auto simp: longest_route_def prefix_take_iff simp del: upt_Suc split: option.splits)

section \<open>Properties\<close>

definition fib_empty :: fib_state where
  "fib_empty = \<lparr>ntree = [], fib_nItems = 0\<rparr>"

lemma nt_views_Nil [simp]:
  "nt_fib [] = Map.empty" "nt_pits [] = (\<lambda>_. [])" "nt_meas [] = Map.empty" "nt_strategy [] = Map.empty"
  by (auto simp: nt_view_defs nt_find_def new_nte_def)

lemma fib_empty_inv: "fib_inv fib_empty" and fib_empty_abs: "fib_abs fib_empty = Map.empty"
  by (auto simp: fib_inv_def fib_abs_def fib_empty_def)

definition sample_fib :: fib_state where
  "sample_fib = fst (Fib_addOrUpdateNextHop [Component 8 [65]] 7 10 (fst (Fib_insert [Component 8 [65]] fib_empty)))"

lemma sample_fib_inv: "fib_inv sample_fib"
  unfolding sample_fib_def
  by (intro Fib_addOrUpdateNextHop_ok(1) Fib_insert_ok(1) fib_empty_inv) (simp add: getMaxDepth_def)

lemma sample_fib_abs: "fib_abs sample_fib = [[Component 8 [65]] \<mapsto> [7 \<mapsto> 10]]"
proof -
  let ?s = "fst (Fib_insert [Component 8 [65]] fib_empty)"
  have i: "fib_inv ?s" "fib_abs ?s = [[Component 8 [65]] \<mapsto> Map.empty]"
    using Fib_insert_ok [OF fib_empty_inv, of "[Component 8 [65]]"]
    by (simp_all add: getMaxDepth_def fib_empty_abs)
  then show ?thesis
    using Fib_addOrUpdateNextHop_ok(2) [OF i(1), of "[Component 8 [65]]" Map.empty 7 10]
    by (simp add: sample_fib_def)
qed

text \<open>
  C18: The FIB implements a map from prefixes to routes, and each route is a map from faces to
  costs. Insertion adds an empty route only where there was none; adding or updating a nexthop
  sets the cost of that face and reports whether it is new; removing a nexthop removes that face,
  reports what it did, and deletes the entry exactly when its last nexthop went; erasing deletes
  the entry.
\<close>

theorem Fib_refines_routes:
  assumes "fib_inv s" and "length p \<le> getMaxDepth"
  shows "fib_abs (fst (Fib_insert p s)) =
      (fib_abs s)(p \<mapsto> (case fib_abs s p of Some r \<Rightarrow> r | None \<Rightarrow> Map.empty)) \<and>
    (snd (Fib_insert p s) \<longleftrightarrow> fib_abs s p = None) \<and>
    (\<forall>r. fib_abs s p = Some r \<longrightarrow>
      fib_abs (fst (Fib_addOrUpdateNextHop p face cost s)) = (fib_abs s)(p \<mapsto> r(face \<mapsto> cost)) \<and>
      (snd (Fib_addOrUpdateNextHop p face cost s) \<noteq> None \<longleftrightarrow> r face = None) \<and>
      snd (Fib_removeNextHop p face s) =
        (if r face = None then NO_SUCH_NEXTHOP
         else if r(face := None) = Map.empty then FIB_ENTRY_REMOVED else NEXTHOP_REMOVED) \<and>
      fib_abs (fst (Fib_removeNextHop p face s)) =
        (if r face \<noteq> None \<and> r(face := None) = Map.empty then (fib_abs s)(p := None)
         else (fib_abs s)(p \<mapsto> r(face := None))) \<and>
      fib_abs (Fib_erase p s) = (fib_abs s)(p := None))"
proof (intro conjI allI impI)
  fix r assume r: "fib_abs s p = Some r"
  note rem = Fib_removeNextHop_ok(2) [OF assms(1) r, of face]
  show "snd (Fib_removeNextHop p face s) =
        (if r face = None then NO_SUCH_NEXTHOP
         else if r(face := None) = Map.empty then FIB_ENTRY_REMOVED else NEXTHOP_REMOVED)"
    using arg_cong [OF conjunct1 [OF rem], of snd] by (simp only: snd_conv)
  show "fib_abs (fst (Fib_removeNextHop p face s)) =
        (if r face \<noteq> None \<and> r(face := None) = Map.empty then (fib_abs s)(p := None)
         else (fib_abs s)(p \<mapsto> r(face := None)))"
    using rem by (rule conjunct2)
  show "fib_abs (Fib_erase p s) = (fib_abs s)(p := None)"
    using Fib_erase_ok(2) [OF assms(1)] r by simp
  note add = Fib_addOrUpdateNextHop_ok(2) [OF assms(1) r, of face cost]
  show "fib_abs (fst (Fib_addOrUpdateNextHop p face cost s)) = (fib_abs s)(p \<mapsto> r(face \<mapsto> cost))"
    using add by (rule conjunct1)
  show "snd (Fib_addOrUpdateNextHop p face cost s) \<noteq> None \<longleftrightarrow> r face = None"
    using add by (rule conjunct2)
qed (rule Fib_insert_ok [OF assms])+

theorem Fib_refines_routes_witness:
  "fib_abs (fst (Fib_addOrUpdateNextHop [Component 8 [65]] 8 5 sample_fib)) =
     [[Component 8 [65]] \<mapsto> [7 \<mapsto> 10, 8 \<mapsto> 5]] \<and>
   snd (Fib_removeNextHop [Component 8 [65]] 7 sample_fib) = FIB_ENTRY_REMOVED"
  using Fib_refines_routes [OF sample_fib_inv, of "[Component 8 [65]]" 8 5]
    Fib_refines_routes [OF sample_fib_inv, of "[Component 8 [65]]" 7 5]
  by (simp add: getMaxDepth_def sample_fib_abs)



text \<open>
  C20: A FIB lookup by name returns the entry of the longest prefix that has one, and the empty
  entry, which has no nexthops, exactly when no prefix of the name has an entry.
\<close>

theorem Fib_lookup_longest:
  assumes "fib_inv s"
  shows "(\<exists>p r. isPrefixOf p n \<and> fib_abs s p = Some r \<and> fe_prefix (Fib_findLongestPrefixMatch n s) = p \<and>
      nh_map (Fib_findLongestPrefixMatch n s) = r \<and>
      (\<forall>q. isPrefixOf q n \<and> fib_abs s q \<noteq> None \<longrightarrow> length q \<le> length p)) \<or>
    (\<forall>p. isPrefixOf p n \<longrightarrow> fib_abs s p = None) \<and> Fib_findLongestPrefixMatch n s = Fib_emptyEntry"
proof (cases "longest_route (nt_fib (ntree s)) n")
  case None
  then show ?thesis
    using longest_route_None [OF None] by (simp add: Fib_lpm [OF assms] fib_abs_def isPrefixOf_iff)
next
  case (Some e)
  from longest_route_Some [OF Some] obtain p where p: "prefix p n" "nt_fib (ntree s) p = Some e"
    "\<And>q. prefix q n \<Longrightarrow> nt_fib (ntree s) q \<noteq> None \<Longrightarrow> length q \<le> length p" by blast
  then show ?thesis
    using Some fib_invD(2) [OF assms p(2)]
    by (auto simp: Fib_lpm [OF assms] fib_abs_def isPrefixOf_iff intro!: exI [of _ p])
qed

theorem Fib_lookup_longest_witness:
  "nh_map (Fib_findLongestPrefixMatch [Component 8 [65], Component 8 [66]] sample_fib) 7 = Some 10"
proof -
  let ?n = "[Component 8 [65], Component 8 [66]]"
  have "isPrefixOf [Component 8 [65]] ?n" "fib_abs sample_fib [Component 8 [65]] \<noteq> None"
    by (simp_all add: isPrefixOf_iff sample_fib_abs)
  then have "\<not> (\<forall>p. isPrefixOf p ?n \<longrightarrow> fib_abs sample_fib p = None)" by metis
  then obtain p r where "fib_abs sample_fib p = Some r" "nh_map (Fib_findLongestPrefixMatch ?n sample_fib) = r"
    using Fib_lookup_longest [OF sample_fib_inv, of ?n] by (elim disjE exE conjE) auto
  moreover from this(1) have "r 7 = Some 10" by (auto simp: sample_fib_abs split: if_splits)
  ultimately show ?thesis by simp
qed

section \<open>Two deviations\<close>

text \<open>
  \<^verbatim>\<open>addOrUpdateNextHop\<close> takes its iterator before it sorts, so that the nexthop it reports as new
  need not be the new one: adding face 8 with cost 5 to an entry that has face 7 with cost 10
  reports face 7.
\<close>

theorem addOrUpdateNextHop_reports_other_face:
  "map_option nh_face (snd (Fib_addOrUpdateNextHop [Component 8 [65]] 8 5 sample_fib)) = Some 7"
  by (simp add: sample_fib_def fib_empty_def Fib_addOrUpdateNextHop_def Fib_insert_def Entry_addOrUpdateNextHop_def
      findNextHop_def sortNextHops_def Let_def nt_fib_def nt_get_def nt_update_def nt_find_def nt_lookup_def
      lookup_step_def setParent_def new_nte_def setFibEntry_def)

text \<open>
  \<^verbatim>\<open>erase(prefix)\<close> decrements the counter even if the name tree entry carries no FIB entry: on an
  empty FIB whose name tree has an entry for other reasons, the size becomes the largest
  \<^verbatim>\<open>size_t\<close>.
\<close>

theorem Fib_erase_underflow:
  "fib_nItems (Fib_erase [] \<lparr>ntree = nt_lookup [] 0 [], fib_nItems = 0\<rparr>) = - 1"
  by (simp add: Fib_erase_def findExactMatch_def Fib_erase_nte_def nt_lookup_def lookup_step_def nt_find_def
      new_nte_def getMaxDepth_def)

end
