(* ===== verification/Pit.thy ===== *)
theory Pit
  imports Fib
begin

text \<open>
  The Pending Interest Table (\<^verbatim>\<open>daemon/table/pit.cpp\<close>, \<^verbatim>\<open>pit-entry.cpp\<close>, \<^verbatim>\<open>pit-face-record.cpp\<close>,
  \<^verbatim>\<open>pit-in-record.cpp\<close>, \<^verbatim>\<open>pit-out-record.cpp\<close>). PIT entries are shared objects: they live in a store
  indexed by identities that are never reused, and an entry erased from the table stays in the
  store, detached from the name tree, as long as a caller may hold a pointer to it. The abstract
  PIT is a map from lookup keys (name with function, CanBePrefix, MustBeFresh) to identities.
\<close>

section \<open>Nacks\<close>

datatype nack_reason = NONE | CONGESTION | DUPLICATE | NO_ROUTE

fun nack_code :: "nack_reason \<Rightarrow> nat" where
  "nack_code NONE = 0"
| "nack_code CONGESTION = 50"
| "nack_code DUPLICATE = 100"
| "nack_code NO_ROUTE = 150"

definition isLessSevere :: "nack_reason \<Rightarrow> nack_reason \<Rightarrow> bool" where
  "isLessSevere x y =
     (if x = NONE then False else if y = NONE then True else nack_code x < nack_code y)"

section \<open>Face records\<close>

record face_record =
  fr_face :: face_ptr
  fr_lastNonce :: nonce
  fr_lastRenewed :: time_ns
  fr_expiry :: time_ns

record in_record = face_record +
  ir_interest :: interest

record out_record = face_record +
  or_incomingNack :: "nack_reason option"
  or_suppression :: "time_ns option"

text \<open>\<^verbatim>\<open>MAX_LIFETIME\<close>, in milliseconds.\<close>

definition MAX_LIFETIME :: int where
  "MAX_LIFETIME = 10 * 24 * 3600 * 1000"

text \<open>
  \<^verbatim>\<open>FaceRecord::update\<close> at time \<open>now\<close>. Reading the nonce of an Interest without one draws it, here
  \<open>rnd\<close>, and keeps it in the packet.
\<close>

definition FaceRecord_update :: "nonce \<Rightarrow> time_ns \<Rightarrow> interest \<Rightarrow> 'a face_record_scheme \<Rightarrow> 'a face_record_scheme" where
  "FaceRecord_update rnd now i r =
     r\<lparr>fr_lastNonce := fst (getNonce rnd i), fr_lastRenewed := now,
       fr_expiry := now + min (i_interestLifetime i) MAX_LIFETIME * 1000000\<rparr>"

definition InRecord_update :: "nonce \<Rightarrow> time_ns \<Rightarrow> interest \<Rightarrow> in_record \<Rightarrow> in_record" where
  "InRecord_update rnd now i r = (FaceRecord_update rnd now i r)\<lparr>ir_interest := snd (getNonce rnd i)\<rparr>"

text \<open>\<^verbatim>\<open>setIncomingNack\<close>: the nonce of the nacked Interest and the reason.\<close>

definition setIncomingNack :: "nonce \<Rightarrow> nack_reason \<Rightarrow> out_record \<Rightarrow> out_record \<times> bool" where
  "setIncomingNack nonce reason r =
     (if nonce \<noteq> fr_lastNonce r then (r, False) else (r\<lparr>or_incomingNack := Some reason\<rparr>, True))"

definition clearIncomingNack :: "out_record \<Rightarrow> out_record" where
  "clearIncomingNack r = r\<lparr>or_incomingNack := None\<rparr>"

definition TimePoint_min :: time_ns where
  "TimePoint_min = - (2 ^ 63)"

definition new_in_record :: "face_ptr \<Rightarrow> interest \<Rightarrow> in_record" where
  "new_in_record face i =
     \<lparr>fr_face = face, fr_lastNonce = [0, 0, 0, 0], fr_lastRenewed = TimePoint_min,
      fr_expiry = TimePoint_min, ir_interest = i\<rparr>"

definition new_out_record :: "face_ptr \<Rightarrow> out_record" where
  "new_out_record face =
     \<lparr>fr_face = face, fr_lastNonce = [0, 0, 0, 0], fr_lastRenewed = TimePoint_min,
      fr_expiry = TimePoint_min, or_incomingNack = None, or_suppression = None\<rparr>"

section \<open>Entries\<close>

text \<open>
  The strategy information the modelled strategies keep on a PIT entry, and on an out-record, is
  the suppression interval of the retransmission suppression.
\<close>

record pit_entry =
  pe_interest :: interest
  pe_inRecords :: "in_record list"
  pe_outRecords :: "out_record list"
  pe_isSatisfied :: bool
  pe_dataFreshnessPeriod :: int
  pe_expiryTimer :: "time_ns option"
  pe_suppression :: "time_ns option"
  pe_nte :: "name option"

definition PitEntry_new :: "interest \<Rightarrow> pit_entry" where
  "PitEntry_new i =
     \<lparr>pe_interest = i, pe_inRecords = [], pe_outRecords = [], pe_isSatisfied = False,
      pe_dataFreshnessPeriod = 0, pe_expiryTimer = None, pe_suppression = None, pe_nte = None\<rparr>"

text \<open>
  Both match predicates compare the names from the given position on; the assertion that the
  components before it are equal is a precondition.
\<close>

definition canMatch :: "pit_entry \<Rightarrow> interest \<Rightarrow> nat \<Rightarrow> bool" where
  "canMatch e i nEqualNameComps \<longleftrightarrow>
     Name_compare_range comp_cmp (i_name (pe_interest e)) nEqualNameComps npos (i_name i) nEqualNameComps npos = Some 0 \<and>
     i_canBePrefix (pe_interest e) = i_canBePrefix i \<and>
     i_mustBeFresh (pe_interest e) = i_mustBeFresh i"

definition canMatchWFunction :: "pit_entry \<Rightarrow> interest \<Rightarrow> nat \<Rightarrow> bool" where
  "canMatchWFunction e i nEqualNameComps \<longleftrightarrow>
     (let entryName = Interest_getNameFunction (pe_interest e);
          interestName = Interest_getNameFunction i
      in Name_compare_range comp_cmp entryName nEqualNameComps npos interestName nEqualNameComps npos = Some 0 \<and>
         i_canBePrefix (pe_interest e) = i_canBePrefix i \<and>
         i_mustBeFresh (pe_interest e) = i_mustBeFresh i)"

definition getInRecord :: "face_ptr \<Rightarrow> pit_entry \<Rightarrow> in_record option" where
  "getInRecord face e = List.find (\<lambda>r. fr_face r = face) (pe_inRecords e)"

definition insertOrUpdateInRecord :: "nonce \<Rightarrow> time_ns \<Rightarrow> face_ptr \<Rightarrow> interest \<Rightarrow> pit_entry \<Rightarrow> pit_entry" where
  "insertOrUpdateInRecord rnd now face i e =
     (let rs = (case getInRecord face e of
                  None \<Rightarrow> new_in_record face i # pe_inRecords e
                | Some _ \<Rightarrow> pe_inRecords e)
      in e\<lparr>pe_inRecords := update_first (\<lambda>r. fr_face r = face) (InRecord_update rnd now i) rs\<rparr>)"

definition deleteInRecord :: "face_ptr \<Rightarrow> pit_entry \<Rightarrow> pit_entry" where
  "deleteInRecord face e = e\<lparr>pe_inRecords := delete_first (\<lambda>r. fr_face r = face) (pe_inRecords e)\<rparr>"

definition clearInRecords :: "pit_entry \<Rightarrow> pit_entry" where
  "clearInRecords e = e\<lparr>pe_inRecords := []\<rparr>"

definition getOutRecord :: "face_ptr \<Rightarrow> pit_entry \<Rightarrow> out_record option" where
  "getOutRecord face e = List.find (\<lambda>r. fr_face r = face) (pe_outRecords e)"

definition insertOrUpdateOutRecord :: "nonce \<Rightarrow> time_ns \<Rightarrow> face_ptr \<Rightarrow> interest \<Rightarrow> pit_entry \<Rightarrow> pit_entry" where
  "insertOrUpdateOutRecord rnd now face i e =
     (let rs = (case getOutRecord face e of
                  None \<Rightarrow> new_out_record face # pe_outRecords e
                | Some _ \<Rightarrow> pe_outRecords e)
      in e\<lparr>pe_outRecords := update_first (\<lambda>r. fr_face r = face) (FaceRecord_update rnd now i) rs\<rparr>)"

definition deleteOutRecord :: "face_ptr \<Rightarrow> pit_entry \<Rightarrow> pit_entry" where
  "deleteOutRecord face e = e\<lparr>pe_outRecords := delete_first (\<lambda>r. fr_face r = face) (pe_outRecords e)\<rparr>"

section \<open>The table\<close>

record pit_state = fib_state +
  pit_heap :: "pit_id \<Rightarrow> pit_entry option"
  pit_next :: pit_id
  pit_nItems :: "64 word"

definition nteHasPitEntries :: "nte \<Rightarrow> bool" where
  "nteHasPitEntries e \<longleftrightarrow> nte_pits e \<noteq> []"

text \<open>Apply \<open>f\<close> to the PIT entry \<open>p\<close> points to.\<close>

definition pit_modify :: "pit_id \<Rightarrow> (pit_entry \<Rightarrow> pit_entry) \<Rightarrow> 'a pit_state_scheme \<Rightarrow> 'a pit_state_scheme" where
  "pit_modify p f s = s\<lparr>pit_heap := (pit_heap s)(p := map_option f (pit_heap s p))\<rparr>"

text \<open>
  \<^verbatim>\<open>findOrInsert\<close>: the pointer and the flag it returns; a newly allocated entry gets the next
  identity.
\<close>

definition findOrInsert :: "interest \<Rightarrow> bool \<Rightarrow> 'a pit_state_scheme \<Rightarrow> 'a pit_state_scheme \<times> pit_id option \<times> bool" where
  "findOrInsert i allowInsert s =
     (let n = Interest_getNameFunction i;
          nteDepth = min (length n) getMaxDepth;
          t = (if allowInsert then nt_lookup n nteDepth (ntree s) else ntree s)
      in case (if allowInsert then nt_find t (take nteDepth n) else findExactMatch n nteDepth t) of
           None \<Rightarrow> (s, None, True)
         | Some nte \<Rightarrow>
             (case List.find (\<lambda>p. case pit_heap s p of
                                    Some e \<Rightarrow> canMatchWFunction e i nteDepth
                                  | None \<Rightarrow> False) (nte_pits nte) of
                Some p \<Rightarrow> (s\<lparr>ntree := t\<rparr>, Some p, False)
              | None \<Rightarrow>
                  if \<not> allowInsert then (s, None, True)
                  else
                    let p = pit_next s in
                    (s\<lparr>ntree := nt_update (nte_name nte) (insertPitEntry p) t,
                       pit_heap := (pit_heap s)(p \<mapsto> (PitEntry_new i)\<lparr>pe_nte := Some (nte_name nte)\<rparr>),
                       pit_next := Suc p,
                       pit_nItems := pit_nItems s + 1\<rparr>, Some p, True)))"

text \<open>\<^verbatim>\<open>findAllDataMatches\<close>; matching raises an exception if it needs the digest of unencoded Data.\<close>

fun select_matches :: "(interest \<Rightarrow> packet_error + bool) \<Rightarrow> (pit_id \<Rightarrow> pit_entry option) \<Rightarrow> pit_id list
    \<Rightarrow> packet_error + pit_id list" where
  "select_matches m h [] = Inr []"
| "select_matches m h (p # ps) =
     (case h p of
        None \<Rightarrow> select_matches m h ps
      | Some e \<Rightarrow>
          (case m (pe_interest e) of
             Inl err \<Rightarrow> Inl err
           | Inr b \<Rightarrow> map_sum id (\<lambda>qs. if b then p # qs else qs) (select_matches m h ps)))"

definition findAllDataMatches :: "(bytes \<Rightarrow> bytes) \<Rightarrow> data \<Rightarrow> 'a pit_state_scheme \<Rightarrow> packet_error + pit_id list" where
  "findAllDataMatches sha d s =
     (let ntMatches = findAllMatches (Data_getNameFunction d) nteHasPitEntries (ntree s)
      in select_matches (\<lambda>i. matchesData sha i d) (pit_heap s) (concat (map nte_pits ntMatches)))"

definition Pit_erase :: "pit_id \<Rightarrow> bool \<Rightarrow> 'a pit_state_scheme \<Rightarrow> 'a pit_state_scheme" where
  "Pit_erase p canDeleteNte s =
     (case pit_heap s p of
        Some e \<Rightarrow>
          (case pe_nte e of
             Some n \<Rightarrow>
               let t = nt_update n (erasePitEntry p) (ntree s);
                   t = (if canDeleteNte then fst (eraseIfEmpty n True t) else t)
               in s\<lparr>ntree := t, pit_heap := (pit_heap s)(p \<mapsto> e\<lparr>pe_nte := None\<rparr>),
                    pit_nItems := pit_nItems s - 1\<rparr>
           | None \<Rightarrow> s)
      | None \<Rightarrow> s)"

definition deleteInOutRecords :: "pit_id \<Rightarrow> face_ptr \<Rightarrow> 'a pit_state_scheme \<Rightarrow> 'a pit_state_scheme" where
  "deleteInOutRecords p face s = pit_modify p (\<lambda>e. deleteOutRecord face (deleteInRecord face e)) s"

section \<open>In- and out-records as maps from faces\<close>

lemma find_update_first:
  assumes "\<And>x. k (g x) = k x"
  shows "List.find (\<lambda>x. k x = b) (update_first (\<lambda>x. k x = a) g xs) =
    (if b = a then map_option g (List.find (\<lambda>x. k x = a) xs) else List.find (\<lambda>x. k x = b) xs)"
  using assms by (induction xs) auto

lemma find_delete_first:
  assumes "distinct (map k xs)"
  shows "List.find (\<lambda>x. k x = b) (delete_first (\<lambda>x. k x = a) xs) =
    (if b = a then None else List.find (\<lambda>x. k x = b) xs)"
  using assms by (induction xs) (auto simp: find_None_iff' image_iff)

lemma distinct_delete_first: "distinct (map k xs) \<Longrightarrow> distinct (map k (delete_first P xs))"
  by (induction xs) (auto simp: image_iff dest: set_delete_first_subset [THEN subsetD])

lemma fr_face_update [simp]:
  "fr_face (FaceRecord_update rnd now i r) = fr_face r"
  "fr_face (InRecord_update rnd now i r') = fr_face r'"
  by (simp_all add: FaceRecord_update_def InRecord_update_def)

lemma fr_face_new [simp]:
  "fr_face (new_in_record face i) = face" "fr_face (new_out_record face) = face"
  by (simp_all add: new_in_record_def new_out_record_def)

definition pit_entry_ok :: "pit_entry \<Rightarrow> bool" where
  "pit_entry_ok e \<longleftrightarrow> distinct (map fr_face (pe_inRecords e)) \<and> distinct (map fr_face (pe_outRecords e))"

lemma getInRecord_insert:
  "getInRecord f (insertOrUpdateInRecord rnd now face i e) =
     (if f = face
      then Some (InRecord_update rnd now i (case getInRecord face e of Some r \<Rightarrow> r | None \<Rightarrow> new_in_record face i))
      else getInRecord f e)"
  by (auto simp: getInRecord_def insertOrUpdateInRecord_def Let_def find_update_first split: option.split)

lemma getOutRecord_insert:
  "getOutRecord f (insertOrUpdateOutRecord rnd now face i e) =
     (if f = face
      then Some (FaceRecord_update rnd now i (case getOutRecord face e of Some r \<Rightarrow> r | None \<Rightarrow> new_out_record face))
      else getOutRecord f e)"
  by (auto simp: getOutRecord_def insertOrUpdateOutRecord_def Let_def find_update_first split: option.split)

lemma getInRecord_delete:
  "pit_entry_ok e \<Longrightarrow> getInRecord f (deleteInRecord face e) = (if f = face then None else getInRecord f e)"
  by (simp add: getInRecord_def deleteInRecord_def find_delete_first pit_entry_ok_def)

lemma getOutRecord_delete:
  "pit_entry_ok e \<Longrightarrow> getOutRecord f (deleteOutRecord face e) = (if f = face then None else getOutRecord f e)"
  by (simp add: getOutRecord_def deleteOutRecord_def find_delete_first pit_entry_ok_def)

lemma pit_entry_ok_ops [inv_intros]:
  "pit_entry_ok e \<Longrightarrow> pit_entry_ok (insertOrUpdateInRecord rnd now face i e)"
  "pit_entry_ok e \<Longrightarrow> pit_entry_ok (insertOrUpdateOutRecord rnd now face i e)"
  "pit_entry_ok e \<Longrightarrow> pit_entry_ok (deleteInRecord face e)"
  "pit_entry_ok e \<Longrightarrow> pit_entry_ok (deleteOutRecord face e)"
  "pit_entry_ok e \<Longrightarrow> pit_entry_ok (clearInRecords e)"
  "pit_entry_ok (PitEntry_new i')"
proof -
  show "pit_entry_ok e \<Longrightarrow> pit_entry_ok (insertOrUpdateInRecord rnd now face i e)"
    by (auto simp: pit_entry_ok_def insertOrUpdateInRecord_def getInRecord_def Let_def map_key_update_first
        find_None_iff' split: option.split)
  show "pit_entry_ok e \<Longrightarrow> pit_entry_ok (insertOrUpdateOutRecord rnd now face i e)"
    by (auto simp: pit_entry_ok_def insertOrUpdateOutRecord_def getOutRecord_def Let_def map_key_update_first
        find_None_iff' split: option.split)
qed (auto simp: pit_entry_ok_def deleteInRecord_def deleteOutRecord_def clearInRecords_def PitEntry_new_def
    distinct_delete_first)

text \<open>What identifies an entry and where it is attached is not changed by record operations.\<close>

lemma record_ops_keep [simp]:
  "pe_interest (insertOrUpdateInRecord rnd now face i e) = pe_interest e"
  "pe_interest (insertOrUpdateOutRecord rnd now face i e) = pe_interest e"
  "pe_interest (deleteInRecord face e) = pe_interest e"
  "pe_interest (deleteOutRecord face e) = pe_interest e"
  "pe_interest (clearInRecords e) = pe_interest e"
  "pe_nte (insertOrUpdateInRecord rnd now face i e) = pe_nte e"
  "pe_nte (insertOrUpdateOutRecord rnd now face i e) = pe_nte e"
  "pe_nte (deleteInRecord face e) = pe_nte e"
  "pe_nte (deleteOutRecord face e) = pe_nte e"
  "pe_nte (clearInRecords e) = pe_nte e"
  by (simp_all add: insertOrUpdateInRecord_def insertOrUpdateOutRecord_def deleteInRecord_def
      deleteOutRecord_def clearInRecords_def Let_def)

section \<open>Keys\<close>

type_synonym pit_key = "name \<times> bool \<times> bool"

definition interest_key :: "interest \<Rightarrow> pit_key" where
  "interest_key i = (Interest_getNameFunction i, i_canBePrefix i, i_mustBeFresh i)"

text \<open>Names fit the \<^verbatim>\<open>int\<close> arithmetic of \<^verbatim>\<open>Name::compare\<close>.\<close>

definition interest_small :: "interest \<Rightarrow> bool" where
  "interest_small i \<longleftrightarrow> length (i_name i) + length (i_function i) < 2 ^ 31"

lemma interest_small_name:
  assumes "interest_small i"
  shows "Interest_getNameFunction i = strip_digest (i_name i) @ i_function i"
    and "length (Interest_getNameFunction i) < 2 ^ 31"
proof -
  have "length (i_name i) < 2 ^ 64" using assms by (simp add: interest_small_def)
  then show n: "Interest_getNameFunction i = strip_digest (i_name i) @ i_function i"
    by (simp add: Interest_getNameFunction_def nameFunction_eq)
  show "length (Interest_getNameFunction i) < 2 ^ 31"
    unfolding n using assms by (auto simp: strip_digest_def interest_small_def)
qed

lemma name_cmp_0: "name_cmp a b = 0 \<longleftrightarrow> a = b"
  by (rule name_order.cmp_eq_0)

lemma canMatchWFunction_iff:
  assumes "interest_small (pe_interest e)" "interest_small i"
    and d: "d \<le> length (Interest_getNameFunction (pe_interest e))" "d \<le> length (Interest_getNameFunction i)"
    and "take d (Interest_getNameFunction (pe_interest e)) = take d (Interest_getNameFunction i)"
  shows "canMatchWFunction e i d \<longleftrightarrow> interest_key (pe_interest e) = interest_key i"
proof -
  let ?a = "Interest_getNameFunction (pe_interest e)" and ?b = "Interest_getNameFunction i"
  have l: "length ?a < 2 ^ 31" "length ?b < 2 ^ 31" using assms(1,2) by (simp_all only: interest_small_name(2))
  have t: "take npos (drop d ?a) = drop d ?a" "take npos (drop d ?b) = drop d ?b"
    using l by (auto simp: npos_def)
  have "Name_compare_range comp_cmp ?a d npos ?b d npos = Some (name_cmp (drop d ?a) (drop d ?b))"
    unfolding Name_compare_range_eq [OF l d] name_cmp_def t ..
  moreover have "drop d ?a = drop d ?b \<longleftrightarrow> ?a = ?b"
    using assms(5) by (metis append_take_drop_id)
  ultimately show ?thesis
    by (simp add: canMatchWFunction_def interest_key_def Let_def name_cmp_0)
qed

section \<open>The table as a map from keys\<close>

text \<open>The entries that are attached to the name tree.\<close>

definition pit_live :: "(pit_id \<Rightarrow> pit_entry option) \<Rightarrow> pit_id \<Rightarrow> pit_entry option" where
  "pit_live h p = (case h p of Some e \<Rightarrow> if pe_nte e \<noteq> None then Some e else None | None \<Rightarrow> None)"

lemma pit_live_Some: "pit_live h p = Some e \<longleftrightarrow> h p = Some e \<and> pe_nte e \<noteq> None"
  by (auto simp: pit_live_def split: option.splits)

lemma pit_live_upd:
  "pit_live (h(p \<mapsto> e)) = (pit_live h)(p := if pe_nte e \<noteq> None then Some e else None)"
  by (auto simp: pit_live_def fun_eq_iff)

text \<open>
  The invariant, over the view of the name tree: an entry is listed exactly at the name tree entry
  it points back to, which is the one its Interest is looked up at; no two attached entries have
  the same key; identities are fresh; the records of an entry have distinct faces; the counter is
  the number of attached entries.
\<close>

definition pit_ok :: "(name \<Rightarrow> pit_id list) \<Rightarrow> (pit_id \<Rightarrow> pit_entry option) \<Rightarrow> pit_id \<Rightarrow> 64 word \<Rightarrow> bool" where
  "pit_ok v h nx nItems \<longleftrightarrow>
     (\<forall>n. distinct (v n)) \<and>
     (\<forall>p n. p \<in> set (v n) \<longleftrightarrow> (\<exists>e. h p = Some e \<and> pe_nte e = Some n)) \<and>
     (\<forall>p e. h p = Some e \<longrightarrow> p < nx \<and> pit_entry_ok e \<and> interest_small (pe_interest e) \<and>
        (\<forall>n. pe_nte e = Some n \<longrightarrow> n = take getMaxDepth (Interest_getNameFunction (pe_interest e)))) \<and>
     (\<forall>p q e f. pit_live h p = Some e \<longrightarrow> pit_live h q = Some f \<longrightarrow>
        interest_key (pe_interest e) = interest_key (pe_interest f) \<longrightarrow> p = q) \<and>
     nItems = of_nat (card (dom (pit_live h)))"

definition pit_inv :: "'a pit_state_scheme \<Rightarrow> bool" where
  "pit_inv s \<longleftrightarrow> nt_inv (ntree s) \<and> pit_ok (nt_pits (ntree s)) (pit_heap s) (pit_next s) (pit_nItems s)"

lemma pit_okD:
  assumes "pit_ok v h nx k"
  shows "distinct (v n)" "p \<in> set (v n) \<longleftrightarrow> (\<exists>e. h p = Some e \<and> pe_nte e = Some n)"
    "h p = Some e \<Longrightarrow> p < nx" "h p = Some e \<Longrightarrow> pit_entry_ok e"
    "h p = Some e \<Longrightarrow> interest_small (pe_interest e)"
    "h p = Some e \<Longrightarrow> pe_nte e = Some n \<Longrightarrow> n = take getMaxDepth (Interest_getNameFunction (pe_interest e))"
    "pit_live h p = Some e \<Longrightarrow> pit_live h q = Some f \<Longrightarrow>
       interest_key (pe_interest e) = interest_key (pe_interest f) \<Longrightarrow> p = q"
    "k = of_nat (card (dom (pit_live h)))"
  using assms unfolding pit_ok_def by blast+

lemma finite_pit_live: "pit_ok v h nx k \<Longrightarrow> finite (dom (pit_live h))"
proof (rule finite_subset [of _ "{..< nx}"])
  assume ok: "pit_ok v h nx k"
  show "dom (pit_live h) \<subseteq> {..< nx}"
    using pit_okD(3) [OF ok] by (auto simp: pit_live_Some)
qed simp

definition pit_abs :: "'a pit_state_scheme \<Rightarrow> pit_key \<Rightarrow> pit_id option" where
  "pit_abs s k =
     List.find (\<lambda>p. case pit_heap s p of Some e \<Rightarrow> interest_key (pe_interest e) = k | None \<Rightarrow> False)
       (nt_pits (ntree s) (take getMaxDepth (fst k)))"

lemma pit_abs_Some:
  assumes "pit_ok (nt_pits (ntree s)) (pit_heap s) nx k"
  shows "pit_abs s key = Some p \<longleftrightarrow>
    (\<exists>e. pit_live (pit_heap s) p = Some e \<and> interest_key (pe_interest e) = key)"
    (is "?L \<longleftrightarrow> ?R")
proof
  assume ?L
  then show ?R unfolding pit_abs_def
    using pit_okD(2) [OF assms, of p "take getMaxDepth (fst key)"]
    by (auto dest!: find_SomeD simp: pit_live_Some split: option.splits)
next
  let ?Q = "\<lambda>p. case pit_heap s p of Some e \<Rightarrow> interest_key (pe_interest e) = key | None \<Rightarrow> False"
  let ?l = "nt_pits (ntree s) (take getMaxDepth (fst key))"
  assume ?R
  then obtain e where e: "pit_live (pit_heap s) p = Some e" "interest_key (pe_interest e) = key" by blast
  then obtain n where n: "pit_heap s p = Some e" "pe_nte e = Some n" by (auto simp: pit_live_Some)
  have "p \<in> set ?l"
    using pit_okD(2) [OF assms, of p n] pit_okD(6) [OF assms n] n e(2) by (auto simp: interest_key_def)
  moreover have "?Q p" using n e by simp
  ultimately obtain q where q: "List.find ?Q ?l = Some q" by (fastforce simp: find_None_iff' not_None_eq [symmetric])
  then have "q \<in> set ?l" "?Q q" by (auto dest!: find_SomeD)
  then obtain f where "pit_live (pit_heap s) q = Some f" "interest_key (pe_interest f) = key"
    using pit_okD(2) [OF assms, of q "take getMaxDepth (fst key)"] by (auto simp: pit_live_Some split: option.splits)
  with e pit_okD(7) [OF assms] have "q = p" by metis
  with q show ?L by (simp add: pit_abs_def)
qed

lemma pit_abs_eqI:
  assumes "pit_ok (nt_pits (ntree s)) (pit_heap s) nx k"
    and "\<And>p key. (\<exists>e. pit_live (pit_heap s) p = Some e \<and> interest_key (pe_interest e) = key) \<longleftrightarrow> m key = Some p"
  shows "pit_abs s = m"
proof
  fix key show "pit_abs s key = m key"
    using pit_abs_Some [OF assms(1), of key] assms(2) [of _ key] by (metis option.exhaust)
qed

text \<open>Attaching a new entry, detaching one, and changing the records of one.\<close>

lemma pit_ok_attach:
  assumes ok: "pit_ok v h nx k" and "interest_small i"
    and fresh: "\<And>p e. pit_live h p = Some e \<Longrightarrow> interest_key (pe_interest e) \<noteq> interest_key i"
    and n: "n = take getMaxDepth (Interest_getNameFunction i)"
  shows "pit_ok (v(n := v n @ [nx])) (h(nx \<mapsto> (PitEntry_new i)\<lparr>pe_nte := Some n\<rparr>)) (Suc nx) (k + 1)"
proof -
  have new: "h nx = None" using pit_okD(3) [OF ok, of nx] by (cases "h nx") auto
  then have nin: "nx \<notin> set (v m)" for m using pit_okD(2) [OF ok, of nx m] by simp
  have eok: "pit_entry_ok ((PitEntry_new i)\<lparr>pe_nte := Some n\<rparr>)"
    by (simp add: pit_entry_ok_def PitEntry_new_def)
  have live: "pit_live h nx = None" using new by (simp add: pit_live_def)
  show ?thesis
    unfolding pit_ok_def
  proof (intro conjI)
    show "k + 1 = of_nat (card (dom (pit_live (h(nx \<mapsto> (PitEntry_new i)\<lparr>pe_nte := Some n\<rparr>)))))"
      using pit_okD(8) [OF ok] finite_pit_live [OF ok] live by (simp add: pit_live_upd domIff)
    show "\<forall>m. distinct ((v(n := v n @ [nx])) m)" using pit_okD(1) [OF ok] nin by simp
    show "\<forall>p m. p \<in> set ((v(n := v n @ [nx])) m) \<longleftrightarrow>
        (\<exists>e. (h(nx \<mapsto> (PitEntry_new i)\<lparr>pe_nte := Some n\<rparr>)) p = Some e \<and> pe_nte e = Some m)"
      using pit_okD(2) [OF ok] nin by auto
    show "\<forall>p q e f. pit_live (h(nx \<mapsto> (PitEntry_new i)\<lparr>pe_nte := Some n\<rparr>)) p = Some e \<longrightarrow>
        pit_live (h(nx \<mapsto> (PitEntry_new i)\<lparr>pe_nte := Some n\<rparr>)) q = Some f \<longrightarrow>
        interest_key (pe_interest e) = interest_key (pe_interest f) \<longrightarrow> p = q"
      using pit_okD(7) [OF ok] fresh fresh [THEN not_sym] unfolding pit_live_upd
      by (auto simp: PitEntry_new_def)
  qed (use pit_okD(3-6) [OF ok] eok assms(2) n in \<open>auto simp: PitEntry_new_def less_Suc_eq\<close>)
qed

lemma update_first_id: "(\<And>x. x \<in> set xs \<Longrightarrow> \<not> P x) \<Longrightarrow> update_first P f xs = xs"
  by (induction xs) auto

lemma swap_pop:
  assumes "distinct xs" "p \<in> set xs"
  shows "distinct (butlast (update_first (\<lambda>q. q = p) (\<lambda>_. last xs) xs)) \<and>
    set (butlast (update_first (\<lambda>q. q = p) (\<lambda>_. last xs) xs)) = set xs - {p}"
proof -
  obtain as bs where xs: "xs = as @ p # bs" using assms(2) by (auto dest: split_list)
  then have u: "update_first (\<lambda>q. q = p) (\<lambda>_. last xs) xs = as @ last (p # bs) # bs"
    using assms(1) by (induction as arbitrary: xs) auto
  show ?thesis
  proof (cases bs rule: rev_cases)
    case Nil
    then show ?thesis unfolding u using assms(1) xs by auto
  next
    case (snoc cs b)
    then have "butlast (update_first (\<lambda>q. q = p) (\<lambda>_. last xs) xs) = as @ b # cs"
      unfolding u by (simp add: butlast_append)
    then show ?thesis using assms(1) xs snoc by auto
  qed
qed

lemma pit_ok_detach:
  assumes ok: "pit_ok v h nx k" and e: "h p = Some e" "pe_nte e = Some n"
  shows "pit_ok (v(n := butlast (update_first (\<lambda>q. q = p) (\<lambda>_. last (v n)) (v n))))
    (h(p \<mapsto> e\<lparr>pe_nte := None\<rparr>)) nx (k - 1)"
proof -
  have p: "p \<in> set (v n)" using pit_okD(2) [OF ok, of p n] e by simp
  note sp = swap_pop [OF pit_okD(1) [OF ok] p]
  have live: "pit_live h p = Some e" using e by (simp add: pit_live_Some)
  have eok: "pit_entry_ok (e\<lparr>pe_nte := None\<rparr>)"
    using pit_okD(4) [OF ok e(1)] by (simp add: pit_entry_ok_def)
  show ?thesis
    unfolding pit_ok_def
  proof (intro conjI)
    show "k - 1 = of_nat (card (dom (pit_live (h(p \<mapsto> e\<lparr>pe_nte := None\<rparr>)))))"
      using pit_okD(8) [OF ok] word_card_dom_delete [OF finite_pit_live [OF ok] live] by (simp add: pit_live_upd)
    show "\<forall>q m. q \<in> set ((v(n := butlast (update_first (\<lambda>q. q = p) (\<lambda>_. last (v n)) (v n)))) m) \<longleftrightarrow>
        (\<exists>f. (h(p \<mapsto> e\<lparr>pe_nte := None\<rparr>)) q = Some f \<and> pe_nte f = Some m)"
      using sp pit_okD(2) [OF ok] e by auto
    show "\<forall>p' q e' f. pit_live (h(p \<mapsto> e\<lparr>pe_nte := None\<rparr>)) p' = Some e' \<longrightarrow>
        pit_live (h(p \<mapsto> e\<lparr>pe_nte := None\<rparr>)) q = Some f \<longrightarrow>
        interest_key (pe_interest e') = interest_key (pe_interest f) \<longrightarrow> p' = q"
      using pit_okD(7) [OF ok] unfolding pit_live_upd by auto
  qed (use sp pit_okD(1,3-6) [OF ok] eok e in auto)
qed

text \<open>An update of an entry that keeps its identity, its place and its records well formed.\<close>

definition keeps_identity :: "(pit_entry \<Rightarrow> pit_entry) \<Rightarrow> bool" where
  "keeps_identity f \<longleftrightarrow> (\<forall>e. pe_interest (f e) = pe_interest e \<and>
     pe_nte (f e) = pe_nte e \<and> (pit_entry_ok e \<longrightarrow> pit_entry_ok (f e)))"

lemma pit_ok_modify:
  assumes ok: "pit_ok v h nx k" and f: "keeps_identity f"
  shows "pit_ok v (h(p := map_option f (h p))) nx k"
proof (cases "h p")
  case (Some e)
  have k: "interest_key (pe_interest (f e)) = interest_key (pe_interest e)" "pe_nte (f e) = pe_nte e"
    "pit_entry_ok (f e)" "interest_small (pe_interest (f e))"
    "Interest_getNameFunction (pe_interest (f e)) = Interest_getNameFunction (pe_interest e)"
    using f pit_okD(4,5) [OF ok Some] by (auto simp: keeps_identity_def interest_key_def interest_small_def)
  have live: "pit_live (h(p \<mapsto> f e)) = (if pe_nte e \<noteq> None then (pit_live h)(p \<mapsto> f e) else pit_live h)"
    using Some k(2) by (auto simp: pit_live_upd pit_live_def fun_eq_iff)
  have dom: "dom (pit_live (h(p \<mapsto> f e))) = dom (pit_live h)"
    using Some by (auto simp: live pit_live_def dom_def split: if_splits)
  have "pit_ok v (h(p \<mapsto> f e)) nx k"
    unfolding pit_ok_def
  proof (intro conjI)
    show "k = of_nat (card (dom (pit_live (h(p \<mapsto> f e)))))" unfolding dom by (rule pit_okD(8) [OF ok])
    show "\<forall>q m. q \<in> set (v m) \<longleftrightarrow> (\<exists>g. (h(p \<mapsto> f e)) q = Some g \<and> pe_nte g = Some m)"
      using pit_okD(2) [OF ok] Some k(2) by auto
    show "\<forall>q r g g'. pit_live (h(p \<mapsto> f e)) q = Some g \<longrightarrow> pit_live (h(p \<mapsto> f e)) r = Some g' \<longrightarrow>
        interest_key (pe_interest g) = interest_key (pe_interest g') \<longrightarrow> q = r"
    proof (intro allI impI)
      fix q r g g'
      assume a: "pit_live (h(p \<mapsto> f e)) q = Some g" "pit_live (h(p \<mapsto> f e)) r = Some g'"
        "interest_key (pe_interest g) = interest_key (pe_interest g')"
      have *: "\<exists>g0. pit_live h q = Some g0 \<and> interest_key (pe_interest g0) = interest_key (pe_interest g)"
        if "pit_live (h(p \<mapsto> f e)) q = Some g" for q g
        using that Some k(1,2) by (auto simp: pit_live_Some split: if_splits)
      from * [OF a(1)] * [OF a(2)] a(3) show "q = r" using pit_okD(7) [OF ok] by metis
    qed
  qed (use pit_okD(1,3-6) [OF ok] k Some in auto)
  with Some show ?thesis by simp
qed (use ok in \<open>simp add: fun_upd_idem\<close>)

lemma keeps_identity_ops [inv_intros]:
  "keeps_identity (insertOrUpdateInRecord rnd now face i)"
  "keeps_identity (insertOrUpdateOutRecord rnd now face i)"
  "keeps_identity (deleteInRecord face)"
  "keeps_identity (deleteOutRecord face)"
  "keeps_identity clearInRecords"
  "keeps_identity (\<lambda>e. e\<lparr>pe_isSatisfied := b\<rparr>)"
  "keeps_identity (\<lambda>e. e\<lparr>pe_dataFreshnessPeriod := m\<rparr>)"
  "keeps_identity (\<lambda>e. e\<lparr>pe_expiryTimer := x\<rparr>)"
  "keeps_identity (\<lambda>e. e\<lparr>pe_suppression := x\<rparr>)"
  by (auto simp: keeps_identity_def pit_entry_ok_ops) (auto simp: pit_entry_ok_def)

lemma keeps_identity_comp:
  "keeps_identity f \<Longrightarrow> keeps_identity g \<Longrightarrow> keeps_identity (\<lambda>e. f (g e))"
  by (simp add: keeps_identity_def)

lemma pit_inv_modify [inv_intros]: "pit_inv s \<Longrightarrow> keeps_identity f \<Longrightarrow> pit_inv (pit_modify p f s)"
  by (simp add: pit_inv_def pit_modify_def pit_ok_modify)

lemma nt_pits_insert [table_simps]:
  "nt_find t n \<noteq> None \<Longrightarrow> nt_pits (nt_update n (insertPitEntry p) t) = (nt_pits t)(n := nt_pits t n @ [p])"
  by (auto simp: nt_pits_def nt_get_update insertPitEntry_def)

lemma nt_pits_erase [table_simps]:
  "nt_find t n \<noteq> None \<Longrightarrow> nt_pits (nt_update n (erasePitEntry p) t) =
     (nt_pits t)(n := butlast (update_first (\<lambda>q. q = p) (\<lambda>_. last (nt_pits t n)) (nt_pits t n)))"
  by (auto simp: nt_pits_def nt_get_update erasePitEntry_def)

lemma nt_pits_present: "nt_pits t n \<noteq> [] \<Longrightarrow> nt_find t n \<noteq> None"
  using pit_att.get_absent [of t n] by (auto simp: nt_pits_def)

lemma nt_inv_pit_ops [inv_intros]:
  "nt_inv t \<Longrightarrow> nt_inv (nt_update n (insertPitEntry p) t)"
  "nt_inv t \<Longrightarrow> nt_inv (nt_update n (erasePitEntry p) t)"
  by (auto intro!: nt_inv_update simp: insertPitEntry_def erasePitEntry_def)

lemma nt_other_pit_ops [table_simps]:
  "nt_fib (nt_update n (insertPitEntry p) t) = nt_fib t" "nt_fib (nt_update n (erasePitEntry p) t) = nt_fib t"
  "nt_meas (nt_update n (insertPitEntry p) t) = nt_meas t" "nt_meas (nt_update n (erasePitEntry p) t) = nt_meas t"
  "nt_strategy (nt_update n (insertPitEntry p) t) = nt_strategy t"
  "nt_strategy (nt_update n (erasePitEntry p) t) = nt_strategy t"
  by (auto simp: nt_fib_def nt_meas_def nt_strategy_def nt_get_update_cases insertPitEntry_def erasePitEntry_def)

lemma nt_pits_lookup [table_simps]: "k \<le> length n \<Longrightarrow> nt_pits (nt_lookup n k t) = nt_pits t"
  by (rule same_attachedD [OF same_attached_lookup])

lemma nt_pits_eraseIfEmpty [table_simps]: "nt_inv t \<Longrightarrow> nt_pits (fst (eraseIfEmpty n anc t)) = nt_pits t"
  by (rule same_attachedD [OF eraseIfEmpty_attached])

lemma nt_pits_find: "nt_find t n = Some e \<Longrightarrow> nt_pits t n = nte_pits e"
  by (simp add: nt_pits_def nt_get_def)

lemma fst_interest_key: "fst (interest_key i) = Interest_getNameFunction i"
  by (simp add: interest_key_def)

text \<open>The search among the entries of a name tree entry is the search for the key.\<close>

lemma find_canMatch:
  assumes ok: "pit_ok (nt_pits (ntree s)) (pit_heap s) nx k" and i: "interest_small i"
  shows "List.find (\<lambda>p. case pit_heap s p of
        Some e \<Rightarrow> canMatchWFunction e i (min (length (Interest_getNameFunction i)) getMaxDepth) | None \<Rightarrow> False)
      (nt_pits (ntree s) (take getMaxDepth (Interest_getNameFunction i))) = pit_abs s (interest_key i)"
  unfolding pit_abs_def fst_interest_key
proof (rule find_cong [OF refl])
  let ?n = "Interest_getNameFunction i"
  fix p assume "p \<in> set (nt_pits (ntree s) (take getMaxDepth ?n))"
  then obtain e where e: "pit_heap s p = Some e" "pe_nte e = Some (take getMaxDepth ?n)"
    using pit_okD(2) [OF ok] by blast
  let ?m = "Interest_getNameFunction (pe_interest e)"
  have t: "take getMaxDepth ?m = take getMaxDepth ?n" using pit_okD(6) [OF ok e] by simp
  then have "min (length ?m) getMaxDepth = min (length ?n) getMaxDepth" by (metis length_take)
  moreover from t have "take (min (length ?n) getMaxDepth) ?m = take (min (length ?n) getMaxDepth) ?n"
    by (metis take_take take_all_iff order_refl calculation min.commute)
  ultimately have "canMatchWFunction e i (min (length ?n) getMaxDepth) \<longleftrightarrow>
      interest_key (pe_interest e) = interest_key i"
    using pit_okD(5) [OF ok e(1)] i by (intro canMatchWFunction_iff) (auto simp: min_def split: if_splits)
  with e show "(case pit_heap s p of
        Some e \<Rightarrow> canMatchWFunction e i (min (length ?n) getMaxDepth) | None \<Rightarrow> False) =
      (case pit_heap s p of Some e \<Rightarrow> interest_key (pe_interest e) = interest_key i | None \<Rightarrow> False)"
    by simp
qed

lemma nt_lookup_at:
  "nt_inv t \<Longrightarrow> k \<le> length n \<Longrightarrow> k \<le> getMaxDepth \<Longrightarrow> nt_find (nt_lookup n k t) (take k n) \<noteq> None"
  using nt_lookup_inv_names [of t k n] by blast

lemma take_min: "take (min (length xs) d) xs = take d xs"
  by (simp add: min_def)

lemma findOrInsert_insert:
  assumes "pit_inv s" "interest_small i"
  defines "n \<equiv> Interest_getNameFunction i"
  shows "findOrInsert i True s =
    (let t = nt_lookup n (min (length n) getMaxDepth) (ntree s) in
     case pit_abs s (interest_key i) of
       Some p \<Rightarrow> (s\<lparr>ntree := t\<rparr>, Some p, False)
     | None \<Rightarrow> (s\<lparr>ntree := nt_update (take getMaxDepth n) (insertPitEntry (pit_next s)) t,
         pit_heap := (pit_heap s)(pit_next s \<mapsto> (PitEntry_new i)\<lparr>pe_nte := Some (take getMaxDepth n)\<rparr>),
         pit_next := Suc (pit_next s), pit_nItems := pit_nItems s + 1\<rparr>, Some (pit_next s), True))"
proof -
  let ?d = "min (length n) getMaxDepth" and ?t = "nt_lookup n (min (length n) getMaxDepth) (ntree s)"
  have inv: "nt_inv (ntree s)" "pit_ok (nt_pits (ntree s)) (pit_heap s) (pit_next s) (pit_nItems s)"
    using assms(1) by (auto simp: pit_inv_def)
  obtain e where e: "nt_find ?t (take ?d n) = Some e"
    using nt_lookup_at [OF inv(1), of ?d n] by auto
  have pits: "nte_pits e = nt_pits (ntree s) (take getMaxDepth n)"
    using nt_pits_find [OF e] nt_pits_lookup [of ?d n] by (simp add: take_min)
  have "nte_name e = take getMaxDepth n" using nt_find_name [OF e] by (simp add: take_min)
  then show ?thesis
    using find_canMatch [OF inv(2) assms(2), folded n_def] e
    by (cases "pit_abs s (interest_key i)") (simp_all add: findOrInsert_def Let_def n_def [symmetric] pits)
qed

lemma findOrInsert_find:
  assumes "pit_inv s" "interest_small i"
  shows "findOrInsert i False s =
    (case pit_abs s (interest_key i) of Some p \<Rightarrow> (s, Some p, False) | None \<Rightarrow> (s, None, True))"
proof -
  let ?n = "Interest_getNameFunction i" and ?d = "min (length (Interest_getNameFunction i)) getMaxDepth"
  have inv: "pit_ok (nt_pits (ntree s)) (pit_heap s) (pit_next s) (pit_nItems s)"
    using assms(1) by (auto simp: pit_inv_def)
  have f: "findExactMatch ?n ?d (ntree s) = nt_find (ntree s) (take getMaxDepth ?n)"
    by (simp add: findExactMatch_def Let_def take_min)
  show ?thesis
  proof (cases "nt_find (ntree s) (take getMaxDepth ?n)")
    case None
    then have "nt_pits (ntree s) (take getMaxDepth ?n) = []" using nt_pits_present by blast
    then have "pit_abs s (interest_key i) = None" by (simp add: pit_abs_def interest_key_def)
    with None f show ?thesis by (simp add: findOrInsert_def)
  next
    case (Some e)
    show ?thesis
      using find_canMatch [OF inv assms(2)] nt_pits_find [OF Some] f Some
      by (cases "pit_abs s (interest_key i)") (simp_all add: findOrInsert_def Let_def)
  qed
qed

lemma findOrInsert_inv [inv_intros]:
  assumes "pit_inv s" "interest_small i"
  shows "pit_inv (fst (findOrInsert i b s))"
proof (cases b)
  case True
  let ?n = "Interest_getNameFunction i" and ?d = "min (length (Interest_getNameFunction i)) getMaxDepth"
  let ?t = "nt_lookup ?n ?d (ntree s)"
  have inv: "nt_inv (ntree s)" "pit_ok (nt_pits (ntree s)) (pit_heap s) (pit_next s) (pit_nItems s)"
    using assms(1) by (auto simp: pit_inv_def)
  have t: "nt_inv ?t" "nt_pits ?t = nt_pits (ntree s)" "nt_find ?t (take getMaxDepth ?n) \<noteq> None"
    using inv(1) nt_lookup_at [OF inv(1), of ?d ?n] by (auto intro: nt_lookup_inv simp: nt_pits_lookup take_min)
  show ?thesis
  proof (cases "pit_abs s (interest_key i)")
    case None
    then have fresh: "interest_key (pe_interest e) \<noteq> interest_key i" if "pit_live (pit_heap s) p = Some e" for p e
      using that pit_abs_Some [OF inv(2), of "interest_key i" p] by auto
    from pit_ok_attach [OF inv(2) assms(2) fresh refl] t None True show ?thesis
      by (simp add: findOrInsert_insert [OF assms] Let_def pit_inv_def nt_pits_insert nt_inv_pit_ops)
  qed (use True t inv in \<open>simp add: findOrInsert_insert [OF assms] Let_def pit_inv_def\<close>)
next
  case False
  then show ?thesis using assms(1) by (simp add: findOrInsert_find [OF assms] split: option.split)
qed

lemma findOrInsert_abs:
  assumes "pit_inv s" "interest_small i"
  obtains p where "fst (snd (findOrInsert i True s)) = Some p"
    "snd (snd (findOrInsert i True s)) \<longleftrightarrow> pit_abs s (interest_key i) = None"
    "pit_abs (fst (findOrInsert i True s)) = (pit_abs s)(interest_key i \<mapsto> p)"
    "pit_abs s (interest_key i) = None \<longrightarrow>
      pit_heap (fst (findOrInsert i True s)) p =
        Some ((PitEntry_new i)\<lparr>pe_nte := Some (take getMaxDepth (Interest_getNameFunction i))\<rparr>)"
    "q \<noteq> p \<or> pit_abs s (interest_key i) \<noteq> None \<longrightarrow> pit_heap (fst (findOrInsert i True s)) q = pit_heap s q"
proof -
  let ?s = "fst (findOrInsert i True s)"
  have ok: "pit_ok (nt_pits (ntree s)) (pit_heap s) (pit_next s) (pit_nItems s)"
    using assms(1) by (auto simp: pit_inv_def)
  have ok': "pit_ok (nt_pits (ntree ?s)) (pit_heap ?s) (pit_next ?s) (pit_nItems ?s)"
    using findOrInsert_inv [OF assms, of True] by (auto simp: pit_inv_def)
  show thesis
  proof (cases "pit_abs s (interest_key i)")
    case None
    have h: "pit_heap ?s = (pit_heap s)(pit_next s \<mapsto>
        (PitEntry_new i)\<lparr>pe_nte := Some (take getMaxDepth (Interest_getNameFunction i))\<rparr>)"
      using None by (simp add: findOrInsert_insert [OF assms] Let_def)
    have "pit_live (pit_heap s) (pit_next s) = None"
      using pit_okD(3) [OF ok, of "pit_next s"] by (auto simp: pit_live_def split: option.splits)
    moreover have "interest_key (pe_interest e) \<noteq> interest_key i" if "pit_live (pit_heap s) p = Some e" for p e
      using that None pit_abs_Some [OF ok, of "interest_key i" p] by auto
    ultimately have "(\<exists>e. pit_live (pit_heap ?s) p = Some e \<and> interest_key (pe_interest e) = key) \<longleftrightarrow>
        ((pit_abs s)(interest_key i \<mapsto> pit_next s)) key = Some p" for p key
      using pit_abs_Some [OF ok, of key p] by (auto simp: h pit_live_upd PitEntry_new_def)
    then have "pit_abs ?s = (pit_abs s)(interest_key i \<mapsto> pit_next s)"
      by (rule pit_abs_eqI [OF ok'])
    with None h show thesis
      by (intro that [of "pit_next s"]) (auto simp: findOrInsert_insert [OF assms] Let_def)
  next
    case (Some p)
    have h: "pit_heap ?s = pit_heap s" using Some by (simp add: findOrInsert_insert [OF assms] Let_def)
    have "pit_abs ?s = (pit_abs s)(interest_key i \<mapsto> p)"
      using pit_abs_Some [OF ok] by (intro pit_abs_eqI [OF ok']) (simp add: h fun_upd_idem [of "pit_abs s", OF Some])
    with Some h show thesis
      by (intro that [of p]) (auto simp: findOrInsert_insert [OF assms] Let_def)
  qed
qed

lemma Pit_erase_inv [inv_intros]:
  assumes "pit_inv s"
  shows "pit_inv (Pit_erase p del s)"
proof -
  have inv: "nt_inv (ntree s)" "pit_ok (nt_pits (ntree s)) (pit_heap s) (pit_next s) (pit_nItems s)"
    using assms(1) by (auto simp: pit_inv_def)
  show ?thesis
  proof (cases "\<exists>e n. pit_heap s p = Some e \<and> pe_nte e = Some n")
    case True
    then obtain e n where e: "pit_heap s p = Some e" "pe_nte e = Some n" by blast
    then have "nt_find (ntree s) n \<noteq> None"
      using pit_okD(2) [OF inv(2), of p n] by (intro nt_pits_present) auto
    with inv pit_ok_detach [OF inv(2) e] e show ?thesis
      by (auto simp: pit_inv_def Pit_erase_def Let_def nt_pits_eraseIfEmpty nt_pits_erase nt_inv_pit_ops eraseIfEmpty_inv)
  qed (use assms in \<open>auto simp: Pit_erase_def split: option.splits\<close>)
qed

lemma Pit_erase_abs:
  assumes "pit_inv s" "pit_abs s k = Some p"
  shows "pit_abs (Pit_erase p del s) = (pit_abs s)(k := None)"
proof -
  have ok: "pit_ok (nt_pits (ntree s)) (pit_heap s) (pit_next s) (pit_nItems s)"
    using assms(1) by (auto simp: pit_inv_def)
  have ok': "pit_ok (nt_pits (ntree (Pit_erase p del s))) (pit_heap (Pit_erase p del s))
      (pit_next (Pit_erase p del s)) (pit_nItems (Pit_erase p del s))"
    using Pit_erase_inv [OF assms(1)] by (auto simp: pit_inv_def)
  obtain e n where e: "pit_heap s p = Some e" "pe_nte e = Some n" "interest_key (pe_interest e) = k"
    using assms(2) pit_abs_Some [OF ok] by (auto simp: pit_live_Some)
  then have h: "pit_heap (Pit_erase p del s) = (pit_heap s)(p \<mapsto> e\<lparr>pe_nte := None\<rparr>)"
    by (simp add: Pit_erase_def Let_def)
  show ?thesis
  proof (rule pit_abs_eqI [OF ok'])
    fix q key
    show "(\<exists>f. pit_live (pit_heap (Pit_erase p del s)) q = Some f \<and> interest_key (pe_interest f) = key) \<longleftrightarrow>
        ((pit_abs s)(k := None)) key = Some q"
      using pit_abs_Some [OF ok, of key q] pit_okD(7) [OF ok, of q _ p e] e
      by (auto simp: h pit_live_upd pit_live_Some)
  qed
qed

section \<open>Matching Data\<close>

lemma select_matches_Inr:
  assumes "\<And>p e. h p = Some e \<Longrightarrow> \<exists>b. m (pe_interest e) = Inr b"
  shows "select_matches m h ps = Inr (filter (\<lambda>p. \<exists>e. h p = Some e \<and> m (pe_interest e) = Inr True) ps)"
proof (induction ps)
  case (Cons p ps)
  then show ?case using assms [of p] by (auto split: option.split)
qed simp

lemma distinct_matches_pits:
  assumes ok: "pit_ok (nt_pits t) h nx k"
    and "\<And>e. e \<in> set es \<Longrightarrow> nt_find t (nte_name e) = Some e"
    and "sorted_wrt (\<lambda>a b. length (nte_name b) < length (nte_name a)) es"
  shows "distinct (concat (map nte_pits es))"
  using assms(2,3)
proof (induction es)
  case (Cons e es)
  have at: "p \<in> set (nte_pits e') \<Longrightarrow> \<exists>x. h p = Some x \<and> pe_nte x = Some (nte_name e')"
    if "e' \<in> set (e # es)" for p e'
    using Cons.prems(1) [OF that] pit_okD(2) [OF ok, of p "nte_name e'"] nt_pits_find by metis
  have "distinct (nte_pits e)"
    using pit_okD(1) [OF ok, of "nte_name e"] nt_pits_find [OF Cons.prems(1) [of e]] by simp
  moreover have "set (nte_pits e) \<inter> set (concat (map nte_pits es)) = {}"
  proof -
    have False if p: "p \<in> set (nte_pits e)" "e' \<in> set es" "p \<in> set (nte_pits e')" for p e'
    proof -
      have "nte_name e = nte_name e'" using at [of e p] at [of e' p] p by auto
      moreover have "length (nte_name e') < length (nte_name e)" using Cons.prems(2) p(2) by simp
      ultimately show False by simp
    qed
    then show ?thesis by auto
  qed
  ultimately show ?case using Cons by simp
qed simp

lemma findAllDataMatches_exact:
  assumes "pit_inv s" and "fullName_ok sha d" and "length (sha (d_wire d)) = 32"
  obtains ps where "findAllDataMatches sha d s = Inr ps" "distinct ps"
    "\<And>p. p \<in> set ps \<longleftrightarrow> (\<exists>e. pit_live (pit_heap s) p = Some e \<and>
       prefix (take getMaxDepth (Interest_getNameFunction (pe_interest e))) (Data_getNameFunction d) \<and>
       matchesData sha (pe_interest e) d = Inr True)"
proof -
  let ?n = "Data_getNameFunction d"
  let ?es = "findAllMatches ?n nteHasPitEntries (ntree s)"
  let ?Q = "\<lambda>p. \<exists>e. pit_heap s p = Some e \<and> matchesData sha (pe_interest e) d = Inr True"
  have inv: "nt_inv (ntree s)" "pit_ok (nt_pits (ntree s)) (pit_heap s) (pit_next s) (pit_nItems s)"
    using assms(1) by (auto simp: pit_inv_def)
  have es: "e \<in> set ?es \<longleftrightarrow> nte_pits e \<noteq> [] \<and> (\<exists>q. prefix q ?n \<and> nt_find (ntree s) q = Some e)" for e
    using set_findAllMatches [OF inv(1), of ?n nteHasPitEntries] by (simp add: nteHasPitEntries_def)
  have r: "findAllDataMatches sha d s = Inr (filter ?Q (concat (map nte_pits ?es)))"
    unfolding findAllDataMatches_def Let_def
    by (rule select_matches_Inr) (simp add: matchesData_iff [OF assms(2,3)])
  have "distinct (concat (map nte_pits ?es))"
    by (rule distinct_matches_pits [OF inv(2) _ findAllMatches_sorted])
      (auto simp: es dest: nt_find_name)
  then have d: "distinct (filter ?Q (concat (map nte_pits ?es)))" by (rule distinct_filter)
  have m: "p \<in> set (concat (map nte_pits ?es)) \<longleftrightarrow> (\<exists>q. prefix q ?n \<and> p \<in> set (nt_pits (ntree s) q))" for p
  proof -
    have "p \<in> set (concat (map nte_pits ?es)) \<longleftrightarrow> (\<exists>e q. prefix q ?n \<and> nt_find (ntree s) q = Some e \<and> p \<in> set (nte_pits e))"
      using es by force
    also have "\<dots> \<longleftrightarrow> (\<exists>q. prefix q ?n \<and> p \<in> set (nt_pits (ntree s) q))"
      using nt_pits_find nt_pits_present by (metis empty_iff list.set(1) option.exhaust)
    finally show ?thesis .
  qed
  show thesis
  proof (rule that [OF r d])
    fix p
    show "p \<in> set (filter ?Q (concat (map nte_pits ?es))) \<longleftrightarrow> (\<exists>e. pit_live (pit_heap s) p = Some e \<and>
       prefix (take getMaxDepth (Interest_getNameFunction (pe_interest e))) ?n \<and>
       matchesData sha (pe_interest e) d = Inr True)"
      unfolding set_filter mem_Collect_eq m pit_okD(2) [OF inv(2)]
      using pit_okD(6) [OF inv(2), of p] by (fastforce simp: pit_live_Some)
  qed
qed

section \<open>Properties\<close>

definition pit_empty :: pit_state where
  "pit_empty = \<lparr>ntree = [], fib_nItems = 0, pit_heap = Map.empty, pit_next = 0, pit_nItems = 0\<rparr>"

lemma pit_empty_inv: "pit_inv pit_empty" and pit_empty_abs: "pit_abs pit_empty = Map.empty"
  by (auto simp: pit_inv_def pit_ok_def pit_empty_def pit_abs_def pit_live_Some dom_def)

definition sample_pit :: "interest \<Rightarrow> pit_state" where
  "sample_pit i = fst (findOrInsert i True pit_empty)"

lemma sample_pit_inv: "interest_small i \<Longrightarrow> pit_inv (sample_pit i)"
  unfolding sample_pit_def by (rule findOrInsert_inv [OF pit_empty_inv])

lemma sample_pit_heap:
  assumes "interest_small i"
  shows "pit_live (pit_heap (sample_pit i)) 0 =
      Some ((PitEntry_new i)\<lparr>pe_nte := Some (take getMaxDepth (Interest_getNameFunction i))\<rparr>)"
    and "pit_abs (sample_pit i) = [interest_key i \<mapsto> 0]"
proof -
  have f: "findOrInsert i True pit_empty = (sample_pit i, Some 0, True)" and
    h: "pit_heap (sample_pit i) =
      [0 \<mapsto> (PitEntry_new i)\<lparr>pe_nte := Some (take getMaxDepth (Interest_getNameFunction i))\<rparr>]"
    by (simp_all add: sample_pit_def findOrInsert_insert [OF pit_empty_inv assms] pit_empty_abs Let_def)
      (simp_all add: pit_empty_def)
  show "pit_live (pit_heap (sample_pit i)) 0 =
      Some ((PitEntry_new i)\<lparr>pe_nte := Some (take getMaxDepth (Interest_getNameFunction i))\<rparr>)"
    by (simp add: h pit_live_def)
  obtain p where "fst (snd (findOrInsert i True pit_empty)) = Some p"
      "pit_abs (fst (findOrInsert i True pit_empty)) = (pit_abs pit_empty)(interest_key i \<mapsto> p)"
    by (rule findOrInsert_abs [OF pit_empty_inv assms])
  with f show "pit_abs (sample_pit i) = [interest_key i \<mapsto> 0]" by (simp add: pit_empty_abs)
qed


lemma sample_interest_small: "length n + length f < 2 ^ 31 \<Longrightarrow> interest_small (sample_interest n f)"
  by (simp add: interest_small_def sample_interest_def)


text \<open>
  C22: Insertion, erasure, any update of in- and out-records, and the removal of a face's records
  keep the PIT consistent: entries are listed where they are looked up and nowhere else, keys are
  unique, each face has at most one in-record and one out-record in an entry, and \<^verbatim>\<open>m_nItems\<close> counts
  the attached entries. None of them touches the FIB.
\<close>

theorem Pit_invariant:
  assumes "pit_inv s" and "interest_small i"
  shows "pit_inv (fst (findOrInsert i b s)) \<and> pit_inv (Pit_erase p del s) \<and>
    pit_inv (pit_modify p (insertOrUpdateInRecord rnd now face i) s) \<and>
    pit_inv (pit_modify p (insertOrUpdateOutRecord rnd now face i) s) \<and>
    pit_inv (pit_modify p clearInRecords s) \<and> pit_inv (deleteInOutRecords p face s) \<and>
    nt_fib (ntree (fst (findOrInsert i b s))) = nt_fib (ntree s) \<and>
    nt_fib (ntree (Pit_erase p del s)) = nt_fib (ntree s)"
proof (intro conjI)
  have inv: "nt_inv (ntree s)" using assms(1) by (simp add: pit_inv_def)
  show "nt_fib (ntree (fst (findOrInsert i b s))) = nt_fib (ntree s)"
    by (cases b; cases "pit_abs s (interest_key i)")
      (simp_all add: findOrInsert_insert [OF assms] findOrInsert_find [OF assms] Let_def nt_other_pit_ops nt_fib_lookup)
  show "nt_fib (ntree (Pit_erase p del s)) = nt_fib (ntree s)"
    using inv by (auto simp: Pit_erase_def Let_def nt_fib_erase nt_other_pit_ops nt_inv_pit_ops split: option.split)
  show "pit_inv (deleteInOutRecords p face s)"
    unfolding deleteInOutRecords_def
    by (rule pit_inv_modify [OF assms(1) keeps_identity_comp]) (rule keeps_identity_ops)+
qed (rule findOrInsert_inv Pit_erase_inv pit_inv_modify keeps_identity_ops assms)+

theorem Pit_invariant_witness:
  "pit_inv (Pit_erase 0 True (sample_pit (sample_interest [Component 8 [65]] [Component 8 [70]])))"
  using Pit_invariant [OF sample_pit_inv sample_interest_small [of "[]" "[]"],
      of "sample_interest [Component 8 [65]] [Component 8 [70]]"]
  by (simp add: sample_interest_small)

text \<open>
  C23: \<^verbatim>\<open>findAllDataMatches\<close> on Data that came off the wire never throws and returns, each once, the
  entries whose Interest accepts the Data by name and freshness and whose place in the name tree
  lies on the path of the Data's name with function. For Data whose name does not end with an
  implicit digest, every entry without a function that accepts the Data is returned.
\<close>

theorem findAllDataMatches_correct:
  assumes "pit_inv s" and "fullName_ok sha d" and "length (sha (d_wire d)) = 32"
  shows "\<exists>ps. findAllDataMatches sha d s = Inr ps \<and> distinct ps \<and>
    (\<forall>p. p \<in> set ps \<longleftrightarrow> (\<exists>e. pit_live (pit_heap s) p = Some e \<and>
       isPrefixOf (take getMaxDepth (Interest_getNameFunction (pe_interest e))) (Data_getNameFunction d) \<and>
       matchesData sha (pe_interest e) d = Inr True)) \<and>
    (\<forall>p e. length (d_name d) < 2 ^ 64 \<and> (d_name d = [] \<or> \<not> isImplicitSha256Digest (last (d_name d))) \<and>
       pit_live (pit_heap s) p = Some e \<and> i_function (pe_interest e) = [] \<and>
       matchesData sha (pe_interest e) d = Inr True \<longrightarrow> p \<in> set ps)"
proof -
  obtain ps where ps: "findAllDataMatches sha d s = Inr ps" "distinct ps"
    "\<And>p. p \<in> set ps \<longleftrightarrow> (\<exists>e. pit_live (pit_heap s) p = Some e \<and>
       prefix (take getMaxDepth (Interest_getNameFunction (pe_interest e))) (Data_getNameFunction d) \<and>
       matchesData sha (pe_interest e) d = Inr True)"
    using findAllDataMatches_exact [OF assms] by blast
  moreover have "prefix (take getMaxDepth (Interest_getNameFunction (pe_interest e))) (Data_getNameFunction d)"
    if "length (d_name d) < 2 ^ 64" "d_name d = [] \<or> \<not> isImplicitSha256Digest (last (d_name d))"
      "pit_live (pit_heap s) p = Some e" "i_function (pe_interest e) = []"
      "matchesData sha (pe_interest e) d = Inr True" for p e
  proof -
    have small: "interest_small (pe_interest e)"
      using assms(1) that(3) pit_okD(5) unfolding pit_inv_def by (fastforce simp: pit_live_Some)
    have d: "Data_getNameFunction d = d_name d @ d_function d"
      using that(2) by (auto simp: Data_getNameFunction_def intro: nameFunction_no_digest)
    have "prefix (strip_digest (i_name (pe_interest e))) (d_name d)"
      using that(5) unfolding matchesData_iff [OF assms(2,3)]
      by (auto simp: strip_digest_def isImplicitSha256Digest_def SHA256_DIGEST_SIZE_def assms(3) split: if_splits
          intro: prefix_order.trans [OF prefixeq_butlast])
    then show ?thesis
      unfolding interest_small_name(1) [OF small] d that(4)
      by (metis append_Nil2 prefix_order.trans prefix_prefix take_is_prefix)
  qed
  ultimately show ?thesis unfolding isPrefixOf_iff by blast
qed

theorem findAllDataMatches_correct_witness:
  "\<exists>ps. findAllDataMatches (\<lambda>_. replicate 32 0) (sample_data [Component 8 [65]] [])
      (sample_pit (sample_interest [Component 8 [65]] [])) = Inr ps \<and> 0 \<in> set ps"
proof -
  let ?i = "sample_interest [Component 8 [65]] []" and ?d = "sample_data [Component 8 [65]] []"
  let ?sha = "\<lambda>_ :: bytes. replicate 32 (0 :: byte)"
  have small: "interest_small ?i" by (simp add: sample_interest_small)
  have ok: "fullName_ok ?sha ?d" "length (?sha (d_wire ?d)) = 32"
    by (simp_all add: fullName_ok_def sample_data_def)
  have "matchesData ?sha ?i ?d = Inr True"
    unfolding matchesData_iff [OF ok] by (simp add: sample_interest_def sample_data_def)
  with findAllDataMatches_correct [OF sample_pit_inv [OF small] ok] sample_pit_heap(1) [OF small]
  show ?thesis
    by (fastforce simp: PitEntry_new_def sample_interest_def sample_data_def isImplicitSha256Digest_def)
qed



section \<open>Two deviations\<close>

text \<open>
  The key joins name and function, so that the Interest \<open>/A\<close> with function \<open>/B\<close> and the Interest
  \<open>/A/B\<close> without function share one PIT entry, although their names differ: the assertion in
  \<^verbatim>\<open>insertOrUpdateInRecord\<close> that the Interest matches the entry by name fails.
\<close>

theorem different_names_share_entry:
  "interest_key (sample_interest [Component 8 [65]] [Component 8 [66]]) =
     interest_key (sample_interest [Component 8 [65], Component 8 [66]] []) \<and>
   \<not> canMatch (PitEntry_new (sample_interest [Component 8 [65]] [Component 8 [66]]))
       (sample_interest [Component 8 [65], Component 8 [66]] []) 0"
proof
  have s: "interest_small (sample_interest [Component 8 [65]] [Component 8 [66]])"
      "interest_small (sample_interest [Component 8 [65], Component 8 [66]] [])"
    by (simp_all add: sample_interest_small)
  show "interest_key (sample_interest [Component 8 [65]] [Component 8 [66]]) =
     interest_key (sample_interest [Component 8 [65], Component 8 [66]] [])"
    unfolding interest_key_def interest_small_name(1) [OF s(1)] interest_small_name(1) [OF s(2)]
    by (simp add: sample_interest_def strip_digest_def isImplicitSha256Digest_def)
  have "Name_compare_range comp_cmp [Component 8 [65]] 0 npos [Component 8 [65], Component 8 [66]] 0 npos \<noteq> Some 0"
    by (subst Name_compare_range_eq) (auto simp: npos_def comp_order.refl0)
  then show "\<not> canMatch (PitEntry_new (sample_interest [Component 8 [65]] [Component 8 [66]]))
       (sample_interest [Component 8 [65], Component 8 [66]] []) 0"
    by (simp add: canMatch_def PitEntry_new_def sample_interest_def)
qed

text \<open>
  \<^verbatim>\<open>findAllDataMatches\<close> ignores the function of the Data: a plain Data packet \<open>/A/F\<close> satisfies a
  pending Interest \<open>/A\<close> with function \<open>/F\<close> and CanBePrefix, which \<^verbatim>\<open>matchesDataWFunction\<close> rejects.
\<close>

theorem findAllDataMatches_ignores_function:
  defines "i \<equiv> (sample_interest [Component 8 [65]] [Component 8 [70]])\<lparr>i_canBePrefix := True\<rparr>"
    and "d \<equiv> sample_data [Component 8 [65], Component 8 [70]] []"
  shows "matchesDataWFunction (\<lambda>_. replicate 32 0) i d = Inr False \<and>
    (\<exists>ps. findAllDataMatches (\<lambda>_. replicate 32 0) d (sample_pit i) = Inr ps \<and> 0 \<in> set ps)"
proof -
  let ?sha = "\<lambda>_ :: bytes. replicate 32 (0 :: byte)"
  have small: "interest_small i" by (simp add: interest_small_def i_def sample_interest_def)
  have ok: "fullName_ok ?sha d" "length (?sha (d_wire d)) = 32"
    by (simp_all add: fullName_ok_def sample_data_def d_def)
  have m: "matchesData ?sha i d = Inr True"
    unfolding matchesData_iff [OF ok] by (simp add: sample_interest_def sample_data_def i_def d_def)
  have n: "Interest_getNameFunction i = Data_getNameFunction d"
    unfolding interest_small_name(1) [OF small] Data_getNameFunction_def
    by (subst nameFunction_no_digest)
      (simp_all add: i_def d_def sample_interest_def sample_data_def strip_digest_def isImplicitSha256Digest_def)
  obtain ps where ps: "findAllDataMatches ?sha d (sample_pit i) = Inr ps" "distinct ps"
    "\<And>p. p \<in> set ps \<longleftrightarrow> (\<exists>e. pit_live (pit_heap (sample_pit i)) p = Some e \<and>
       prefix (take getMaxDepth (Interest_getNameFunction (pe_interest e))) (Data_getNameFunction d) \<and>
       matchesData ?sha (pe_interest e) d = Inr True)"
    using findAllDataMatches_exact [OF sample_pit_inv [OF small] ok] by blast
  moreover have "0 \<in> set ps"
    unfolding ps(3) sample_pit_heap(1) [OF small] using m
    by (simp add: PitEntry_new_def n take_is_prefix)
  moreover have "matchesDataWFunction ?sha i d = Inr False"
    by (simp add: matchesDataWFunction_def hasFunction_iff i_def d_def sample_interest_def sample_data_def)
  ultimately show ?thesis by blast
qed

end
