(* ===== verification/Measurements.thy ===== *)
theory Measurements
  imports Pit
begin

text \<open>
  The Measurements table (\<^verbatim>\<open>daemon/table/measurements.cpp\<close>): entries attached to the name tree that
  live until their expiry. The cleanup event of an entry is always scheduled for its expiry time,
  so the expiry is what the model keeps of it. The abstract table is a map from names to expiry
  times.
\<close>

record meas_state = pit_state +
  meas_nItems :: "64 word"

definition getInitialLifetime :: time_ns where
  "getInitialLifetime = 4 * 1000000000"

text \<open>\<^verbatim>\<open>get(name_tree::Entry&)\<close>, for the name tree entry of \<open>n\<close>.\<close>

definition Measurements_get_nte :: "time_ns \<Rightarrow> name \<Rightarrow> 'a meas_state_scheme \<Rightarrow> 'a meas_state_scheme" where
  "Measurements_get_nte now n s =
     (case nt_meas (ntree s) n of
        Some _ \<Rightarrow> s
      | None \<Rightarrow>
          s\<lparr>ntree := nt_update n (setMeasurementsEntry
                 (Some \<lparr>me_name = n, me_expiry = now + getInitialLifetime\<rparr>)) (ntree s),
            meas_nItems := meas_nItems s + 1\<rparr>)"

definition Measurements_get :: "time_ns \<Rightarrow> name \<Rightarrow> 'a meas_state_scheme \<Rightarrow> 'a meas_state_scheme" where
  "Measurements_get now n s =
     (let d = min (length n) getMaxDepth in
      Measurements_get_nte now (take d n) (s\<lparr>ntree := nt_lookup n d (ntree s)\<rparr>))"

text \<open>
  The name tree entry of a FIB entry: the one it is attached to, or the root for the entry that is
  returned when nothing matches.
\<close>

definition nt_lookup_fib :: "fib_entry \<Rightarrow> nametree \<Rightarrow> nametree" where
  "nt_lookup_fib fe t = (if nt_fib t (fe_prefix fe) = Some fe then t else nt_lookup (fe_prefix fe) (length (fe_prefix fe)) t)"

definition Measurements_get_fib :: "time_ns \<Rightarrow> fib_entry \<Rightarrow> 'a meas_state_scheme \<Rightarrow> 'a meas_state_scheme" where
  "Measurements_get_fib now fe s =
     Measurements_get_nte now (fe_prefix fe) (s\<lparr>ntree := nt_lookup_fib fe (ntree s)\<rparr>)"

text \<open>
  The name tree entry of a PIT entry: the one of its name if that ends with an implicit digest,
  otherwise the one it is attached to.
\<close>

definition nt_lookup_pit :: "pit_entry \<Rightarrow> nametree \<Rightarrow> (name \<times> nametree) option" where
  "nt_lookup_pit e t =
     (let n = i_name (pe_interest e);
          hasDigest = length n > 0 \<and> isImplicitSha256Digest (last n)
      in if hasDigest \<and> length n \<le> getMaxDepth then Some (n, nt_lookup n (length n) t)
         else map_option (\<lambda>at. (at, t)) (pe_nte e))"

definition Measurements_get_pit :: "time_ns \<Rightarrow> pit_entry \<Rightarrow> 'a meas_state_scheme \<Rightarrow> 'a meas_state_scheme option" where
  "Measurements_get_pit now e s =
     map_option (\<lambda>(n, t). Measurements_get_nte now n (s\<lparr>ntree := t\<rparr>)) (nt_lookup_pit e (ntree s))"

definition Measurements_getParent :: "time_ns \<Rightarrow> name \<Rightarrow> 'a meas_state_scheme \<Rightarrow> ('a meas_state_scheme \<times> name) option" where
  "Measurements_getParent now child s =
     (if child = [] then None else Some (Measurements_get_nte now (butlast child) s, butlast child))"

definition Measurements_findLongestPrefixMatch ::
    "name \<Rightarrow> (measurements_entry \<Rightarrow> bool) \<Rightarrow> 'a meas_state_scheme \<Rightarrow> measurements_entry option" where
  "Measurements_findLongestPrefixMatch n pred s =
     (case findLongestPrefixMatch (getPrefix (int getMaxDepth) n)
             (\<lambda>e. case nte_measurements e of Some m \<Rightarrow> pred m | None \<Rightarrow> False) (ntree s) of
        Some e \<Rightarrow> nte_measurements e
      | None \<Rightarrow> None)"

definition Measurements_findExactMatch :: "name \<Rightarrow> 'a meas_state_scheme \<Rightarrow> measurements_entry option" where
  "Measurements_findExactMatch n s =
     (case findExactMatch n (length n) (ntree s) of Some e \<Rightarrow> nte_measurements e | None \<Rightarrow> None)"

definition extendLifetime :: "time_ns \<Rightarrow> name \<Rightarrow> time_ns \<Rightarrow> 'a meas_state_scheme \<Rightarrow> 'a meas_state_scheme" where
  "extendLifetime now n lifetime s =
     (case nt_meas (ntree s) n of
        None \<Rightarrow> s
      | Some m \<Rightarrow>
          let expiry = now + lifetime in
          if me_expiry m \<ge> expiry then s
          else s\<lparr>ntree := nt_update n (setMeasurementsEntry (Some (m\<lparr>me_expiry := expiry\<rparr>))) (ntree s)\<rparr>)"

definition Measurements_cleanup :: "name \<Rightarrow> 'a meas_state_scheme \<Rightarrow> 'a meas_state_scheme" where
  "Measurements_cleanup n s =
     s\<lparr>ntree := fst (eraseIfEmpty n True (nt_update n (setMeasurementsEntry None) (ntree s))),
       meas_nItems := meas_nItems s - 1\<rparr>"

section \<open>The table as a map\<close>

definition meas_abs :: "'a meas_state_scheme \<Rightarrow> name \<Rightarrow> time_ns option" where
  "meas_abs s n = map_option me_expiry (nt_meas (ntree s) n)"

definition meas_inv :: "'a meas_state_scheme \<Rightarrow> bool" where
  "meas_inv s \<longleftrightarrow> nt_inv (ntree s) \<and>
     (\<forall>n m. nt_meas (ntree s) n = Some m \<longrightarrow> me_name m = n) \<and>
     meas_nItems s = of_nat (card (dom (nt_meas (ntree s))))"

lemma nt_meas_put [table_simps]:
  "nt_find t n \<noteq> None \<Longrightarrow> nt_meas (nt_update n (setMeasurementsEntry m) t) = (nt_meas t)(n := m)"
  using meas_att.get_update [of t n m] by (simp add: nt_meas_def fun_eq_iff)

lemma nt_meas_lookup [table_simps]: "k \<le> length n \<Longrightarrow> nt_meas (nt_lookup n k t) = nt_meas t"
  by (rule same_attachedD [OF same_attached_lookup])

lemma nt_meas_erase [table_simps]: "nt_inv t \<Longrightarrow> nt_meas (fst (eraseIfEmpty n anc t)) = nt_meas t"
  by (rule same_attachedD [OF eraseIfEmpty_attached])

lemma nt_meas_present: "nt_meas t n = Some m \<Longrightarrow> nt_find t n \<noteq> None"
  using meas_att.get_absent [of t n] by (auto simp: nt_meas_def)

lemma finite_nt_meas: "finite (dom (nt_meas t))"
  by (rule finite_subset [OF _ finite_nt_names [of t]]) (use nt_meas_present in \<open>force simp: nt_names_iff\<close>)

lemma meas_inv_put:
  assumes "meas_inv s" "nt_find (ntree s) n \<noteq> None" "\<And>m. r = Some m \<Longrightarrow> me_name m = n"
    "k = of_nat (card (dom ((nt_meas (ntree s))(n := r))))"
  shows "meas_inv (s\<lparr>ntree := nt_update n (setMeasurementsEntry r) (ntree s), meas_nItems := k\<rparr>)"
  using assms meas_att.put_inv by (auto simp: meas_inv_def nt_meas_put)

lemma Measurements_get_nte_ok:
  assumes "meas_inv s" "nt_find (ntree s) n \<noteq> None"
  shows "meas_inv (Measurements_get_nte now n s)"
    and "meas_abs (Measurements_get_nte now n s) =
      (meas_abs s)(n \<mapsto> (case meas_abs s n of Some t \<Rightarrow> t | None \<Rightarrow> now + getInitialLifetime))"
proof -
  show "meas_inv (Measurements_get_nte now n s)"
  proof (cases "nt_meas (ntree s) n")
    case None
    then have "meas_nItems s + 1 = of_nat (card (dom ((nt_meas (ntree s))(n \<mapsto> m))))" for m
      using assms(1) by (simp add: meas_inv_def finite_nt_meas domIff)
    then show ?thesis
      unfolding Measurements_get_nte_def None option.case by (intro meas_inv_put [OF assms]) auto
  qed (simp add: Measurements_get_nte_def assms)
  show "meas_abs (Measurements_get_nte now n s) =
      (meas_abs s)(n \<mapsto> (case meas_abs s n of Some t \<Rightarrow> t | None \<Rightarrow> now + getInitialLifetime))"
    using assms(2) by (auto simp: Measurements_get_nte_def meas_abs_def nt_meas_put fun_eq_iff split: option.split)
qed

lemma meas_inv_lookup: "meas_inv s \<Longrightarrow> k \<le> length n \<Longrightarrow> k \<le> getMaxDepth \<Longrightarrow> meas_inv (s\<lparr>ntree := nt_lookup n k (ntree s)\<rparr>)"
  by (simp add: meas_inv_def nt_lookup_inv nt_meas_lookup)

lemma Measurements_get_ok:
  assumes "meas_inv s"
  shows "meas_inv (Measurements_get now n s)"
    and "meas_abs (Measurements_get now n s) = (meas_abs s)(take getMaxDepth n \<mapsto>
      (case meas_abs s (take getMaxDepth n) of Some t \<Rightarrow> t | None \<Rightarrow> now + getInitialLifetime))"
proof -
  let ?d = "min (length n) getMaxDepth" and ?s = "s\<lparr>ntree := nt_lookup n (min (length n) getMaxDepth) (ntree s)\<rparr>"
  have "meas_inv ?s" "nt_find (ntree ?s) (take ?d n) \<noteq> None"
    using assms by (simp add: meas_inv_lookup, simp add: nt_lookup_at meas_inv_def)
  moreover have "meas_abs ?s = meas_abs s" by (rule ext) (simp add: meas_abs_def nt_meas_lookup)
  ultimately show "meas_inv (Measurements_get now n s)"
    "meas_abs (Measurements_get now n s) = (meas_abs s)(take getMaxDepth n \<mapsto>
      (case meas_abs s (take getMaxDepth n) of Some t \<Rightarrow> t | None \<Rightarrow> now + getInitialLifetime))"
    using Measurements_get_nte_ok [of ?s "take ?d n" now] by (simp_all add: Measurements_get_def Let_def take_min)
qed

lemma extendLifetime_ok:
  assumes "meas_inv s"
  shows "meas_inv (extendLifetime now n lifetime s)"
    and "meas_abs (extendLifetime now n lifetime s) =
      (meas_abs s)(n := map_option (max (now + lifetime)) (meas_abs s n))"
proof -
  show "meas_inv (extendLifetime now n lifetime s)"
  proof (cases "nt_meas (ntree s) n")
    case (Some m)
    have "dom ((nt_meas (ntree s))(n \<mapsto> m\<lparr>me_expiry := now + lifetime\<rparr>)) = dom (nt_meas (ntree s))"
      using Some by auto
    then show ?thesis
      using assms meas_inv_put [OF assms nt_meas_present [OF Some], of "Some (m\<lparr>me_expiry := now + lifetime\<rparr>)" "meas_nItems s"] Some
      by (auto simp: extendLifetime_def Let_def meas_inv_def)
  qed (simp add: extendLifetime_def assms)
  show "meas_abs (extendLifetime now n lifetime s) = (meas_abs s)(n := map_option (max (now + lifetime)) (meas_abs s n))"
    using nt_meas_present [of "ntree s" n]
    by (auto simp: extendLifetime_def meas_abs_def nt_meas_put fun_eq_iff Let_def max_def split: option.split)
qed

lemma Measurements_cleanup_ok:
  assumes "meas_inv s" "meas_abs s n \<noteq> None"
  shows "meas_inv (Measurements_cleanup n s)" and "meas_abs (Measurements_cleanup n s) = (meas_abs s)(n := None)"
proof -
  obtain m where m: "nt_meas (ntree s) n = Some m" using assms(2) by (auto simp: meas_abs_def)
  note present = nt_meas_present [OF m]
  have u: "nt_inv (nt_update n (setMeasurementsEntry None) (ntree s))"
    using assms(1) by (intro meas_att.put_inv) (simp add: meas_inv_def)
  have v: "nt_meas (ntree (Measurements_cleanup n s)) = (nt_meas (ntree s))(n := None)"
    by (simp add: Measurements_cleanup_def nt_meas_erase [OF u] nt_meas_put [OF present])
  show "meas_inv (Measurements_cleanup n s)"
    unfolding meas_inv_def v using assms(1) u word_card_dom_delete [OF finite_nt_meas m]
    by (auto simp: Measurements_cleanup_def meas_inv_def eraseIfEmpty_inv split: if_splits)
  show "meas_abs (Measurements_cleanup n s) = (meas_abs s)(n := None)"
    by (auto simp: meas_abs_def v)
qed

text \<open>The other tables do not change.\<close>

definition same_but_meas :: "'a meas_state_scheme \<Rightarrow> 'a meas_state_scheme \<Rightarrow> bool" where
  "same_but_meas s s' \<longleftrightarrow>
     nt_fib (ntree s') = nt_fib (ntree s) \<and> nt_pits (ntree s') = nt_pits (ntree s) \<and>
     nt_strategy (ntree s') = nt_strategy (ntree s) \<and>
     (\<exists>t k. s' = s\<lparr>ntree := t, meas_nItems := k\<rparr>)"

lemma same_but_meas_intro:
  "nt_fib t = nt_fib (ntree s) \<Longrightarrow> nt_pits t = nt_pits (ntree s) \<Longrightarrow> nt_strategy t = nt_strategy (ntree s) \<Longrightarrow>
   same_but_meas s (s\<lparr>ntree := t, meas_nItems := k\<rparr>)"
  by (auto simp: same_but_meas_def)

lemma same_but_meas_refl [simp]: "same_but_meas s s"
  unfolding same_but_meas_def by (auto intro!: exI [of _ "ntree s"] exI [of _ "meas_nItems s"])

lemma same_but_meas_ntree:
  "nt_fib t = nt_fib (ntree s) \<Longrightarrow> nt_pits t = nt_pits (ntree s) \<Longrightarrow> nt_strategy t = nt_strategy (ntree s) \<Longrightarrow>
   same_but_meas s (s\<lparr>ntree := t\<rparr>)"
  using same_but_meas_intro [of t s "meas_nItems s"] by simp

lemma same_but_meas_trans:
  assumes "same_but_meas s1 s2" "same_but_meas s2 s3"
  shows "same_but_meas s1 s3"
proof -
  obtain t k t' k' where "s2 = s1\<lparr>ntree := t, meas_nItems := k\<rparr>" "s3 = s2\<lparr>ntree := t', meas_nItems := k'\<rparr>"
    using assms unfolding same_but_meas_def by blast
  then have "s3 = s1\<lparr>ntree := t', meas_nItems := k'\<rparr>" by simp
  with assms show ?thesis unfolding same_but_meas_def by metis
qed

lemma nt_strategy_lookup [table_simps]: "k \<le> length n \<Longrightarrow> nt_strategy (nt_lookup n k t) = nt_strategy t"
  by (rule same_attachedD [OF same_attached_lookup])

lemma nt_strategy_erase [table_simps]: "nt_inv t \<Longrightarrow> nt_strategy (fst (eraseIfEmpty n anc t)) = nt_strategy t"
  by (rule same_attachedD [OF eraseIfEmpty_attached])

lemma same_but_meas_ops:
  "same_but_meas s (Measurements_get_nte now n s)"
  "same_but_meas s (Measurements_get now n s)"
  "same_but_meas s (extendLifetime now n lifetime s)"
  "nt_inv (ntree s) \<Longrightarrow> same_but_meas s (Measurements_cleanup n s)"
proof -
  show g: "same_but_meas s (Measurements_get_nte now n s)" for n and s :: "'a meas_state_scheme"
    by (auto simp: Measurements_get_nte_def table_simps intro!: same_but_meas_intro split: option.split)
  show "same_but_meas s (Measurements_get now n s)"
    unfolding Measurements_get_def Let_def
    by (rule same_but_meas_trans [OF same_but_meas_ntree g]) (simp_all add: table_simps)
  show "same_but_meas s (extendLifetime now n lifetime s)"
    by (auto simp: extendLifetime_def Let_def table_simps intro!: same_but_meas_ntree split: option.split)
  show "nt_inv (ntree s) \<Longrightarrow> same_but_meas s (Measurements_cleanup n s)"
    unfolding Measurements_cleanup_def
    by (intro same_but_meas_intro) (simp_all add: table_simps nt_fib_erase nt_pits_eraseIfEmpty nt_strategy_erase meas_att.put_inv)
qed

lemma Measurements_lpm:
  assumes "nt_inv (ntree s)" "length n < 2 ^ 64"
  shows "Measurements_findLongestPrefixMatch n pred s =
    longest_route (\<lambda>p. case nt_meas (ntree s) p of Some m \<Rightarrow> if pred m then Some m else None | None \<Rightarrow> None)
      (take getMaxDepth n)"
proof -
  define P where "P r = (case r of Some m \<Rightarrow> pred m | None \<Rightarrow> False)" for r
  define g where "g p = (case nt_meas (ntree s) p of Some m \<Rightarrow> if pred m then Some m else None | None \<Rightarrow> None)" for p
  define m where "m = take getMaxDepth n"
  define K where "K = List.find (\<lambda>k. P (nt_meas (ntree s) (take k m))) (rev [0 ..< Suc (length m)])"
  have p: "getPrefix (int getMaxDepth) n = m"
    using assms(2) by (simp add: getPrefix_take getMaxDepth_def m_def)
  have g: "P (nt_meas (ntree s) q) \<longleftrightarrow> g q \<noteq> None" "P (nt_meas (ntree s) q) \<Longrightarrow> g q = nt_meas (ntree s) q" for q
    by (auto simp: P_def g_def split: option.splits if_splits)
  have K: "K = List.find (\<lambda>k. g (take k m) \<noteq> None) (rev [0 ..< Suc (length m)])" by (simp add: K_def g(1))
  have F: "map_option nte_measurements (findLongestPrefixMatch m (\<lambda>e. P (nte_measurements e)) (ntree s)) =
    map_option (\<lambda>k. nt_meas (ntree s) (take k m)) K"
    unfolding nt_meas_def K_def by (rule meas_att.lpm_view [OF assms(1)]) (simp add: P_def)
  have "(case findLongestPrefixMatch m (\<lambda>e. P (nte_measurements e)) (ntree s) of
      Some e \<Rightarrow> nte_measurements e | None \<Rightarrow> None) = (case K of Some k \<Rightarrow> g (take k m) | None \<Rightarrow> None)"
  proof (cases K)
    case (Some k)
    then have "P (nt_meas (ntree s) (take k m))" unfolding K_def by (blast dest: find_SomeD)
    with F Some show ?thesis by (auto simp: g(2))
  qed (use F in auto)
  then show ?thesis
    unfolding Measurements_findLongestPrefixMatch_def longest_route_def p m_def [symmetric] g_def [symmetric]
      P_def [symmetric] K .
qed

section \<open>Properties\<close>

text \<open>
  C34: The Measurements table is a map from names to expiry times, read at most \<^verbatim>\<open>getMaxDepth\<close>
  components deep. \<^verbatim>\<open>get\<close> finds an entry or creates one that lives four seconds, \<^verbatim>\<open>extendLifetime\<close>
  only ever postpones the expiry, the cleanup event removes the entry, the longest prefix match is
  the longest prefix whose entry the predicate accepts, and no other table is touched.
\<close>

theorem Measurements_correct:
  assumes "meas_inv s" and "length n < 2 ^ 64"
  shows "meas_inv (Measurements_get now n s) \<and> same_but_meas s (Measurements_get now n s) \<and>
    meas_abs (Measurements_get now n s) = (meas_abs s)(take getMaxDepth n \<mapsto>
      (case meas_abs s (take getMaxDepth n) of Some t \<Rightarrow> t | None \<Rightarrow> now + 4000000000)) \<and>
    meas_inv (extendLifetime now n lifetime s) \<and> same_but_meas s (extendLifetime now n lifetime s) \<and>
    meas_abs (extendLifetime now n lifetime s) =
      (meas_abs s)(n := map_option (max (now + lifetime)) (meas_abs s n)) \<and>
    (meas_abs s n \<noteq> None \<longrightarrow> meas_inv (Measurements_cleanup n s) \<and> same_but_meas s (Measurements_cleanup n s) \<and>
      meas_abs (Measurements_cleanup n s) = (meas_abs s)(n := None)) \<and>
    Measurements_findLongestPrefixMatch n pred s =
      longest_route (\<lambda>p. case nt_meas (ntree s) p of Some m \<Rightarrow> if pred m then Some m else None | None \<Rightarrow> None)
        (take getMaxDepth n)"
proof -
  have "nt_inv (ntree s)" using assms(1) by (simp add: meas_inv_def)
  moreover have l: "getInitialLifetime = 4000000000" by (simp add: getInitialLifetime_def)
  ultimately show ?thesis
    using Measurements_get_ok [OF assms(1), of now n, unfolded l] extendLifetime_ok [OF assms(1), of now n lifetime]
      Measurements_cleanup_ok [OF assms(1), of n] same_but_meas_ops [of s] Measurements_lpm [of s n pred] assms(2)
    by simp
qed

definition meas_empty :: meas_state where
  "meas_empty = \<lparr>ntree = [], fib_nItems = 0, pit_heap = Map.empty, pit_next = 0, pit_nItems = 0, meas_nItems = 0\<rparr>"

lemma meas_empty_inv: "meas_inv meas_empty" "meas_abs meas_empty = Map.empty"
  by (auto simp: meas_inv_def meas_abs_def meas_empty_def)

theorem Measurements_correct_witness:
  "meas_abs (Measurements_get 5 [Component 8 [65]] meas_empty) = [[Component 8 [65]] \<mapsto> 4000000005] \<and>
   meas_abs (extendLifetime 5 [Component 8 [65]] 7 meas_empty) = Map.empty"
  using Measurements_correct [OF meas_empty_inv(1), of "[Component 8 [65]]" 5 7]
  by (simp add: meas_empty_inv(2) getMaxDepth_def)

end
