(* ===== verification/StrategyRegistry.thy ===== *)
theory StrategyRegistry
  imports NameTree
begin

text \<open>
  The strategy registry (\<^verbatim>\<open>daemon/fw/strategy.cpp\<close>) and the constructors of the registered
  strategies: how the name in a strategy choice command is parsed, which class it selects, when
  the constructor rejects it, and the instance name the object gets. The NFD process does not
  change the naming conventions: versions are written as typed components and read in either form.
  \<^verbatim>\<open>boost::lexical_cast<uint64_t>\<close>, which reads the parameters of the ASF strategy, is the
  parameter \<open>lc\<close>.
\<close>

section \<open>Names of the registered strategies\<close>

definition generic :: "string \<Rightarrow> component" where
  "generic s = Component tlv_GenericNameComponent (ascii s)"

definition strategy_base :: "strategy_type \<Rightarrow> string" where
  "strategy_base st =
     (case st of
        AccessStrategy \<Rightarrow> ''access''
      | AsfStrategy \<Rightarrow> ''asf''
      | BestRouteStrategy \<Rightarrow> ''best-route''
      | FunctionChainStrategy \<Rightarrow> ''function-chain''
      | MulticastStrategy \<Rightarrow> ''multicast''
      | RandomStrategy \<Rightarrow> ''random''
      | SelfLearningStrategy \<Rightarrow> ''self-learning'')"

definition strategy_version :: "strategy_type \<Rightarrow> nat" where
  "strategy_version st =
     (case st of
        AccessStrategy \<Rightarrow> 1
      | AsfStrategy \<Rightarrow> 4
      | BestRouteStrategy \<Rightarrow> 5
      | FunctionChainStrategy \<Rightarrow> 2
      | MulticastStrategy \<Rightarrow> 4
      | RandomStrategy \<Rightarrow> 1
      | SelfLearningStrategy \<Rightarrow> 1)"

definition unversioned :: "strategy_type \<Rightarrow> name" where
  "unversioned st = [generic ''localhost'', generic ''nfd'', generic ''strategy'', generic (strategy_base st)]"

definition getStrategyName :: "strategy_type \<Rightarrow> name" where
  "getStrategyName st = Name_append1 (fromVersion TYPED (strategy_version st)) (unversioned st)"

definition getDefaultStrategyName :: name where
  "getDefaultStrategyName = getStrategyName BestRouteStrategy"

text \<open>The registry: a \<^verbatim>\<open>std::map\<close> keyed by strategy name, filled by the registration objects.\<close>

definition registerType :: "strategy_type \<Rightarrow> (name \<times> strategy_type) list \<Rightarrow> (name \<times> strategy_type) list" where
  "registerType st r = insort_key fst (getStrategyName st, st) r"

definition getRegistry :: "(name \<times> strategy_type) list" where
  "getRegistry = foldr registerType
     [AccessStrategy, AsfStrategy, BestRouteStrategy, FunctionChainStrategy, MulticastStrategy,
      RandomStrategy, SelfLearningStrategy] []"

section \<open>Instance names\<close>

record parsed_name =
  pn_strategyName :: name
  pn_version :: "nat option"
  pn_parameters :: name

fun parse_from :: "name \<Rightarrow> nat \<Rightarrow> parsed_name" where
  "parse_from input 0 = \<lparr>pn_strategyName = input, pn_version = None, pn_parameters = []\<rparr>"
| "parse_from input (Suc i) =
     (if isVersion EITHER (input ! Suc i) then
        \<lparr>pn_strategyName = getPrefix (int (Suc i) + 1) input,
         pn_version = (case toVersion EITHER (input ! Suc i) of Inr v \<Rightarrow> Some v | Inl _ \<Rightarrow> None),
         pn_parameters = getSubName (int (Suc i) + 1) npos input\<rparr>
      else parse_from input i)"

definition parseInstanceName :: "name \<Rightarrow> parsed_name" where
  "parseInstanceName input = parse_from input (length input - 1)"

definition makeInstanceName :: "name \<Rightarrow> name \<Rightarrow> name" where
  "makeInstanceName input strategyName =
     (let hasVersion = list_ex (isVersion EITHER) (rev input) in
      if hasVersion then input else Name_append1 (last strategyName) input)"

section \<open>Lookup\<close>

definition registry_lower_bound :: "name \<Rightarrow> (name \<times> strategy_type) list" where
  "registry_lower_bound n = dropWhile (\<lambda>e. fst e < n) getRegistry"

definition Strategy_find :: "name \<Rightarrow> (name \<times> strategy_type) option" where
  "Strategy_find instanceName =
     (let parsed = parseInstanceName instanceName; sn = pn_strategyName parsed in
      if pn_version parsed \<noteq> None then
        (case registry_lower_bound sn of
           found # _ \<Rightarrow> if isPrefixOf (getPrefix (-1) sn) (fst found) then Some found else None
         | [] \<Rightarrow> None)
      else if sn \<noteq> [] then
        (let found = registry_lower_bound (Name_getSuccessor sn);
             before = take (length getRegistry - length found) getRegistry
         in if before \<noteq> [] \<and> isPrefixOf sn (fst (last before)) then Some (last before) else None)
      else None)"

definition canCreate :: "name \<Rightarrow> bool" where
  "canCreate instanceName \<longleftrightarrow> Strategy_find instanceName \<noteq> None"

definition areSameType :: "name \<Rightarrow> name \<Rightarrow> bool" where
  "areSameType instanceNameA instanceNameB \<longleftrightarrow> Strategy_find instanceNameA = Strategy_find instanceNameB"

section \<open>Constructors\<close>

text \<open>
  \<^verbatim>\<open>AsfStrategy::processParams\<close>: the probing interval in milliseconds and the number of silent
  timeouts, or \<^term>\<open>None\<close> for the exception. The interval is a \<^verbatim>\<open>size_t\<close> that is converted to the
  signed representation of \<^verbatim>\<open>time::milliseconds\<close>.
\<close>

definition MIN_PROBING_INTERVAL :: int where "MIN_PROBING_INTERVAL = 1000"

definition getParamValue :: "(bytes \<Rightarrow> nat option) \<Rightarrow> bytes \<Rightarrow> nat option" where
  "getParamValue lc value = (if value \<noteq> [] \<and> hd value = ch_dash then None else lc value)"

definition setProbingInterval :: "nat \<Rightarrow> int option" where
  "setProbingInterval v =
     (let ms = sint (word_of_nat v :: 64 word) in if ms \<ge> MIN_PROBING_INTERVAL then Some ms else None)"

fun processParams :: "(bytes \<Rightarrow> nat option) \<Rightarrow> name \<Rightarrow> int \<times> nat \<Rightarrow> (int \<times> nat) option" where
  "processParams lc [] cfg = Some cfg"
| "processParams lc (c # cs) cfg =
     (case str_find ch_tilde 0 (cvalue c) of
        None \<Rightarrow> None
      | Some n \<Rightarrow>
          let f = take n (cvalue c); s = drop (n + 1) (cvalue c) in
          if f = ascii ''probing-interval'' then
            (case Option.bind (getParamValue lc s) setProbingInterval of
               None \<Rightarrow> None
             | Some ms \<Rightarrow> processParams lc cs (ms, snd cfg))
          else if f = ascii ''n-silent-timeouts'' then
            (case getParamValue lc s of
               None \<Rightarrow> None
             | Some v \<Rightarrow> processParams lc cs (fst cfg, v))
          else None)"

datatype create_result =
    StrategyNotRegistered
  | StrategyException
  | StrategyCreated strategy

definition construct :: "(bytes \<Rightarrow> nat option) \<Rightarrow> strategy_type \<Rightarrow> name \<Rightarrow> create_result" where
  "construct lc st instanceName =
     (let parsed = parseInstanceName instanceName in
      if pn_parameters parsed \<noteq> [] \<and>
           (if st = AsfStrategy then processParams lc (pn_parameters parsed) (60000, 3) = None else True)
      then StrategyException
      else if pn_version parsed \<noteq> None \<and> pn_version parsed \<noteq> Some (strategy_version st)
      then StrategyException
      else StrategyCreated
             \<lparr>st_type = st, st_instanceName = makeInstanceName instanceName (getStrategyName st)\<rparr>)"

definition Strategy_create :: "(bytes \<Rightarrow> nat option) \<Rightarrow> name \<Rightarrow> create_result" where
  "Strategy_create lc instanceName =
     (case Strategy_find instanceName of
        None \<Rightarrow> StrategyNotRegistered
      | Some found \<Rightarrow> construct lc (snd found) instanceName)"

section \<open>The registry in order\<close>

lemma registry_eq:
  "getRegistry = map (\<lambda>st. (getStrategyName st, st))
     [AsfStrategy, AccessStrategy, RandomStrategy, MulticastStrategy, BestRouteStrategy,
      SelfLearningStrategy, FunctionChainStrategy]"
  by code_simp

lemma registry_mem: "e \<in> set getRegistry \<longleftrightarrow> fst e = getStrategyName (snd e)"
  unfolding registry_eq by (cases e; cases "snd e") auto

lemma length_unversioned: "length (unversioned st) = 4" "length (getStrategyName st) = 5"
  by (simp_all add: unversioned_def getStrategyName_def Name_append1_def)

lemma butlast_getStrategyName: "butlast (getStrategyName st) = unversioned st"
  by (simp add: getStrategyName_def Name_append1_def)

lemma unversioned_prefix: "prefix (unversioned st) (getStrategyName st)"
  by (simp add: getStrategyName_def Name_append1_def)

lemma strategy_names_nonempty [simp]: "unversioned st \<noteq> []" "getStrategyName st \<noteq> []"
  by (simp_all add: unversioned_def getStrategyName_def Name_append1_def)

lemma version_of_name:
  "isVersion EITHER (getStrategyName st ! 4)"
  "toVersion EITHER (getStrategyName st ! 4) = Inr (strategy_version st)"
  by (induct st; code_simp)+

lemma no_version_in_base: "\<not> list_ex (isVersion EITHER) (unversioned st)"
  by (induct st) code_simp+

lemma parse_full:
  "parseInstanceName (getStrategyName st) =
     \<lparr>pn_strategyName = getStrategyName st, pn_version = Some (strategy_version st), pn_parameters = []\<rparr>"
proof -
  have four: "Suc 3 = (4 :: nat)" "int 4 + 1 = 5" by simp_all
  have "getPrefix 5 (getStrategyName st) = getStrategyName st"
    by (simp add: getPrefix_take length_unversioned)
  moreover have "getSubName 5 npos (getStrategyName st) = []"
    using getSubName_eq [of 5 npos "getStrategyName st"] by (simp add: length_unversioned)
  ultimately have "parse_from (getStrategyName st) (Suc 3) =
     \<lparr>pn_strategyName = getStrategyName st, pn_version = Some (strategy_version st), pn_parameters = []\<rparr>"
    unfolding parse_from.simps(2) unfolding four using version_of_name [of st] by simp
  then show ?thesis by (simp add: parseInstanceName_def length_unversioned four(1) del: parse_from.simps)
qed

lemma base_inj: "ascii (strategy_base a) = ascii (strategy_base b) \<longleftrightarrow> a = b"
  by (cases a; cases b) (simp_all add: strategy_base_def ascii_def)

lemma unversioned_prefix_iff: "prefix (unversioned a) (getStrategyName b) \<longleftrightarrow> a = b"
  by (auto simp: unversioned_def getStrategyName_def Name_append1_def generic_def base_inj)

lemma getStrategyName_inj: "getStrategyName a = getStrategyName b \<longleftrightarrow> a = b"
  using unversioned_prefix_iff [of a b] unversioned_prefix [of a] by metis

lemma registry_sorted: "sorted (map fst getRegistry)"
  unfolding getRegistry_def registerType_def foldr.simps o_apply id_apply sorted_insort_key by simp

lemma registry_distinct: "distinct getRegistry"
  unfolding registry_eq by (simp add: distinct_map inj_on_def)

lemma sorted_takeWhile_less:
  fixes k :: "'b :: linorder"
  shows "sorted (map f xs) \<Longrightarrow> takeWhile (\<lambda>e. f e < k) xs = filter (\<lambda>e. f e < k) xs"
  by (induction xs) (auto intro!: filter_False [symmetric] dest: le_less_trans)

lemma take_minus_dropWhile: "take (length xs - length (dropWhile P xs)) xs = takeWhile P xs"
  by (metis add_diff_cancel_right' length_append takeWhile_dropWhile_id takeWhile_eq_take)

lemma lower_bound_full:
  "\<exists>rest. registry_lower_bound (getStrategyName st) = (getStrategyName st, st) # rest"
proof -
  have "(getStrategyName st, st) \<in> set getRegistry" by (simp add: registry_mem)
  then obtain as bs where r: "getRegistry = as @ (getStrategyName st, st) # bs" by (meson split_list)
  have "fst e < getStrategyName st" if "e \<in> set as" for e
  proof -
    have "fst e \<le> getStrategyName st" using registry_sorted that by (simp add: r sorted_append)
    moreover have "fst e \<noteq> getStrategyName st"
    proof
      assume "fst e = getStrategyName st"
      then have "e = (getStrategyName st, st)"
        using that registry_mem [of e] by (auto simp: r getStrategyName_inj prod_eq_iff)
      with that registry_distinct show False by (simp add: r)
    qed
    ultimately show ?thesis by simp
  qed
  then show ?thesis by (simp add: registry_lower_bound_def r)
qed

lemma find_full: "Strategy_find (getStrategyName st) = Some (getStrategyName st, st)"
  using lower_bound_full [of st]
  by (auto simp: Strategy_find_def parse_full Let_def length_unversioned getPrefix_minus_one butlast_getStrategyName
      isPrefixOf_iff unversioned_prefix)

section \<open>Parsing and lookup\<close>

lemma isVersion_toVersion: "isVersion EITHER c \<Longrightarrow> \<exists>v. toVersion EITHER c = Inr v"
  by (auto simp: isVersion_def isConvention_def toVersion_def toConvention_def canDecodeMarkerConvention_def
      canDecodeTypedConvention_def isNumber_def isNumberWithMarker_def toNumber_def toNumberWithMarker_def
      readNonNegativeInteger_def readNumberFast_def)

lemma parse_from_unversioned:
  "pn_version (parse_from n i) = None \<Longrightarrow>
   pn_strategyName (parse_from n i) = n \<and> pn_parameters (parse_from n i) = [] \<and> (\<forall>j. 0 < j \<and> j \<le> i \<longrightarrow> \<not> isVersion EITHER (n ! j))"
proof (induction i)
  case (Suc i)
  have "\<not> isVersion EITHER (n ! Suc i)"
    using Suc.prems isVersion_toVersion [of "n ! Suc i"] by auto
  with Suc show ?case by (auto simp: le_Suc_eq)
qed simp

text \<open>Without a version the entry found extends the name; in any case it is a registered one.\<close>

lemma find_cases:
  assumes "Strategy_find n = Some e"
  obtains (versioned) "pn_version (parseInstanceName n) \<noteq> None" "fst e = getStrategyName (snd e)"
  | (unversioned) "pn_version (parseInstanceName n) = None" "fst e = getStrategyName (snd e)" "prefix n (fst e)"
proof (cases "pn_version (parseInstanceName n)")
  case (Some v)
  with assms obtain found rest where
    "registry_lower_bound (pn_strategyName (parseInstanceName n)) = found # rest" "e = found"
    by (auto simp: Strategy_find_def Let_def split: list.splits if_splits)
  then have "e \<in> set (dropWhile (\<lambda>e. fst e < pn_strategyName (parseInstanceName n)) getRegistry)"
    by (simp add: registry_lower_bound_def)
  then have "e \<in> set getRegistry" by (rule set_dropWhileD)
  with Some show thesis by (intro versioned) (simp_all add: registry_mem)
next
  case None
  then have sn: "pn_strategyName (parseInstanceName n) = n"
    unfolding parseInstanceName_def by (simp add: parse_from_unversioned)
  define k where "k = length getRegistry - length (registry_lower_bound (Name_getSuccessor n))"
  have "take k getRegistry \<noteq> []" "isPrefixOf n (fst (last (take k getRegistry)))" "e = last (take k getRegistry)"
    using assms None unfolding Strategy_find_def sn Let_def k_def by (auto split: if_splits)
  then have "e \<in> set getRegistry" "prefix n (fst e)"
    by (metis in_set_takeD last_in_set, simp add: isPrefixOf_iff)
  with None show thesis by (intro unversioned) (simp_all add: registry_mem)
qed

text \<open>
  A name that spells out which strategy it wants, without a version and matching a registered
  name, is that strategy's name without its version.
\<close>

lemma spelled_out:
  assumes "prefix (unversioned st) n" "prefix n (getStrategyName st)" "\<not> list_ex (isVersion EITHER) n"
  shows "n = unversioned st"
proof -
  have "isVersion EITHER (last (getStrategyName st))"
    using version_of_name(1) [of st] by (simp add: last_conv_nth length_unversioned)
  with assms(3) have "n \<noteq> getStrategyName st"
    by (auto simp: list_ex_iff getStrategyName_def Name_append1_def)
  with assms(2) have "prefix n (unversioned st)"
    by (auto simp: getStrategyName_def Name_append1_def)
  with assms(1) show ?thesis by (simp add: prefix_order.antisym)
qed

lemma registry_valid: "e \<in> set getRegistry \<Longrightarrow> list_all valid_component (fst e)"
proof -
  have "list_all valid_component (getStrategyName st)" for st
    by (simp add: getStrategyName_def Name_append1_def unversioned_def generic_def valid_component_iff
        fromVersion_def fromConvention_def)
  then show "e \<in> set getRegistry \<Longrightarrow> ?thesis" by (simp add: registry_mem)
qed

lemma last_filter_last: "xs \<noteq> [] \<Longrightarrow> P (last xs) \<Longrightarrow> last (filter P xs) = last xs"
  by (induction xs rule: rev_induct) auto

text \<open>Without a version, the highest registered name that extends the given one.\<close>

lemma find_highest:
  assumes "pn_version (parseInstanceName n) = None" "n \<noteq> []" "length n < 2 ^ 64" "list_all valid_component n"
  shows "Strategy_find n =
    (let es = filter (\<lambda>e. isPrefixOf n (fst e)) getRegistry in if es = [] then None else Some (last es))"
proof -
  have sn: "pn_strategyName (parseInstanceName n) = n"
    using assms(1) unfolding parseInstanceName_def by (simp add: parse_from_unversioned)
  define B where "B = filter (\<lambda>e. fst e < Name_getSuccessor n) getRegistry"
  have before: "take (length getRegistry - length (registry_lower_bound (Name_getSuccessor n))) getRegistry = B"
    unfolding registry_lower_bound_def take_minus_dropWhile B_def by (rule sorted_takeWhile_less [OF registry_sorted])
  have found: "Strategy_find n = (if B \<noteq> [] \<and> isPrefixOf n (fst (last B)) then Some (last B) else None)"
    using assms(1,2) unfolding Strategy_find_def sn Let_def before by simp
  have es: "filter (\<lambda>e. isPrefixOf n (fst e)) getRegistry = filter (\<lambda>e. n \<le> fst e) B"
    unfolding B_def filter_filter
    by (rule filter_cong [OF refl])
      (use assms(2-) registry_valid in \<open>simp add: prefix_range name_cmp_less_iff name_cmp_le_iff conj_commute\<close>)
  have iff: "isPrefixOf n (fst e) \<longleftrightarrow> n \<le> fst e" if "e \<in> set B" for e
    using that prefix_range [OF assms(2-4) registry_valid] by (auto simp: B_def name_cmp_less_iff name_cmp_le_iff)
  have top: "fst e \<le> fst (last B)" if "e \<in> set B" for e
  proof -
    have "sorted (map fst B)" unfolding B_def using registry_sorted by (rule sorted_filter)
    with that show ?thesis
      by (cases B rule: rev_exhaust) (auto simp: sorted_append)
  qed
  show ?thesis
  proof (cases "B \<noteq> [] \<and> n \<le> fst (last B)")
    case True
    then have "filter (\<lambda>e. n \<le> fst e) B \<noteq> []" by (metis filter_empty_conv last_in_set)
    with True show ?thesis
      using iff last_in_set [of B] by (simp add: found es Let_def last_filter_last)
  next
    case False
    then have "filter (\<lambda>e. n \<le> fst e) B = []" using top by (fastforce simp: filter_empty_conv)
    with False show ?thesis
      using iff [of "last B"] last_in_set [of B] by (auto simp: found es Let_def)
  qed
qed

lemma parse_unversioned: "pn_version (parseInstanceName (unversioned st)) = None"
proof -
  have "\<not> isVersion EITHER (unversioned st ! j)" if "j < 4" for j
    using no_version_in_base [of st] that by (metis length_unversioned(1) list_ex_length)
  then have "pn_version (parse_from (unversioned st) i) = None" if "i < 4" for i
    using that by (induction i) auto
  then show ?thesis by (simp add: parseInstanceName_def length_unversioned)
qed

lemma find_unversioned: "Strategy_find (unversioned st) = Some (getStrategyName st, st)"
proof -
  have "filter (\<lambda>e. isPrefixOf (unversioned st) (fst e)) getRegistry = [(getStrategyName st, st)]"
    unfolding isPrefixOf_iff registry_eq by (cases st) (simp_all add: unversioned_prefix_iff)
  moreover have "list_all valid_component (unversioned st)"
    using registry_valid [of "(getStrategyName st, st)"]
    by (simp add: registry_mem getStrategyName_def Name_append1_def)
  ultimately show ?thesis
    using find_highest [OF parse_unversioned] by (simp add: length_unversioned)
qed

section \<open>Construction\<close>

lemma parse_from_versioned:
  "pn_version (parse_from n i) \<noteq> None \<Longrightarrow> i < length n \<Longrightarrow> list_ex (isVersion EITHER) n"
proof (induction i)
  case (Suc i)
  then show ?case by (cases "isVersion EITHER (n ! Suc i)") (auto simp: list_ex_length)
qed simp

lemma makeInstanceName_unversioned: "makeInstanceName (unversioned st) (getStrategyName st) = getStrategyName st"
  using no_version_in_base [of st]
  by (simp add: makeInstanceName_def list_ex_rev) (simp add: getStrategyName_def Name_append1_def)

lemma makeInstanceName_full: "makeInstanceName (getStrategyName st) st' = getStrategyName st"
proof -
  have "list_ex (isVersion EITHER) (getStrategyName st)"
    using version_of_name(1) [of st] length_unversioned(2) [of st] by (auto simp: list_ex_length intro!: exI [of _ 4])
  then show ?thesis by (simp add: makeInstanceName_def list_ex_rev)
qed

lemma create_named:
  "Strategy_create lc (unversioned st) = StrategyCreated \<lparr>st_type = st, st_instanceName = getStrategyName st\<rparr>"
  "Strategy_create lc (getStrategyName st) = StrategyCreated \<lparr>st_type = st, st_instanceName = getStrategyName st\<rparr>"
proof -
  have "pn_parameters (parseInstanceName (unversioned st)) = []"
    using parse_unversioned [of st] unfolding parseInstanceName_def by (simp add: parse_from_unversioned)
  then show "Strategy_create lc (unversioned st) = StrategyCreated \<lparr>st_type = st, st_instanceName = getStrategyName st\<rparr>"
    by (simp add: Strategy_create_def find_unversioned construct_def parse_unversioned makeInstanceName_unversioned)
  show "Strategy_create lc (getStrategyName st) = StrategyCreated \<lparr>st_type = st, st_instanceName = getStrategyName st\<rparr>"
    by (simp add: Strategy_create_def find_full construct_def parse_full makeInstanceName_full)
qed

lemma create_instance:
  assumes "Strategy_create lc n = StrategyCreated s"
  shows "Strategy_find n = Some (getStrategyName (st_type s), st_type s)"
    and "st_instanceName s = makeInstanceName n (getStrategyName (st_type s))"
    and "prefix n (st_instanceName s)"
proof -
  obtain e where e: "Strategy_find n = Some e" "construct lc (snd e) n = StrategyCreated s"
    using assms by (auto simp: Strategy_create_def split: option.splits)
  then have s: "s = \<lparr>st_type = snd e, st_instanceName = makeInstanceName n (getStrategyName (snd e))\<rparr>"
    by (auto simp: construct_def Let_def split: if_splits)
  have "fst e = getStrategyName (snd e)" by (rule find_cases [OF e(1)])
  with e(1) s show "Strategy_find n = Some (getStrategyName (st_type s), st_type s)" by (simp add: prod_eq_iff)
  show "st_instanceName s = makeInstanceName n (getStrategyName (st_type s))" by (simp add: s)
  then show "prefix n (st_instanceName s)" by (simp add: makeInstanceName_def Name_append1_def Let_def)
qed

text \<open>Requests that spell out the strategy give an object that is found again by its own name.\<close>

lemma create_stable:
  assumes c: "Strategy_create lc n = StrategyCreated s" and spelled: "prefix (unversioned (st_type s)) n"
  shows "Strategy_find (st_instanceName s) = Strategy_find n"
proof (cases rule: find_cases [OF create_instance(1) [OF c]])
  case 1
  moreover have "n \<noteq> []" using spelled by auto
  ultimately have "list_ex (isVersion EITHER) n"
    using parse_from_versioned [of n "length n - 1"] by (simp add: parseInstanceName_def)
  then show ?thesis by (simp add: create_instance(2) [OF c] makeInstanceName_def)
next
  case 2
  obtain r where n: "n = unversioned (st_type s) @ r" using spelled by (auto simp: prefix_def)
  have "\<not> isVersion EITHER (n ! j)" if "j < length n" for j
  proof (cases j)
    case 0
    have "\<not> isVersion EITHER (unversioned (st_type s) ! 0)"
      using no_version_in_base [of "st_type s"] length_unversioned(1) [of "st_type s"] by (auto simp: list_ex_length)
    then show ?thesis by (simp add: 0 n nth_append)
  next
    case (Suc i)
    with 2(1) that show ?thesis unfolding parseInstanceName_def by (auto dest: parse_from_unversioned)
  qed
  then have "n = unversioned (st_type s)"
    using 2(3) spelled by (intro spelled_out) (auto simp: list_ex_length)
  then show ?thesis
    by (simp add: create_instance(2) [OF c] makeInstanceName_unversioned find_full find_unversioned)
qed

section \<open>Properties\<close>

text \<open>
  C33: every registered strategy can be requested by its name with or without the version and then
  gets its full strategy name as instance name. Any strategy object that was created is of the
  class the lookup found for the request, its instance name extends the request, and when the
  request spelled out the strategy's name, looking the instance name up again selects the same
  class, which is what \<^verbatim>\<open>areSameType\<close> relies on.
\<close>

theorem Strategy_create_correct:
  "Strategy_create lc (unversioned st) = StrategyCreated \<lparr>st_type = st, st_instanceName = getStrategyName st\<rparr> \<and>
   Strategy_create lc (getStrategyName st) = StrategyCreated \<lparr>st_type = st, st_instanceName = getStrategyName st\<rparr> \<and>
   (\<forall>n s. Strategy_create lc n = StrategyCreated s \<longrightarrow>
      Strategy_find n = Some (getStrategyName (st_type s), st_type s) \<and>
      isPrefixOf n (st_instanceName s) \<and>
      (isPrefixOf (unversioned (st_type s)) n \<longrightarrow>
         areSameType (st_instanceName s) n \<and> areSameType (st_instanceName s) (getStrategyName (st_type s))))"
  using create_named create_instance create_stable
  by (auto simp: isPrefixOf_iff areSameType_def find_full)

theorem Strategy_create_correct_witness:
  "areSameType (getStrategyName FunctionChainStrategy) (unversioned FunctionChainStrategy)"
proof -
  have "Strategy_create (\<lambda>_. None) (unversioned FunctionChainStrategy) =
      StrategyCreated \<lparr>st_type = FunctionChainStrategy, st_instanceName = getStrategyName FunctionChainStrategy\<rparr>"
    by (rule create_named)
  with Strategy_create_correct [of "\<lambda>_. None" FunctionChainStrategy] show ?thesis
    by (fastforce simp: isPrefixOf_iff)
qed

text \<open>
  A partial name selects the last registered strategy under it, and the object's instance name is
  not found again: it is of the same type as no registered strategy.
\<close>

theorem partial_name_not_found_again:
  defines "n \<equiv> [generic ''localhost'', generic ''nfd'', generic ''strategy'']"
  shows "\<exists>s. Strategy_create lc n = StrategyCreated s \<and> st_type s = FunctionChainStrategy \<and>
    Strategy_find (st_instanceName s) = None"
proof -
  let ?v = "Component 35 [2]"
  have nov: "\<not> isVersion EITHER (generic ''localhost'')" "\<not> isVersion EITHER (generic ''nfd'')"
    "\<not> isVersion EITHER (generic ''strategy'')" "isVersion EITHER ?v" "toVersion EITHER ?v = Inr 2"
    "last (getStrategyName FunctionChainStrategy) = ?v"
    by code_simp+
  have p: "parseInstanceName n = \<lparr>pn_strategyName = n, pn_version = None, pn_parameters = []\<rparr>"
    using nov by (simp add: n_def parseInstanceName_def numeral_2_eq_2)
  have "prefix n (getStrategyName st)" for st
    by (simp add: n_def getStrategyName_def unversioned_def Name_append1_def)
  then have "filter (\<lambda>e. isPrefixOf n (fst e)) getRegistry = getRegistry"
    by (intro filter_True) (auto simp: registry_mem isPrefixOf_iff)
  moreover have "list_all valid_component n" by (simp add: n_def generic_def valid_component_iff)
  ultimately have "Strategy_find n = Some (getStrategyName FunctionChainStrategy, FunctionChainStrategy)"
    using find_highest [of n] p by (simp add: registry_eq n_def)
  moreover have m: "makeInstanceName n (getStrategyName FunctionChainStrategy) = n @ [?v]"
    using nov by (simp add: makeInstanceName_def n_def Name_append1_def)
  ultimately have c: "Strategy_create lc n =
      StrategyCreated \<lparr>st_type = FunctionChainStrategy, st_instanceName = n @ [?v]\<rparr>"
    by (simp add: Strategy_create_def construct_def p)
  have less: "getStrategyName st < n @ [?v]" for st
    by (simp add: n_def getStrategyName_def unversioned_def Name_append1_def generic_def less_component_def comp_cmp_def)
  have "length (n @ [?v]) = 4" by (simp add: n_def)
  then have "parseInstanceName (n @ [?v]) = \<lparr>pn_strategyName = n @ [?v], pn_version = Some 2, pn_parameters = []\<rparr>"
    using nov getSubName_eq [of 4 npos "n @ [?v]"]
    by (simp add: parseInstanceName_def numeral_3_eq_3 n_def getPrefix_take)
  moreover have "registry_lower_bound (n @ [?v]) = []"
    using less by (auto simp: registry_lower_bound_def registry_mem)
  ultimately have "Strategy_find (n @ [?v]) = None" by (simp add: Strategy_find_def)
  with c show ?thesis by simp
qed

end
