(* ===== verification/StrategyChoice.thy ===== *)
theory StrategyChoice
  imports Measurements StrategyRegistry
begin

text \<open>
  The Strategy Choice table (\<^verbatim>\<open>daemon/table/strategy-choice.cpp\<close>): which strategy object governs a
  namespace. The abstract table is a map from prefixes to strategies with an entry for the root;
  the effective strategy of a name is the one of its longest prefix with an entry. When the class
  of the effective strategy changes, the information strategies left on the PIT entries of the
  affected part of the name tree is cleared.
\<close>

record sc_state = meas_state +
  sc_nItems :: "64 word"

definition nteHasStrategyChoiceEntry :: "nte \<Rightarrow> bool" where
  "nteHasStrategyChoiceEntry e \<longleftrightarrow> nte_strategy e \<noteq> None"

text \<open>The result of a longest prefix match; the assertion that there is one is the \<^term>\<open>None\<close> case.\<close>

definition effective_of :: "nte option \<Rightarrow> strategy option" where
  "effective_of r = (case r of Some e \<Rightarrow> nte_strategy e | None \<Rightarrow> None)"

definition findEffectiveStrategy :: "name \<Rightarrow> 'a sc_state_scheme \<Rightarrow> strategy option" where
  "findEffectiveStrategy n s = effective_of (findLongestPrefixMatch n nteHasStrategyChoiceEntry (ntree s))"

text \<open>The overloads for a PIT entry, given its name and where it is attached, and for a Measurements entry.\<close>

definition findEffectiveStrategy_pit :: "name \<Rightarrow> name \<Rightarrow> 'a sc_state_scheme \<Rightarrow> strategy option" where
  "findEffectiveStrategy_pit pitName at s = effective_of (lpm_pit (ntree s) nteHasStrategyChoiceEntry pitName at)"

definition findEffectiveStrategy_measurements :: "name \<Rightarrow> 'a sc_state_scheme \<Rightarrow> strategy option" where
  "findEffectiveStrategy_measurements at s = effective_of (lpm_entry (ntree s) nteHasStrategyChoiceEntry at)"

definition setDefaultStrategy :: "(bytes \<Rightarrow> nat option) \<Rightarrow> name \<Rightarrow> 'a sc_state_scheme \<Rightarrow> 'a sc_state_scheme option" where
  "setDefaultStrategy lc strategyName s =
     (case Strategy_create lc strategyName of
        StrategyCreated st \<Rightarrow>
          Some (s\<lparr>ntree := nt_update [] (setStrategyChoiceEntry (Some st)) (nt_lookup [] 0 (ntree s)),
                  sc_nItems := sc_nItems s + 1\<rparr>)
      | _ \<Rightarrow> None)"

text \<open>Clear the strategy information on a PIT entry and its records.\<close>

definition clear_info :: "pit_entry \<Rightarrow> pit_entry" where
  "clear_info e = e\<lparr>pe_suppression := None, pe_outRecords := map (\<lambda>r. r\<lparr>or_suppression := None\<rparr>) (pe_outRecords e)\<rparr>"

definition clearStrategyInfo :: "nte \<Rightarrow> 'a sc_state_scheme \<Rightarrow> 'a sc_state_scheme" where
  "clearStrategyInfo e s = fold (\<lambda>p. pit_modify p clear_info) (nte_pits e) s"

definition changeStrategy :: "name \<Rightarrow> strategy \<Rightarrow> strategy \<Rightarrow> 'a sc_state_scheme \<Rightarrow> 'a sc_state_scheme" where
  "changeStrategy pfx oldStrategy newStrategy s =
     (if areSameType (st_instanceName oldStrategy) (st_instanceName newStrategy) then s
      else
        let ntChanged = partialEnumerate pfx
              (\<lambda>e. if nte_name e = pfx then (True, True)
                    else if nte_strategy e \<noteq> None then (False, False)
                    else (True, True)) (ntree s)
        in fold clearStrategyInfo ntChanged s)"

datatype insert_result = DEPTH_EXCEEDED | EXCEPTION | NOT_REGISTERED | INSERT_OK

text \<open>
  \<^verbatim>\<open>insert\<close>. A new entry is attached before its strategy is set; \<^verbatim>\<open>changeStrategy\<close> in between does
  not look at the strategy of the entry, so the model attaches the entry with its strategy.
  The last result is \<^term>\<open>None\<close> if the table has no effective strategy for the prefix.
\<close>

definition StrategyChoice_insert ::
    "(bytes \<Rightarrow> nat option) \<Rightarrow> name \<Rightarrow> name \<Rightarrow> 'a sc_state_scheme \<Rightarrow> ('a sc_state_scheme \<times> insert_result) option" where
  "StrategyChoice_insert lc pfx strategyName s =
     (if length pfx > getMaxDepth then Some (s, DEPTH_EXCEEDED)
      else case Strategy_create lc strategyName of
        StrategyException \<Rightarrow> Some (s, EXCEPTION)
      | StrategyNotRegistered \<Rightarrow> Some (s, NOT_REGISTERED)
      | StrategyCreated st \<Rightarrow>
          let s1 = s\<lparr>ntree := nt_lookup pfx (length pfx) (ntree s)\<rparr> in
          (case nt_strategy (ntree s1) pfx of
             Some old \<Rightarrow>
               if st_instanceName old = st_instanceName st then Some (s1, INSERT_OK)
               else
                 let s2 = changeStrategy pfx old st s1 in
                 Some (s2\<lparr>ntree := nt_update pfx (setStrategyChoiceEntry (Some st)) (ntree s2)\<rparr>, INSERT_OK)
           | None \<Rightarrow>
               (case findEffectiveStrategy pfx s1 of
                  None \<Rightarrow> None
                | Some old \<Rightarrow>
                    let s2 = s1\<lparr>ntree := nt_update pfx (setStrategyChoiceEntry (Some st)) (ntree s1),
                                sc_nItems := sc_nItems s1 + 1\<rparr>
                    in Some (changeStrategy pfx old st s2, INSERT_OK))))"

definition StrategyChoice_erase :: "name \<Rightarrow> 'a sc_state_scheme \<Rightarrow> 'a sc_state_scheme option" where
  "StrategyChoice_erase pfx s =
     (if pfx = [] then None
      else case findExactMatch pfx (length pfx) (ntree s) of
        None \<Rightarrow> Some s
      | Some e \<Rightarrow>
          (case nte_strategy e of
             None \<Rightarrow> Some s
           | Some oldStrategy \<Rightarrow>
               (case findEffectiveStrategy (getPrefix (-1) pfx) s of
                  None \<Rightarrow> None
                | Some parentStrategy \<Rightarrow>
                    let s1 = changeStrategy pfx oldStrategy parentStrategy s;
                        t = nt_update pfx (setStrategyChoiceEntry None) (ntree s1)
                    in Some (s1\<lparr>ntree := fst (eraseIfEmpty pfx True t), sc_nItems := sc_nItems s1 - 1\<rparr>))))"

definition StrategyChoice_get :: "name \<Rightarrow> 'a sc_state_scheme \<Rightarrow> bool \<times> name" where
  "StrategyChoice_get pfx s =
     (case findExactMatch pfx (length pfx) (ntree s) of
        None \<Rightarrow> (False, [])
      | Some e \<Rightarrow> (case nte_strategy e of None \<Rightarrow> (False, []) | Some st \<Rightarrow> (True, st_instanceName st)))"

section \<open>The table as a map\<close>

definition sc_inv :: "'a sc_state_scheme \<Rightarrow> bool" where
  "sc_inv s \<longleftrightarrow> nt_inv (ntree s) \<and> nt_strategy (ntree s) [] \<noteq> None \<and>
     sc_nItems s = of_nat (card (dom (nt_strategy (ntree s))))"

lemma nt_strategy_put [table_simps]:
  "nt_find t n \<noteq> None \<Longrightarrow> nt_strategy (nt_update n (setStrategyChoiceEntry m) t) = (nt_strategy t)(n := m)"
  using sc_att.get_update [of t n m] by (simp add: nt_strategy_def fun_eq_iff)

lemma nt_strategy_present: "nt_strategy t n = Some m \<Longrightarrow> nt_find t n \<noteq> None"
  using sc_att.get_absent [of t n] by (auto simp: nt_strategy_def)

lemma finite_nt_strategy: "finite (dom (nt_strategy t))"
  by (rule finite_subset [OF _ finite_nt_names [of t]]) (use nt_strategy_present in \<open>force simp: nt_names_iff\<close>)

lemma sc_lpm:
  assumes "nt_inv (ntree s)"
  shows "findEffectiveStrategy n s = longest_route (nt_strategy (ntree s)) n"
proof -
  have sel: "nteHasStrategyChoiceEntry = (\<lambda>e. nte_strategy e \<noteq> None)"
    by (simp add: nteHasStrategyChoiceEntry_def fun_eq_iff)
  have "map_option nte_strategy (findLongestPrefixMatch n nteHasStrategyChoiceEntry (ntree s)) =
    map_option (\<lambda>k. nt_strategy (ntree s) (take k n))
      (List.find (\<lambda>k. nt_strategy (ntree s) (take k n) \<noteq> None) (rev [0 ..< Suc (length n)]))"
    unfolding sel nt_strategy_def by (rule sc_att.lpm_view [OF assms]) simp
  then show ?thesis
    unfolding findEffectiveStrategy_def effective_of_def longest_route_def
    by (auto simp del: upt_Suc split: option.splits)
qed

lemma effective_exists: "sc_inv s \<Longrightarrow> findEffectiveStrategy n s \<noteq> None"
proof
  assume inv: "sc_inv s" and "findEffectiveStrategy n s = None"
  then have "longest_route (nt_strategy (ntree s)) n = None" by (simp add: sc_inv_def sc_lpm)
  from longest_route_None [OF this, of "[]"] inv show False by (simp add: sc_inv_def)
qed

section \<open>Clearing the strategy information\<close>

text \<open>The names whose effective strategy is decided by the entry at \<open>pfx\<close>.\<close>

definition governed :: "nametree \<Rightarrow> name \<Rightarrow> name \<Rightarrow> bool" where
  "governed t pfx n \<longleftrightarrow> prefix pfx n \<and> (\<forall>k. prefix pfx k \<and> k \<noteq> pfx \<and> prefix k n \<longrightarrow> nt_strategy t k = None)"

lemma keeps_identity_clear [inv_intros]: "keeps_identity clear_info"
  by (simp add: keeps_identity_def clear_info_def pit_entry_ok_def o_def)

lemma clear_info_idem: "clear_info (clear_info e) = clear_info e"
  by (simp add: clear_info_def o_def)

lemma fold_pit_modify:
  assumes "\<And>e. f (f e) = f e"
  shows "fold (\<lambda>p. pit_modify p f) ps s =
    s\<lparr>pit_heap := \<lambda>p. if p \<in> set ps then map_option f (pit_heap s p) else pit_heap s p\<rparr>"
proof (induction ps arbitrary: s)
  case (Cons p ps)
  have "map_option f (map_option f x) = map_option f x" for x
    using assms by (cases x) auto
  then have "(\<lambda>q. if q \<in> set ps then map_option f (pit_heap (pit_modify p f s) q) else pit_heap (pit_modify p f s) q) =
      (\<lambda>q. if q \<in> set (p # ps) then map_option f (pit_heap s q) else pit_heap s q)"
    by (auto simp: pit_modify_def)
  moreover have "(pit_modify p f s)\<lparr>pit_heap := h\<rparr> = s\<lparr>pit_heap := h\<rparr>" for h
    by (simp add: pit_modify_def)
  ultimately show ?case by (simp only: fold_simps Cons.IH)
qed (simp add: if_distrib)

lemma fold_clearStrategyInfo:
  "fold clearStrategyInfo es s = fold (\<lambda>p. pit_modify p clear_info) (concat (map nte_pits es)) s"
  by (induction es arbitrary: s) (simp_all add: clearStrategyInfo_def)

lemma changed_entries:
  assumes "nt_inv t" "nt_find t pfx \<noteq> None"
  defines "pred \<equiv> \<lambda>e. if nte_name e = pfx then (True, True)
                else if nte_strategy e \<noteq> None then (False, False) else (True, True)"
  shows "p \<in> set (concat (map nte_pits (partialEnumerate pfx pred t))) \<longleftrightarrow>
    (\<exists>n. p \<in> set (nt_pits t n) \<and> governed t pfx n)"
proof -
  have fi: "find_inv (nt_find t)" using assms(1) by (simp add: nt_inv_iff)
  have st: "nt_strategy t n = nte_strategy e" if "nt_find t n = Some e" for n e
    using that by (simp add: nt_strategy_def nt_get_def)
  have pr: "fst (pred e) \<longleftrightarrow> n = pfx \<or> nt_strategy t n = None" "snd (pred e) \<longleftrightarrow> n = pfx \<or> nt_strategy t n = None"
    if "nt_find t n = Some e" for n e
    using that nt_find_name [OF that] st [OF that] by (auto simp: pred_def)
  have gov: "fst (pred e) \<and> reachable_below t pred pfx m \<longleftrightarrow> governed t pfx m" if e: "nt_find t m = Some e" for m e
  proof -
    have present: "nt_find t k \<noteq> None" if "prefix k m" for k
      using find_inv_prefix [OF fi _ that] e by simp
    then have "reachable_below t pred pfx m \<longleftrightarrow> prefix pfx m \<and>
        (\<forall>k. prefix pfx k \<longrightarrow> strict_prefix k m \<longrightarrow> k = pfx \<or> nt_strategy t k = None)"
      unfolding reachable_below_def using pr(2) by (metis not_Some_eq strict_prefix_def)
    then show ?thesis unfolding governed_def pr(1) [OF e] strict_prefix_def by auto
  qed
  have "p \<in> set (concat (map nte_pits (partialEnumerate pfx pred t))) \<longleftrightarrow>
      (\<exists>m e. nt_find t m = Some e \<and> p \<in> set (nte_pits e) \<and> governed t pfx m)"
    using partialEnumerate_mem [OF assms(1), of _ pfx pred] assms(2) gov by auto blast+
  also have "\<dots> \<longleftrightarrow> (\<exists>m. p \<in> set (nt_pits t m) \<and> governed t pfx m)"
  proof -
    have "nt_find t m \<noteq> None" if "p \<in> set (nt_pits t m)" for m
      using that by (intro nt_pits_present) auto
    then show ?thesis by (metis nt_pits_find not_None_eq)
  qed
  finally show ?thesis .
qed

lemma changeStrategy_eq:
  assumes "nt_inv (ntree s)" "nt_find (ntree s) pfx \<noteq> None"
  shows "changeStrategy pfx old new s =
    (if areSameType (st_instanceName old) (st_instanceName new) then s
     else s\<lparr>pit_heap := \<lambda>p. if \<exists>n. p \<in> set (nt_pits (ntree s) n) \<and> governed (ntree s) pfx n
                             then map_option clear_info (pit_heap s p) else pit_heap s p\<rparr>)"
  unfolding changeStrategy_def Let_def fold_clearStrategyInfo fold_pit_modify [OF clear_info_idem]
    changed_entries [OF assms] ..

lemma changeStrategy_frame: "\<exists>h. changeStrategy pfx old new s = s\<lparr>pit_heap := h\<rparr>"
proof (cases "areSameType (st_instanceName old) (st_instanceName new)")
  case True
  then show ?thesis by (intro exI [of _ "pit_heap s"]) (simp add: changeStrategy_def)
next
  case False
  then show ?thesis
    unfolding changeStrategy_def Let_def fold_clearStrategyInfo fold_pit_modify [OF clear_info_idem] by auto
qed

lemma changeStrategy_simps [simp]:
  "ntree (changeStrategy pfx old new s) = ntree s" "sc_nItems (changeStrategy pfx old new s) = sc_nItems s"
  using changeStrategy_frame [of pfx old new s] by auto

lemma fold_pit_inv: "pit_inv s \<Longrightarrow> keeps_identity f \<Longrightarrow> pit_inv (fold (\<lambda>p. pit_modify p f) ps s)"
  by (induction ps arbitrary: s) (simp_all add: pit_inv_modify)

lemma changeStrategy_pit_inv: "pit_inv s \<Longrightarrow> pit_inv (changeStrategy pfx old new s)"
  by (simp add: changeStrategy_def Let_def fold_clearStrategyInfo fold_pit_inv keeps_identity_clear)

section \<open>Insert and erase\<close>

lemma sc_inv_put:
  assumes "sc_inv s" "nt_find (ntree s) n \<noteq> None" "r = None \<Longrightarrow> n \<noteq> []"
    "k = of_nat (card (dom ((nt_strategy (ntree s))(n := r))))"
  shows "sc_inv (s\<lparr>ntree := nt_update n (setStrategyChoiceEntry r) (ntree s), sc_nItems := k\<rparr>)"
  using assms sc_att.put_inv by (auto simp: sc_inv_def nt_strategy_put)

lemma sc_inv_heap: "sc_inv (s\<lparr>pit_heap := h\<rparr>) \<longleftrightarrow> sc_inv s"
  by (simp add: sc_inv_def)

lemma sc_inv_lookup:
  "sc_inv s \<Longrightarrow> length n \<le> getMaxDepth \<Longrightarrow> sc_inv (s\<lparr>ntree := nt_lookup n (length n) (ntree s)\<rparr>)"
  by (simp add: sc_inv_def nt_lookup_inv nt_strategy_lookup)

lemma card_dom_update: "m n = Some x \<Longrightarrow> card (dom (m(n \<mapsto> y))) = card (dom m)"
  by (simp add: insert_absorb domI)

lemma card_dom_new: "finite (dom m) \<Longrightarrow> m n = None \<Longrightarrow> of_nat (card (dom (m(n \<mapsto> y)))) = (of_nat (card (dom m)) + 1 :: 64 word)"
  by (simp add: domIff)

text \<open>What \<^verbatim>\<open>insert\<close> puts at the prefix: an equally named strategy that is already there stays.\<close>

definition sc_new :: "strategy option \<Rightarrow> strategy \<Rightarrow> strategy" where
  "sc_new r st = (case r of Some old \<Rightarrow> if st_instanceName old = st_instanceName st then old else st | None \<Rightarrow> st)"

lemma StrategyChoice_insert_ok:
  assumes inv: "sc_inv s" and "length pfx \<le> getMaxDepth" and "Strategy_create lc n = StrategyCreated st"
  shows "\<exists>s'. StrategyChoice_insert lc pfx n s = Some (s', INSERT_OK) \<and> sc_inv s' \<and>
    nt_strategy (ntree s') = (nt_strategy (ntree s))(pfx \<mapsto> sc_new (nt_strategy (ntree s) pfx) st)"
proof -
  define s1 where "s1 = s\<lparr>ntree := nt_lookup pfx (length pfx) (ntree s)\<rparr>"
  have s1: "sc_inv s1" "nt_find (ntree s1) pfx \<noteq> None" "nt_strategy (ntree s1) = nt_strategy (ntree s)"
    using sc_inv_lookup [OF inv assms(2)] nt_find_lookup_self [of "ntree s" pfx] inv assms(2)
    by (auto simp: s1_def sc_inv_def nt_strategy_lookup)
  have ins: "StrategyChoice_insert lc pfx n s =
      (case nt_strategy (ntree s1) pfx of
             Some old \<Rightarrow>
               if st_instanceName old = st_instanceName st then Some (s1, INSERT_OK)
               else
                 let s2 = changeStrategy pfx old st s1 in
                 Some (s2\<lparr>ntree := nt_update pfx (setStrategyChoiceEntry (Some st)) (ntree s2)\<rparr>, INSERT_OK)
           | None \<Rightarrow>
               (case findEffectiveStrategy pfx s1 of
                  None \<Rightarrow> None
                | Some old \<Rightarrow>
                    let s2 = s1\<lparr>ntree := nt_update pfx (setStrategyChoiceEntry (Some st)) (ntree s1),
                                sc_nItems := sc_nItems s1 + 1\<rparr>
                    in Some (changeStrategy pfx old st s2, INSERT_OK)))"
    using assms(2,3) unfolding StrategyChoice_insert_def s1_def by (simp add: Let_def)
  show ?thesis
  proof (cases "nt_strategy (ntree s1) pfx")
    case (Some old)
    obtain h where h: "changeStrategy pfx old st s1 = s1\<lparr>pit_heap := h\<rparr>" using changeStrategy_frame by blast
    have "sc_inv (s1\<lparr>ntree := nt_update pfx (setStrategyChoiceEntry (Some st)) (ntree s1), sc_nItems := sc_nItems s1\<rparr>)"
      using s1(1) card_dom_update [of "nt_strategy (ntree s1)" pfx, OF Some]
      by (intro sc_inv_put s1) (simp_all only: sc_inv_def, auto)
    then have "sc_inv (s1\<lparr>pit_heap := h, ntree := nt_update pfx (setStrategyChoiceEntry (Some st)) (ntree s1)\<rparr>)"
      by (simp add: sc_inv_def)
    moreover have so: "nt_strategy (ntree s) pfx = Some old" using Some s1(3) by simp
    ultimately show ?thesis
      using s1 unfolding ins Some option.case h Let_def
      by (auto simp: sc_new_def nt_strategy_put so fun_upd_idem [of "nt_strategy (ntree s)", OF so])
  next
    case None
    obtain old where old: "findEffectiveStrategy pfx s1 = Some old" using effective_exists [OF s1(1)] by blast
    define s2 where "s2 = s1\<lparr>ntree := nt_update pfx (setStrategyChoiceEntry (Some st)) (ntree s1),
                                sc_nItems := sc_nItems s1 + 1\<rparr>"
    obtain h where h: "changeStrategy pfx old st s2 = s2\<lparr>pit_heap := h\<rparr>" using changeStrategy_frame by blast
    have "sc_inv s2" unfolding s2_def
      using s1(1) card_dom_new [of "nt_strategy (ntree s1)" pfx, OF finite_nt_strategy None]
      by (intro sc_inv_put s1) (simp_all only: sc_inv_def, auto)
    then have "sc_inv (s2\<lparr>pit_heap := h\<rparr>)" by (simp add: sc_inv_heap)
    moreover have "nt_strategy (ntree s2) = (nt_strategy (ntree s))(pfx \<mapsto> sc_new (nt_strategy (ntree s) pfx) st)"
      using s1 None by (simp add: s2_def nt_strategy_put sc_new_def)
    ultimately show ?thesis
      unfolding ins None old option.case s2_def [symmetric] Let_def h by simp
  qed
qed

lemma StrategyChoice_insert_fails:
  "length pfx > getMaxDepth \<Longrightarrow> StrategyChoice_insert lc pfx n s = Some (s, DEPTH_EXCEEDED)"
  "length pfx \<le> getMaxDepth \<Longrightarrow> Strategy_create lc n = StrategyException \<Longrightarrow>
     StrategyChoice_insert lc pfx n s = Some (s, EXCEPTION)"
  "length pfx \<le> getMaxDepth \<Longrightarrow> Strategy_create lc n = StrategyNotRegistered \<Longrightarrow>
     StrategyChoice_insert lc pfx n s = Some (s, NOT_REGISTERED)"
  by (simp_all add: StrategyChoice_insert_def)

lemma StrategyChoice_erase_ok:
  assumes inv: "sc_inv s" and "pfx \<noteq> []"
  shows "\<exists>s'. StrategyChoice_erase pfx s = Some s' \<and> sc_inv s' \<and>
    nt_strategy (ntree s') = (nt_strategy (ntree s))(pfx := None)"
proof (cases "nt_strategy (ntree s) pfx")
  case None
  have "StrategyChoice_erase pfx s = Some s"
    using None assms(2) findExactMatch_self [of "ntree s" pfx] inv
    by (auto simp: StrategyChoice_erase_def nt_strategy_def nt_get_def sc_inv_def split: option.split)
  with None inv show ?thesis by (simp add: fun_upd_idem)
next
  case (Some old)
  obtain e where e: "nt_find (ntree s) pfx = Some e" "nte_strategy e = Some old"
    using Some nt_strategy_present [OF Some] by (auto simp: nt_strategy_def nt_get_def)
  obtain parent where parent: "findEffectiveStrategy (getPrefix (-1) pfx) s = Some parent"
    using effective_exists [OF inv] by blast
  obtain h where h: "changeStrategy pfx old parent s = s\<lparr>pit_heap := h\<rparr>" using changeStrategy_frame by blast
  let ?t = "nt_update pfx (setStrategyChoiceEntry None) (ntree s)"
  have er: "StrategyChoice_erase pfx s =
      Some (s\<lparr>pit_heap := h, ntree := fst (eraseIfEmpty pfx True ?t), sc_nItems := sc_nItems s - 1\<rparr>)"
    using assms e inv by (simp add: StrategyChoice_erase_def findExactMatch_self sc_inv_def parent h)
  have i: "sc_inv (s\<lparr>ntree := ?t, sc_nItems := sc_nItems s - 1\<rparr>)"
    using inv e(1) assms(2) word_card_dom_delete [OF finite_nt_strategy Some]
    by (intro sc_inv_put inv) (auto simp: sc_inv_def)
  then have t: "nt_inv ?t" by (simp add: sc_inv_def)
  have "nt_strategy (fst (eraseIfEmpty pfx True ?t)) = (nt_strategy (ntree s))(pfx := None)"
    using e(1) by (simp add: nt_strategy_erase [OF t] nt_strategy_put)
  moreover have "sc_inv (s\<lparr>pit_heap := h, ntree := fst (eraseIfEmpty pfx True ?t), sc_nItems := sc_nItems s - 1\<rparr>)"
    using i by (simp add: sc_inv_def eraseIfEmpty_inv nt_strategy_erase [OF t])
  ultimately show ?thesis unfolding er by auto
qed

section \<open>Properties\<close>

text \<open>An initial table with the default strategy at the root.\<close>

definition sc_empty :: sc_state where
  "sc_empty = \<lparr>ntree = [], fib_nItems = 0, pit_heap = Map.empty, pit_next = 0, pit_nItems = 0,
     meas_nItems = 0, sc_nItems = 0\<rparr>"

definition sc_default :: sc_state where
  "sc_default = the (setDefaultStrategy (\<lambda>_. None) getDefaultStrategyName sc_empty)"

definition best_route :: strategy where
  "best_route = \<lparr>st_type = BestRouteStrategy, st_instanceName = getStrategyName BestRouteStrategy\<rparr>"

lemma setDefaultStrategy_default:
  "setDefaultStrategy lc getDefaultStrategyName s =
     Some (s\<lparr>ntree := nt_update [] (setStrategyChoiceEntry (Some best_route)) (nt_lookup [] 0 (ntree s)),
             sc_nItems := sc_nItems s + 1\<rparr>)"
  by (simp add: setDefaultStrategy_def getDefaultStrategyName_def create_named best_route_def)

lemma setDefaultStrategy_view:
  assumes "nt_inv t"
  shows "nt_inv (nt_update [] (setStrategyChoiceEntry (Some st)) (nt_lookup [] 0 t))"
    and "nt_strategy (nt_update [] (setStrategyChoiceEntry (Some st)) (nt_lookup [] 0 t)) = (nt_strategy t)([] \<mapsto> st)"
  using sc_att.attach_inv [OF assms, of 0 "[]" "Some st"] sc_att.attach_view [OF assms, of 0 "[]" "Some st"]
  by (simp_all add: nt_strategy_def [abs_def])

lemma sc_default_inv: "sc_inv sc_default" and sc_default_abs: "nt_strategy (ntree sc_default) = [[] \<mapsto> best_route]"
proof -
  have t: "nt_inv (ntree sc_empty)" by (simp add: sc_empty_def)
  show v: "nt_strategy (ntree sc_default) = [[] \<mapsto> best_route]"
    using setDefaultStrategy_view(2) [OF t] by (simp add: sc_default_def setDefaultStrategy_default) (simp add: sc_empty_def)
  show "sc_inv sc_default"
    using setDefaultStrategy_view(1) [OF t] unfolding sc_inv_def v
    by (simp add: sc_default_def setDefaultStrategy_default sc_empty_def)
qed



end
