(* ===== verification/FaceTable.thy ===== *)
theory FaceTable
  imports NdnPrelude
begin

text \<open>
  Faces as the forwarder sees them (\<^verbatim>\<open>daemon/face/face.hpp\<close>) and the face table
  (\<^verbatim>\<open>daemon/fw/face-table.cpp\<close>). Face objects live in a store indexed by their addresses, which the
  tables use to refer to them; the table maps face identifiers, of type \<^verbatim>\<open>uint64_t\<close>, to addresses.
  The signals \<^verbatim>\<open>afterAdd\<close> and \<^verbatim>\<open>beforeRemove\<close> are raised by the callers in theory \<open>Forwarder\<close>.
\<close>

text \<open>The values \<^verbatim>\<open>FACE_SCOPE_NONE\<close> and \<^verbatim>\<open>LINK_TYPE_NONE\<close> are not those of a face.\<close>

datatype face_scope = FACE_SCOPE_NON_LOCAL | FACE_SCOPE_LOCAL

datatype link_type = LINK_TYPE_POINT_TO_POINT | LINK_TYPE_MULTI_ACCESS | LINK_TYPE_AD_HOC

record face =
  f_id :: nat
  f_scope :: face_scope
  f_linkType :: link_type
  f_nInHopLimitZero :: "64 word"
  f_nOutHopLimitZero :: "64 word"

definition INVALID_FACEID :: nat where "INVALID_FACEID = 0"
definition FACEID_CONTENT_STORE :: nat where "FACEID_CONTENT_STORE = 254"
definition FACEID_RESERVED_MAX :: nat where "FACEID_RESERVED_MAX = 255"

text \<open>\<^verbatim>\<open>m_faces\<close> is a \<^verbatim>\<open>std::map\<close>: an association list in the order of the identifiers.\<close>

record face_table =
  ft_store :: "face_ptr \<Rightarrow> face"
  ft_faces :: "(nat \<times> face_ptr) list"
  ft_lastFaceId :: nat

definition FaceTable_new :: "(face_ptr \<Rightarrow> face) \<Rightarrow> face_table" where
  "FaceTable_new store = \<lparr>ft_store = store, ft_faces = [], ft_lastFaceId = FACEID_RESERVED_MAX\<rparr>"

definition FaceTable_get :: "nat \<Rightarrow> face_table \<Rightarrow> face_ptr option" where
  "FaceTable_get i ft = map_of (ft_faces ft) i"

definition FaceTable_size :: "face_table \<Rightarrow> nat" where
  "FaceTable_size ft = length (ft_faces ft)"

definition setId :: "nat \<Rightarrow> face_ptr \<Rightarrow> face_table \<Rightarrow> face_table" where
  "setId i p ft = ft\<lparr>ft_store := (ft_store ft)(p := (ft_store ft p)\<lparr>f_id := i\<rparr>)\<rparr>"

text \<open>\<^verbatim>\<open>emplace\<close> does nothing if the identifier is taken; \<^verbatim>\<open>BOOST_VERIFY\<close> asserts that it is not.\<close>

definition addImpl :: "face_ptr \<Rightarrow> nat \<Rightarrow> face_table \<Rightarrow> face_table" where
  "addImpl p i ft =
     (let ft = setId i p ft in
      if FaceTable_get i ft = None then ft\<lparr>ft_faces := insort_key fst (i, p) (ft_faces ft)\<rparr> else ft)"

definition FaceTable_add :: "face_ptr \<Rightarrow> face_table \<Rightarrow> face_table" where
  "FaceTable_add p ft =
     (let i = f_id (ft_store ft p) in
      if i \<noteq> INVALID_FACEID \<and> FaceTable_get i ft \<noteq> None then ft
      else
        let faceId = (ft_lastFaceId ft + 1) mod 2 ^ 64
        in addImpl p faceId (ft\<lparr>ft_lastFaceId := faceId\<rparr>))"

definition addReserved :: "face_ptr \<Rightarrow> nat \<Rightarrow> face_table \<Rightarrow> face_table" where
  "addReserved p i ft = addImpl p i ft"

text \<open>\<^verbatim>\<open>remove\<close>, after the \<^verbatim>\<open>beforeRemove\<close> signal; the iterator is valid by the assertion.\<close>

definition FaceTable_remove :: "nat \<Rightarrow> face_table \<Rightarrow> face_table" where
  "FaceTable_remove i ft =
     (case FaceTable_get i ft of
        Some p \<Rightarrow> setId INVALID_FACEID p (ft\<lparr>ft_faces := delete_first (\<lambda>e. fst e = i) (ft_faces ft)\<rparr>)
      | None \<Rightarrow> ft)"

section \<open>Identifiers denote faces\<close>

text \<open>
  The table lists each identifier and each face once, in order; a listed face carries the
  identifier it is listed under, which is a valid one; identifiers above the last one given out
  are free.
\<close>

definition ft_inv :: "face_table \<Rightarrow> bool" where
  "ft_inv ft \<longleftrightarrow>
     sorted (map fst (ft_faces ft)) \<and> distinct (map fst (ft_faces ft)) \<and> distinct (map snd (ft_faces ft)) \<and>
     (\<forall>(i, p) \<in> set (ft_faces ft). f_id (ft_store ft p) = i \<and> i \<noteq> INVALID_FACEID \<and> i \<le> ft_lastFaceId ft) \<and>
     (\<forall>p. f_id (ft_store ft p) \<noteq> INVALID_FACEID \<longrightarrow> p \<in> snd ` set (ft_faces ft)) \<and>
     FACEID_RESERVED_MAX \<le> ft_lastFaceId ft \<and> ft_lastFaceId ft < 2 ^ 64"

lemma ft_get_iff: "ft_inv ft \<Longrightarrow> FaceTable_get i ft = Some p \<longleftrightarrow> (i, p) \<in> set (ft_faces ft)"
  by (simp add: FaceTable_get_def ft_inv_def)

lemma ft_get_id:
  assumes "ft_inv ft" "i \<noteq> INVALID_FACEID"
  shows "FaceTable_get i ft = Some p \<longleftrightarrow> f_id (ft_store ft p) = i"
proof
  assume "FaceTable_get i ft = Some p"
  then show "f_id (ft_store ft p) = i" using ft_get_iff [OF assms(1)] assms(1) by (auto simp: ft_inv_def)
next
  assume i: "f_id (ft_store ft p) = i"
  with assms have "p \<in> snd ` set (ft_faces ft)" by (auto simp: ft_inv_def)
  then obtain j where "(j, p) \<in> set (ft_faces ft)" by auto
  moreover from this have "j = i" using assms(1) i by (auto simp: ft_inv_def)
  ultimately show "FaceTable_get i ft = Some p" by (simp add: ft_get_iff [OF assms(1)])
qed

lemma ft_id_unique:
  "ft_inv ft \<Longrightarrow> f_id (ft_store ft p) \<noteq> INVALID_FACEID \<Longrightarrow> f_id (ft_store ft p) = f_id (ft_store ft q) \<Longrightarrow> p = q"
  using ft_get_id [of ft "f_id (ft_store ft p)" p] ft_get_id [of ft "f_id (ft_store ft p)" q] by simp

lemma ft_inv_new: "(\<And>p. f_id (store p) = INVALID_FACEID) \<Longrightarrow> ft_inv (FaceTable_new store)"
  by (simp add: ft_inv_def FaceTable_new_def FACEID_RESERVED_MAX_def)

lemma map_of_insort:
  "i \<notin> fst ` set xs \<Longrightarrow> map_of (insort_key fst (i, p) xs) j = (if j = i then Some p else map_of xs j)"
  by (induction xs) auto

lemma addImpl_inv:
  assumes inv: "ft_inv ft" and "f_id (ft_store ft p) = INVALID_FACEID" "i \<noteq> INVALID_FACEID"
    "FaceTable_get i ft = None" "i \<le> l" "ft_lastFaceId ft \<le> l" "l < 2 ^ 64"
  shows "ft_inv (addImpl p i (ft\<lparr>ft_lastFaceId := l\<rparr>))"
    and "FaceTable_get j (addImpl p i (ft\<lparr>ft_lastFaceId := l\<rparr>)) = (if j = i then Some p else FaceTable_get j ft)"
    and "f_scope (ft_store (addImpl p i (ft\<lparr>ft_lastFaceId := l\<rparr>)) q) = f_scope (ft_store ft q)"
proof -
  have e: "addImpl p i (ft\<lparr>ft_lastFaceId := l\<rparr>) =
      ft\<lparr>ft_lastFaceId := l, ft_store := (ft_store ft)(p := (ft_store ft p)\<lparr>f_id := i\<rparr>),
         ft_faces := insort_key fst (i, p) (ft_faces ft)\<rparr>"
    using assms(4) by (simp add: addImpl_def setId_def FaceTable_get_def)
  have fresh: "i \<notin> fst ` set (ft_faces ft)"
    using assms(4) by (simp add: FaceTable_get_def map_of_eq_None_iff)
  have p: "p \<notin> snd ` set (ft_faces ft)"
    using inv assms(2) by (fastforce simp: ft_inv_def)
  have d: "distinct (map f (insort_key fst x xs)) \<longleftrightarrow> distinct (map f (x # xs))" for f :: "nat \<times> nat \<Rightarrow> nat" and x xs
    by (induction xs) (auto simp: set_insort_key)
  have "f_id (ft_store ft q) = j \<and> j \<noteq> INVALID_FACEID \<and> j \<le> l" "q \<noteq> p" if "(j, q) \<in> set (ft_faces ft)" for j q
    using that inv p assms(6) by (force simp: ft_inv_def)+
  then show "ft_inv (addImpl p i (ft\<lparr>ft_lastFaceId := l\<rparr>))"
    using inv assms fresh p unfolding e ft_inv_def
    by (auto simp: sorted_insort_key d set_insort_key image_iff)
  show "FaceTable_get j (addImpl p i (ft\<lparr>ft_lastFaceId := l\<rparr>)) = (if j = i then Some p else FaceTable_get j ft)"
    unfolding e FaceTable_get_def using fresh by (simp add: map_of_insort)
  show "f_scope (ft_store (addImpl p i (ft\<lparr>ft_lastFaceId := l\<rparr>)) q) = f_scope (ft_store ft q)"
    by (simp add: e)
qed

lemma FaceTable_add_ok:
  assumes inv: "ft_inv ft" and "f_id (ft_store ft p) = INVALID_FACEID" "ft_lastFaceId ft + 1 < 2 ^ 64"
  shows "ft_inv (FaceTable_add p ft)"
    and "FaceTable_get j (FaceTable_add p ft) = (if j = ft_lastFaceId ft + 1 then Some p else FaceTable_get j ft)"
    and "f_scope (ft_store (FaceTable_add p ft) q) = f_scope (ft_store ft q)"
proof -
  let ?i = "ft_lastFaceId ft + 1"
  have e: "FaceTable_add p ft = addImpl p ?i (ft\<lparr>ft_lastFaceId := ?i\<rparr>)"
    using assms by (simp add: FaceTable_add_def Let_def)
  have "FaceTable_get ?i ft = None"
  proof (rule ccontr)
    assume "FaceTable_get ?i ft \<noteq> None"
    then obtain q where "(?i, q) \<in> set (ft_faces ft)" using ft_get_iff [OF inv] by blast
    with inv show False by (fastforce simp: ft_inv_def)
  qed
  note a = addImpl_inv [OF inv assms(2) _ this order_refl _ assms(3)]
  show "ft_inv (FaceTable_add p ft)"
    "FaceTable_get j (FaceTable_add p ft) = (if j = ?i then Some p else FaceTable_get j ft)"
    "f_scope (ft_store (FaceTable_add p ft) q) = f_scope (ft_store ft q)"
    unfolding e by (rule a; simp add: INVALID_FACEID_def)+
qed

lemma map_of_filter_key: "map_of (filter (\<lambda>x. fst x \<noteq> i) xs) j = (if j = i then None else map_of xs j)"
  by (induction xs) auto

lemma FaceTable_remove_ok:
  assumes inv: "ft_inv ft" and g: "FaceTable_get i ft = Some p"
  shows "ft_inv (FaceTable_remove i ft)"
    and "FaceTable_get j (FaceTable_remove i ft) = (if j = i then None else FaceTable_get j ft)"
    and "f_id (ft_store (FaceTable_remove i ft) p) = INVALID_FACEID"
proof -
  have d: "distinct (map fst (ft_faces ft))" "distinct (map snd (ft_faces ft))"
    using inv by (auto simp: ft_inv_def)
  have e: "FaceTable_remove i ft = ft\<lparr>ft_faces := filter (\<lambda>x. fst x \<noteq> i) (ft_faces ft),
      ft_store := (ft_store ft)(p := (ft_store ft p)\<lparr>f_id := INVALID_FACEID\<rparr>)\<rparr>"
    using g d(1) by (simp add: FaceTable_remove_def setId_def delete_first_filter)
  have ip: "(i, p) \<in> set (ft_faces ft)" using g ft_get_iff [OF inv] by simp
  have only: "q = p \<longleftrightarrow> j = i" if "(j, q) \<in> set (ft_faces ft)" for j q
    using d ip that by (metis (no_types, lifting) distinct_map fst_conv inj_on_eq_iff prod.inject snd_conv)
  show "ft_inv (FaceTable_remove i ft)"
    using inv only unfolding e ft_inv_def
    by (auto simp: sorted_filter distinct_map_filter image_iff split: prod.splits) force+
  show "FaceTable_get j (FaceTable_remove i ft) = (if j = i then None else FaceTable_get j ft)"
    unfolding e FaceTable_get_def by (simp add: map_of_filter_key)
  show "f_id (ft_store (FaceTable_remove i ft) p) = INVALID_FACEID" by (simp add: e)
qed

end
