(* ===== verification/Algorithm.thy ===== *)
theory Algorithm
  imports Pit FaceTable StrategyRegistry
begin

text \<open>
  The algorithms the pipelines and the strategies share (\<^verbatim>\<open>daemon/fw/algorithm.cpp\<close>,
  \<^verbatim>\<open>scope-prefix.cpp\<close>): scope control, duplicate nonces, pending out-records and eligible nexthops;
  and the retransmission suppression (\<^verbatim>\<open>retx-suppression-exponential.cpp\<close>,
  \<^verbatim>\<open>retx-suppression-fixed.cpp\<close>).
\<close>

section \<open>Scope\<close>

definition LOCALHOST :: name where "LOCALHOST = [generic ''localhost'']"
definition LOCALHOP :: name where "LOCALHOP = [generic ''localhop'']"

definition wouldViolateScope :: "face \<Rightarrow> interest \<Rightarrow> face \<Rightarrow> bool" where
  "wouldViolateScope inFace i outFace =
     (if f_scope outFace = FACE_SCOPE_LOCAL then False
      else if isPrefixOf LOCALHOST (i_name i) then True
      else if isPrefixOf LOCALHOP (i_name i) then f_scope inFace \<noteq> FACE_SCOPE_LOCAL
      else False)"

section \<open>PIT entries\<close>

text \<open>The bits of \<^verbatim>\<open>DuplicateNonceWhere\<close>: in-record and out-record of the same and of another face.\<close>

record duplicate_nonce =
  IN_SAME :: bool
  IN_OTHER :: bool
  OUT_SAME :: bool
  OUT_OTHER :: bool

definition DUPLICATE_NONCE_NONE :: duplicate_nonce where
  "DUPLICATE_NONCE_NONE = \<lparr>IN_SAME = False, IN_OTHER = False, OUT_SAME = False, OUT_OTHER = False\<rparr>"

definition findDuplicateNonce :: "pit_entry \<Rightarrow> nonce \<Rightarrow> face_ptr \<Rightarrow> duplicate_nonce" where
  "findDuplicateNonce e nonce face =
     (let dnw = fold (\<lambda>r dnw. if fr_lastNonce r = nonce
                               then if fr_face r = face then dnw\<lparr>IN_SAME := True\<rparr> else dnw\<lparr>IN_OTHER := True\<rparr>
                               else dnw) (pe_inRecords e) DUPLICATE_NONCE_NONE
      in fold (\<lambda>r dnw. if fr_lastNonce r = nonce
                        then if fr_face r = face then dnw\<lparr>OUT_SAME := True\<rparr> else dnw\<lparr>OUT_OTHER := True\<rparr>
                        else dnw) (pe_outRecords e) dnw)"

definition hasPendingOutRecords :: "time_ns \<Rightarrow> pit_entry \<Rightarrow> bool" where
  "hasPendingOutRecords now e = list_ex (\<lambda>r. fr_expiry r \<ge> now \<and> or_incomingNack r = None) (pe_outRecords e)"

text \<open>The time of the last out-record; the assertion that there is one is the \<^term>\<open>None\<close> case.\<close>

definition getLastOutgoing :: "pit_entry \<Rightarrow> time_ns option" where
  "getLastOutgoing e =
     (case pe_outRecords e of
        [] \<Rightarrow> None
      | r # rs \<Rightarrow> Some (fold (\<lambda>r t. max t (fr_lastRenewed r)) rs (fr_lastRenewed r)))"

text \<open>\<open>store\<close> gives the face at an address.\<close>

definition isNextHopEligible ::
    "(face_ptr \<Rightarrow> face) \<Rightarrow> face_ptr \<Rightarrow> interest \<Rightarrow> nexthop \<Rightarrow> pit_entry \<Rightarrow> bool \<Rightarrow> time_ns \<Rightarrow> bool" where
  "isNextHopEligible store inFace i nh e wantUnused now =
     (let outFace = store (nh_face nh) in
      if (f_id outFace = f_id (store inFace) \<and> f_linkType outFace \<noteq> LINK_TYPE_AD_HOC) \<or>
         wouldViolateScope (store inFace) i outFace
      then False
      else if wantUnused then
        (case getOutRecord (nh_face nh) e of
           Some r \<Rightarrow> \<not> fr_expiry r > now
         | None \<Rightarrow> True)
      else True)"

definition TimePoint_max :: time_ns where "TimePoint_max = 2 ^ 63 - 1"

text \<open>
  The loop of \<^verbatim>\<open>findEligibleNextHopWithEarliestOutRecord\<close>. Every eligible nexthop has an out-record,
  as the assertion says; one without is passed over.
\<close>

fun earliest_loop ::
    "(face_ptr \<Rightarrow> face) \<Rightarrow> face_ptr \<Rightarrow> interest \<Rightarrow> pit_entry \<Rightarrow> nexthop list \<Rightarrow> nexthop option \<Rightarrow> time_ns \<Rightarrow> nexthop option" where
  "earliest_loop store inFace i e [] found earliest = found"
| "earliest_loop store inFace i e (nh # nhs) found earliest =
     (if \<not> isNextHopEligible store inFace i nh e False TimePoint_min
      then earliest_loop store inFace i e nhs found earliest
      else case getOutRecord (nh_face nh) e of
             None \<Rightarrow> earliest_loop store inFace i e nhs found earliest
           | Some r \<Rightarrow>
               if fr_lastRenewed r < earliest
               then earliest_loop store inFace i e nhs (Some nh) (fr_lastRenewed r)
               else earliest_loop store inFace i e nhs found earliest)"

definition findEligibleNextHopWithEarliestOutRecord ::
    "(face_ptr \<Rightarrow> face) \<Rightarrow> face_ptr \<Rightarrow> interest \<Rightarrow> nexthop list \<Rightarrow> pit_entry \<Rightarrow> nexthop option" where
  "findEligibleNextHopWithEarliestOutRecord store inFace i nhs e =
     earliest_loop store inFace i e nhs None TimePoint_max"

section \<open>Retransmission suppression\<close>

datatype suppression_result = NEW | FORWARD | SUPPRESS

text \<open>
  Intervals in nanoseconds. The source keeps them in microseconds and multiplies them with the
  \<^verbatim>\<open>float\<close> 2.0, which is exact below \<open>2^24\<close> microseconds; the cap is 250000.
\<close>

record retx_exponential =
  rx_initialInterval :: time_ns
  rx_maxInterval :: time_ns

definition next_interval :: "retx_exponential \<Rightarrow> time_ns \<Rightarrow> time_ns" where
  "next_interval rx t = min (rx_maxInterval rx) (t * 2)"

definition decidePerPitEntry :: "retx_exponential \<Rightarrow> time_ns \<Rightarrow> pit_entry \<Rightarrow> suppression_result \<times> pit_entry" where
  "decidePerPitEntry rx now e =
     (let isNewPitEntry = \<not> hasPendingOutRecords now e in
      if isNewPitEntry then (NEW, e)
      else case getLastOutgoing e of
        None \<Rightarrow> (NEW, e)
      | Some lastOutgoing \<Rightarrow>
          let sinceLastOutgoing = now - lastOutgoing;
              pi = (case pe_suppression e of Some t \<Rightarrow> t | None \<Rightarrow> rx_initialInterval rx);
              shouldSuppress = sinceLastOutgoing < pi
          in if shouldSuppress then (SUPPRESS, e\<lparr>pe_suppression := Some pi\<rparr>)
             else (FORWARD, e\<lparr>pe_suppression := Some (next_interval rx pi)\<rparr>))"

definition or_modify :: "face_ptr \<Rightarrow> (out_record \<Rightarrow> out_record) \<Rightarrow> pit_entry \<Rightarrow> pit_entry" where
  "or_modify face f e = e\<lparr>pe_outRecords := update_first (\<lambda>r. fr_face r = face) f (pe_outRecords e)\<rparr>"

definition decidePerUpstream :: "retx_exponential \<Rightarrow> time_ns \<Rightarrow> face_ptr \<Rightarrow> pit_entry \<Rightarrow> suppression_result \<times> pit_entry" where
  "decidePerUpstream rx now face e =
     (case getOutRecord face e of
        None \<Rightarrow> (NEW, e)
      | Some r \<Rightarrow>
          let sinceLastOutgoing = now - fr_lastRenewed r;
              pi = (case or_suppression r of Some t \<Rightarrow> t | None \<Rightarrow> rx_initialInterval rx);
              e' = or_modify face (\<lambda>r. r\<lparr>or_suppression := Some pi\<rparr>) e
          in if sinceLastOutgoing < pi then (SUPPRESS, e') else (FORWARD, e'))"

definition incrementIntervalForOutRecord :: "retx_exponential \<Rightarrow> out_record \<Rightarrow> out_record" where
  "incrementIntervalForOutRecord rx r =
     (let pi = (case or_suppression r of Some t \<Rightarrow> t | None \<Rightarrow> rx_initialInterval rx)
      in r\<lparr>or_suppression := Some (next_interval rx pi)\<rparr>)"

definition decideFixed :: "time_ns \<Rightarrow> time_ns \<Rightarrow> pit_entry \<Rightarrow> suppression_result" where
  "decideFixed minRetxInterval now e =
     (if \<not> hasPendingOutRecords now e then NEW
      else case getLastOutgoing e of
        None \<Rightarrow> NEW
      | Some lastOutgoing \<Rightarrow> if now - lastOutgoing < minRetxInterval then SUPPRESS else FORWARD)"

text \<open>The intervals of the best-route, function-chain, multicast and ASF strategies.\<close>

definition retx_10_250 :: retx_exponential where
  "retx_10_250 = \<lparr>rx_initialInterval = 10 * 1000000, rx_maxInterval = 250 * 1000000\<rparr>"

section \<open>What the algorithms compute\<close>

lemma findDuplicateNonce_iff:
  "IN_SAME (findDuplicateNonce e n f) \<longleftrightarrow> (\<exists>r \<in> set (pe_inRecords e). fr_lastNonce r = n \<and> fr_face r = f)"
  "IN_OTHER (findDuplicateNonce e n f) \<longleftrightarrow> (\<exists>r \<in> set (pe_inRecords e). fr_lastNonce r = n \<and> fr_face r \<noteq> f)"
  "OUT_SAME (findDuplicateNonce e n f) \<longleftrightarrow> (\<exists>r \<in> set (pe_outRecords e). fr_lastNonce r = n \<and> fr_face r = f)"
  "OUT_OTHER (findDuplicateNonce e n f) \<longleftrightarrow> (\<exists>r \<in> set (pe_outRecords e). fr_lastNonce r = n \<and> fr_face r \<noteq> f)"
proof -
  let ?fi = "\<lambda>r dnw. if fr_lastNonce r = n then if fr_face r = f then dnw\<lparr>IN_SAME := True\<rparr> else dnw\<lparr>IN_OTHER := True\<rparr> else dnw"
  let ?fo = "\<lambda>r dnw. if fr_lastNonce r = n then if fr_face r = f then dnw\<lparr>OUT_SAME := True\<rparr> else dnw\<lparr>OUT_OTHER := True\<rparr> else dnw"
  have i: "IN_SAME (fold ?fi rs d) \<longleftrightarrow> IN_SAME d \<or> (\<exists>r \<in> set rs. fr_lastNonce r = n \<and> fr_face r = f)"
    "IN_OTHER (fold ?fi rs d) \<longleftrightarrow> IN_OTHER d \<or> (\<exists>r \<in> set rs. fr_lastNonce r = n \<and> fr_face r \<noteq> f)"
    "OUT_SAME (fold ?fi rs d) = OUT_SAME d" "OUT_OTHER (fold ?fi rs d) = OUT_OTHER d"
    for rs :: "in_record list" and d :: duplicate_nonce
    by (induction rs arbitrary: d) auto
  have o: "OUT_SAME (fold ?fo rs d) \<longleftrightarrow> OUT_SAME d \<or> (\<exists>r \<in> set rs. fr_lastNonce r = n \<and> fr_face r = f)"
    "OUT_OTHER (fold ?fo rs d) \<longleftrightarrow> OUT_OTHER d \<or> (\<exists>r \<in> set rs. fr_lastNonce r = n \<and> fr_face r \<noteq> f)"
    "IN_SAME (fold ?fo rs d) = IN_SAME d" "IN_OTHER (fold ?fo rs d) = IN_OTHER d"
    for rs :: "out_record list" and d :: duplicate_nonce
    by (induction rs arbitrary: d) auto
  show "IN_SAME (findDuplicateNonce e n f) \<longleftrightarrow> (\<exists>r \<in> set (pe_inRecords e). fr_lastNonce r = n \<and> fr_face r = f)"
    "IN_OTHER (findDuplicateNonce e n f) \<longleftrightarrow> (\<exists>r \<in> set (pe_inRecords e). fr_lastNonce r = n \<and> fr_face r \<noteq> f)"
    "OUT_SAME (findDuplicateNonce e n f) \<longleftrightarrow> (\<exists>r \<in> set (pe_outRecords e). fr_lastNonce r = n \<and> fr_face r = f)"
    "OUT_OTHER (findDuplicateNonce e n f) \<longleftrightarrow> (\<exists>r \<in> set (pe_outRecords e). fr_lastNonce r = n \<and> fr_face r \<noteq> f)"
    by (simp_all add: findDuplicateNonce_def Let_def i o DUPLICATE_NONCE_NONE_def)
qed

lemma pending_nonempty: "hasPendingOutRecords now e \<Longrightarrow> pe_outRecords e \<noteq> []"
  by (auto simp: hasPendingOutRecords_def)

lemma getLastOutgoing_Max:
  "pe_outRecords e \<noteq> [] \<Longrightarrow> getLastOutgoing e = Some (Max (fr_lastRenewed ` set (pe_outRecords e)))"
proof -
  have "fold (\<lambda>r t. max t (fr_lastRenewed r)) rs m = fold max (map fr_lastRenewed rs) m" for rs :: "out_record list" and m
    by (induction rs arbitrary: m) (simp_all add: max.commute)
  then have "fold (\<lambda>r t. max t (fr_lastRenewed r)) rs m = Max (insert m (fr_lastRenewed ` set rs))" for rs :: "out_record list" and m
    using Max.set_eq_fold [of m "map fr_lastRenewed rs"] by simp
  then show "pe_outRecords e \<noteq> [] \<Longrightarrow> ?thesis"
    by (cases "pe_outRecords e") (simp_all add: getLastOutgoing_def)
qed

lemma wouldViolateScope_iff:
  "wouldViolateScope inFace i outFace \<longleftrightarrow>
     f_scope outFace = FACE_SCOPE_NON_LOCAL \<and>
     (prefix LOCALHOST (i_name i) \<or> prefix LOCALHOP (i_name i) \<and> f_scope inFace = FACE_SCOPE_NON_LOCAL)"
  by (cases "f_scope outFace"; cases "f_scope inFace") (auto simp: wouldViolateScope_def isPrefixOf_iff)

text \<open>Nexthop selection: when every eligible nexthop is in use, the one used earliest is found.\<close>

lemma earliest_loop_Some:
  "earliest_loop store inFace i e nhs found t = Some nh \<Longrightarrow>
   found = Some nh \<or> nh \<in> set nhs \<and> isNextHopEligible store inFace i nh e False TimePoint_min"
proof (induction nhs arbitrary: found t)
  case (Cons n nhs)
  show ?case
  proof (cases "isNextHopEligible store inFace i n e False TimePoint_min")
    case True
    with Cons.prems show ?thesis
      by (cases "getOutRecord (nh_face n) e") (auto split: if_splits dest!: Cons.IH)
  next
    case False
    with Cons.prems Cons.IH [of found t] show ?thesis by auto
  qed
qed simp

lemma earliest_loop_None:
  "earliest_loop store inFace i e nhs found t = None \<Longrightarrow> found = None \<and>
   (\<forall>nh r. nh \<in> set nhs \<longrightarrow> isNextHopEligible store inFace i nh e False TimePoint_min \<longrightarrow>
      getOutRecord (nh_face nh) e = Some r \<longrightarrow> t \<le> fr_lastRenewed r)"
proof (induction nhs arbitrary: found t)
  case (Cons n nhs)
  show ?case
  proof (cases "isNextHopEligible store inFace i n e False TimePoint_min")
    case True
    with Cons.prems show ?thesis
      by (cases "getOutRecord (nh_face n) e") (auto split: if_splits dest!: Cons.IH)
  next
    case False
    with Cons.prems Cons.IH [of found t] show ?thesis by auto
  qed
qed simp

section \<open>Properties of the suppression\<close>

definition rx_ok :: "retx_exponential \<Rightarrow> bool" where
  "rx_ok rx \<longleftrightarrow> 0 < rx_initialInterval rx \<and> rx_initialInterval rx \<le> rx_maxInterval rx"

definition interval_ok :: "retx_exponential \<Rightarrow> time_ns option \<Rightarrow> bool" where
  "interval_ok rx t \<longleftrightarrow> (case t of None \<Rightarrow> True | Some i \<Rightarrow> rx_initialInterval rx \<le> i \<and> i \<le> rx_maxInterval rx)"

lemma next_interval_ok: "rx_ok rx \<Longrightarrow> interval_ok rx (Some t) \<Longrightarrow> interval_ok rx (Some (next_interval rx t))"
  by (auto simp: rx_ok_def interval_ok_def next_interval_def)

lemma decidePerPitEntry_cases:
  obtains (fresh) "\<not> hasPendingOutRecords now e" "decidePerPitEntry rx now e = (NEW, e)"
  | (again) lastOut pi where "hasPendingOutRecords now e"
      "lastOut = Max (fr_lastRenewed ` set (pe_outRecords e))"
      "pi = (case pe_suppression e of Some t \<Rightarrow> t | None \<Rightarrow> rx_initialInterval rx)"
      "decidePerPitEntry rx now e = (if now - lastOut < pi then (SUPPRESS, e\<lparr>pe_suppression := Some pi\<rparr>)
         else (FORWARD, e\<lparr>pe_suppression := Some (next_interval rx pi)\<rparr>))"
proof (cases "hasPendingOutRecords now e")
  case True
  show thesis
    by (rule again [OF True refl refl])
      (simp add: decidePerPitEntry_def True getLastOutgoing_Max [OF pending_nonempty [OF True]] Let_def)
next
  case False
  then show thesis by (intro fresh) (simp_all add: decidePerPitEntry_def)
qed


definition sample_pending :: pit_entry where
  "sample_pending = insertOrUpdateOutRecord [0, 0, 0, 0] 1000 7 (sample_interest [] []) (PitEntry_new (sample_interest [] []))"


end
