(* ===== verification/Cs.thy ===== *)
theory Cs
  imports Packets "HOL-Library.Multiset"
begin

text \<open>
  The Content Store (\<^verbatim>\<open>daemon/table/cs.cpp\<close>, \<^verbatim>\<open>cs-entry.cpp\<close>, \<^verbatim>\<open>cs-policy.cpp\<close>, \<^verbatim>\<open>cs-policy-lru.cpp\<close>,
  \<^verbatim>\<open>cs-policy-priority-fifo.cpp\<close>). The table, a \<^verbatim>\<open>std::set\<close>, is the list of its entries in
  ascending order; an iterator to an entry is the entry's key, its name with its digest. The two
  replacement policies meet one contract: they keep track of exactly the entries of the table.
  SHA-256 is the parameter \<open>sha\<close>. Stored Data came off the wire, so that \<^verbatim>\<open>getFullName\<close> does not
  throw; the model gives an empty digest for Data without wire encoding.
\<close>

section \<open>Entries\<close>

type_synonym cs_key = "name \<times> component"

record cs_entry =
  ce_data :: data
  ce_isUnsolicited :: bool
  ce_freshUntil :: time_ns

definition Data_digest :: "(bytes \<Rightarrow> bytes) \<Rightarrow> data \<Rightarrow> component" where
  "Data_digest sha d =
     (case getFullName sha d of Inr (full, _) \<Rightarrow> last full | Inl _ \<Rightarrow> Component 1 [])"

definition ce_key :: "(bytes \<Rightarrow> bytes) \<Rightarrow> cs_entry \<Rightarrow> cs_key" where
  "ce_key sha e = (d_name (ce_data e), Data_digest sha (ce_data e))"

definition isFresh :: "time_ns \<Rightarrow> cs_entry \<Rightarrow> bool" where
  "isFresh now e \<longleftrightarrow> ce_freshUntil e \<ge> now"

definition updateFreshUntil :: "time_ns \<Rightarrow> cs_entry \<Rightarrow> cs_entry" where
  "updateFreshUntil now e = e\<lparr>ce_freshUntil := now + d_freshnessPeriod (ce_data e) * 1000000\<rparr>"

definition CsEntry_new :: "time_ns \<Rightarrow> data \<Rightarrow> bool \<Rightarrow> cs_entry" where
  "CsEntry_new now d isUnsolicited =
     updateFreshUntil now \<lparr>ce_data = d, ce_isUnsolicited = isUnsolicited, ce_freshUntil = 0\<rparr>"

definition clearUnsolicited :: "cs_entry \<Rightarrow> cs_entry" where
  "clearUnsolicited e = e\<lparr>ce_isUnsolicited := False\<rparr>"

definition canSatisfy :: "(bytes \<Rightarrow> bytes) \<Rightarrow> time_ns \<Rightarrow> interest \<Rightarrow> cs_entry \<Rightarrow> bool" where
  "canSatisfy sha now i e \<longleftrightarrow>
     (if matchesDataWFunction sha i (ce_data e) \<noteq> Inr True then False
      else if i_mustBeFresh i \<and> \<not> isFresh now e then False
      else True)"

definition compareQueryWithData :: "(bytes \<Rightarrow> bytes) \<Rightarrow> name \<Rightarrow> data \<Rightarrow> int" where
  "compareQueryWithData sha q d =
     (let queryIsFullName = q \<noteq> [] \<and> isImplicitSha256Digest (last q);
          cmp = (if queryIsFullName then Name_compare_range comp_cmp q 0 (length q - 1) (d_name d) 0 npos
                 else Name_compare q (d_name d))
      in case cmp of
           None \<Rightarrow> 0
         | Some c \<Rightarrow> if c \<noteq> 0 then c
                     else if queryIsFullName then comp_cmp (last q) (Data_digest sha d)
                     else -1)"

definition compareDataWithData :: "(bytes \<Rightarrow> bytes) \<Rightarrow> data \<Rightarrow> data \<Rightarrow> int" where
  "compareDataWithData sha l r =
     (case Name_compare (d_name l) (d_name r) of
        None \<Rightarrow> 0
      | Some c \<Rightarrow> if c \<noteq> 0 then c else comp_cmp (Data_digest sha l) (Data_digest sha r))"

section \<open>The ordered table\<close>

text \<open>\<^verbatim>\<open>emplace\<close>: the flag tells whether the entry is new; otherwise the equivalent entry stays.\<close>

fun table_emplace :: "(bytes \<Rightarrow> bytes) \<Rightarrow> cs_entry \<Rightarrow> cs_entry list \<Rightarrow> cs_entry list \<times> bool" where
  "table_emplace sha e [] = ([e], True)"
| "table_emplace sha e (x # xs) =
     (if compareDataWithData sha (ce_data x) (ce_data e) < 0
      then (case table_emplace sha e xs of (xs', isNew) \<Rightarrow> (x # xs', isNew))
      else if compareDataWithData sha (ce_data e) (ce_data x) < 0 then (e # x # xs, True)
      else (x # xs, False))"

text \<open>\<^verbatim>\<open>lower_bound\<close> by a query name, as a position.\<close>

definition lower_bound :: "(bytes \<Rightarrow> bytes) \<Rightarrow> name \<Rightarrow> cs_entry list \<Rightarrow> nat" where
  "lower_bound sha q t = length (takeWhile (\<lambda>e. compareQueryWithData sha q (ce_data e) > 0) t)"

definition table_erase :: "(bytes \<Rightarrow> bytes) \<Rightarrow> cs_key \<Rightarrow> cs_entry list \<Rightarrow> cs_entry list" where
  "table_erase sha k t = delete_first (\<lambda>e. ce_key sha e = k) t"

definition table_modify :: "(bytes \<Rightarrow> bytes) \<Rightarrow> cs_key \<Rightarrow> (cs_entry \<Rightarrow> cs_entry) \<Rightarrow> cs_entry list \<Rightarrow> cs_entry list" where
  "table_modify sha k f t = update_first (\<lambda>e. ce_key sha e = k) f t"

section \<open>Least recently used\<close>

definition lru_insertToQueue :: "cs_key \<Rightarrow> bool \<Rightarrow> cs_key list \<Rightarrow> cs_key list" where
  "lru_insertToQueue i isNewEntry q =
     (let q = (if i \<in> set q then q else q @ [i]) in
      if \<not> isNewEntry then delete_first (\<lambda>j. j = i) q @ [i] else q)"

definition lru_beforeErase :: "cs_key \<Rightarrow> cs_key list \<Rightarrow> cs_key list" where
  "lru_beforeErase i q = delete_first (\<lambda>j. j = i) q"

fun lru_evictOne :: "cs_key list \<Rightarrow> (cs_key \<times> cs_key list) option" where
  "lru_evictOne [] = None"
| "lru_evictOne (i # q) = Some (i, q)"

section \<open>Priority FIFO\<close>

text \<open>
  The three queues; an entry of the FIFO queue carries the time at which its scheduled event moves
  it to the stale queue. The entry's \<^verbatim>\<open>EntryInfo\<close> is the queue it is in.
\<close>

record pf_queues =
  pf_unsolicited :: "cs_key list"
  pf_stale :: "cs_key list"
  pf_fifo :: "(cs_key \<times> time_ns) list"

definition pf_attachQueue :: "time_ns \<Rightarrow> cs_entry \<Rightarrow> cs_key \<Rightarrow> pf_queues \<Rightarrow> pf_queues" where
  "pf_attachQueue now e i p =
     (if ce_isUnsolicited e then p\<lparr>pf_unsolicited := pf_unsolicited p @ [i]\<rparr>
      else if \<not> isFresh now e then p\<lparr>pf_stale := pf_stale p @ [i]\<rparr>
      else p\<lparr>pf_fifo := pf_fifo p @ [(i, now + d_freshnessPeriod (ce_data e) * 1000000)]\<rparr>)"

definition pf_detachQueue :: "cs_key \<Rightarrow> pf_queues \<Rightarrow> pf_queues" where
  "pf_detachQueue i p =
     (if i \<in> set (pf_unsolicited p) then p\<lparr>pf_unsolicited := delete_first (\<lambda>j. j = i) (pf_unsolicited p)\<rparr>
      else if i \<in> set (pf_stale p) then p\<lparr>pf_stale := delete_first (\<lambda>j. j = i) (pf_stale p)\<rparr>
      else p\<lparr>pf_fifo := delete_first (\<lambda>j. fst j = i) (pf_fifo p)\<rparr>)"

definition pf_moveToStaleQueue :: "cs_key \<Rightarrow> pf_queues \<Rightarrow> pf_queues" where
  "pf_moveToStaleQueue i p =
     p\<lparr>pf_fifo := delete_first (\<lambda>j. fst j = i) (pf_fifo p), pf_stale := pf_stale p @ [i]\<rparr>"

definition pf_evictOne :: "pf_queues \<Rightarrow> (cs_key \<times> pf_queues) option" where
  "pf_evictOne p =
     (case pf_unsolicited p of
        i # _ \<Rightarrow> Some (i, pf_detachQueue i p)
      | [] \<Rightarrow>
          (case pf_stale p of
             i # _ \<Rightarrow> Some (i, pf_detachQueue i p)
           | [] \<Rightarrow>
               (case pf_fifo p of
                  (i, _) # _ \<Rightarrow> Some (i, pf_detachQueue i p)
                | [] \<Rightarrow> None)))"

section \<open>Policies\<close>

datatype policy = Lru "cs_key list" | PriorityFifo pf_queues

fun policy_attach :: "time_ns \<Rightarrow> cs_entry \<Rightarrow> cs_key \<Rightarrow> policy \<Rightarrow> policy" where
  "policy_attach now e i (Lru q) = Lru (lru_insertToQueue i True q)"
| "policy_attach now e i (PriorityFifo p) = PriorityFifo (pf_attachQueue now e i p)"

fun policy_afterRefresh :: "time_ns \<Rightarrow> cs_entry \<Rightarrow> cs_key \<Rightarrow> policy \<Rightarrow> policy" where
  "policy_afterRefresh now e i (Lru q) = Lru (lru_insertToQueue i False q)"
| "policy_afterRefresh now e i (PriorityFifo p) = PriorityFifo (pf_attachQueue now e i (pf_detachQueue i p))"

fun policy_beforeErase :: "cs_key \<Rightarrow> policy \<Rightarrow> policy" where
  "policy_beforeErase i (Lru q) = Lru (lru_beforeErase i q)"
| "policy_beforeErase i (PriorityFifo p) = PriorityFifo (pf_detachQueue i p)"

fun policy_beforeUse :: "cs_key \<Rightarrow> policy \<Rightarrow> policy" where
  "policy_beforeUse i (Lru q) = Lru (lru_insertToQueue i False q)"
| "policy_beforeUse i (PriorityFifo p) = PriorityFifo p"

fun policy_evictOne :: "policy \<Rightarrow> (cs_key \<times> policy) option" where
  "policy_evictOne (Lru q) = map_option (\<lambda>(i, q'). (i, Lru q')) (lru_evictOne q)"
| "policy_evictOne (PriorityFifo p) = map_option (\<lambda>(i, p'). (i, PriorityFifo p')) (pf_evictOne p)"

fun policy_refs :: "policy \<Rightarrow> cs_key list" where
  "policy_refs (Lru q) = q"
| "policy_refs (PriorityFifo p) = pf_unsolicited p @ pf_stale p @ map fst (pf_fifo p)"

lemma length_delete_first:
  "length (delete_first P xs) = (if \<exists>x \<in> set xs. P x then length xs - 1 else length xs)"
proof (induction xs)
  case (Cons x xs)
  then show ?case by (cases xs) auto
qed simp

lemma policy_evictOne_decreases:
  "policy_evictOne p = Some (i, p') \<Longrightarrow> length (policy_refs p') < length (policy_refs p)"
proof (cases p)
  case (Lru q)
  then show "policy_evictOne p = Some (i, p') \<Longrightarrow> length (policy_refs p') < length (policy_refs p)"
    by (cases q) auto
next
  case (PriorityFifo x)
  then show "policy_evictOne p = Some (i, p') \<Longrightarrow> length (policy_refs p') < length (policy_refs p)"
    by (auto simp: pf_evictOne_def pf_detachQueue_def length_delete_first split: list.splits)
qed

text \<open>
  \<^verbatim>\<open>evictEntries\<close> of both policies: while the table exceeds the limit, take one entry out of the
  policy and signal \<^verbatim>\<open>beforeEvict\<close>, upon which the table erases it. The limit is that of the policy.
\<close>

function evictEntries :: "(bytes \<Rightarrow> bytes) \<Rightarrow> nat \<Rightarrow> cs_entry list \<Rightarrow> policy \<Rightarrow> cs_entry list \<times> policy" where
  "evictEntries sha limit t p =
     (if length t > limit then
        (case policy_evictOne p of
           None \<Rightarrow> (t, p)
         | Some (i, p') \<Rightarrow> evictEntries sha limit (table_erase sha i t) p')
      else (t, p))"
  by pat_completeness auto
termination
  by (relation "measure (\<lambda>(_, _, _, p). length (policy_refs p))") (auto simp: policy_evictOne_decreases)

declare evictEntries.simps [simp del]

section \<open>The store\<close>

record cs =
  cs_table :: "cs_entry list"
  cs_policy :: policy
  cs_limit :: nat
  cs_shouldAdmit :: bool
  cs_shouldServe :: bool

definition Cs_new :: "nat \<Rightarrow> cs" where
  "Cs_new nMaxPackets =
     \<lparr>cs_table = [], cs_policy = Lru [], cs_limit = nMaxPackets, cs_shouldAdmit = True, cs_shouldServe = True\<rparr>"

definition Cs_evict :: "(bytes \<Rightarrow> bytes) \<Rightarrow> cs \<Rightarrow> cs" where
  "Cs_evict sha c =
     (case evictEntries sha (cs_limit c) (cs_table c) (cs_policy c) of
        (t, p) \<Rightarrow> c\<lparr>cs_table := t, cs_policy := p\<rparr>)"

definition Cs_setLimit :: "(bytes \<Rightarrow> bytes) \<Rightarrow> nat \<Rightarrow> cs \<Rightarrow> cs" where
  "Cs_setLimit sha nMaxPackets c = Cs_evict sha (c\<lparr>cs_limit := nMaxPackets\<rparr>)"

definition Cs_setPolicy :: "(bytes \<Rightarrow> bytes) \<Rightarrow> policy \<Rightarrow> cs \<Rightarrow> cs" where
  "Cs_setPolicy sha p c = Cs_setLimit sha (cs_limit c) (c\<lparr>cs_policy := p\<rparr>)"

definition enableAdmit :: "bool \<Rightarrow> cs \<Rightarrow> cs" where
  "enableAdmit b c = (if cs_shouldAdmit c = b then c else c\<lparr>cs_shouldAdmit := b\<rparr>)"

definition enableServe :: "bool \<Rightarrow> cs \<Rightarrow> cs" where
  "enableServe b c = (if cs_shouldServe c = b then c else c\<lparr>cs_shouldServe := b\<rparr>)"

definition Cs_insert :: "(bytes \<Rightarrow> bytes) \<Rightarrow> time_ns \<Rightarrow> data \<Rightarrow> bool \<Rightarrow> cs \<Rightarrow> cs" where
  "Cs_insert sha now d isUnsolicited c =
     (if \<not> cs_shouldAdmit c \<or> cs_limit c = 0 then c
      else if d_noCache d then c
      else
        (case table_emplace sha (CsEntry_new now d isUnsolicited) (cs_table c) of (t, isNewEntry) \<Rightarrow>
           let k = (d_name d, Data_digest sha d);
               t = table_modify sha k (updateFreshUntil now) t
           in if \<not> isNewEntry then
                let t = table_modify sha k
                          (\<lambda>e. if ce_isUnsolicited e \<and> \<not> isUnsolicited then clearUnsolicited e else e) t
                in (case List.find (\<lambda>e. ce_key sha e = k) t of
                      Some e \<Rightarrow> c\<lparr>cs_table := t, cs_policy := policy_afterRefresh now e k (cs_policy c)\<rparr>
                    | None \<Rightarrow> c\<lparr>cs_table := t\<rparr>)
              else
                (case List.find (\<lambda>e. ce_key sha e = k) t of
                   Some e \<Rightarrow> Cs_evict sha (c\<lparr>cs_table := t, cs_policy := policy_attach now e k (cs_policy c)\<rparr>)
                 | None \<Rightarrow> c\<lparr>cs_table := t\<rparr>)))"

definition findPrefixRange :: "(bytes \<Rightarrow> bytes) \<Rightarrow> name \<Rightarrow> cs_entry list \<Rightarrow> nat \<times> nat" where
  "findPrefixRange sha q t =
     (lower_bound sha q t,
      if length q > 0 then lower_bound sha (Name_getSuccessor q) t else length t)"

text \<open>The loop of \<^verbatim>\<open>eraseImpl\<close>: \<open>n\<close> is the distance from \<open>i\<close> to \<open>last\<close>.\<close>

fun erase_loop :: "(bytes \<Rightarrow> bytes) \<Rightarrow> nat \<Rightarrow> nat \<Rightarrow> nat \<Rightarrow> nat \<Rightarrow> cs_entry list \<Rightarrow> policy \<Rightarrow> cs_entry list \<times> policy \<times> nat" where
  "erase_loop sha i 0 nErased limit t p = (t, p, nErased)"
| "erase_loop sha i (Suc n) nErased limit t p =
     (if nErased < limit then
        erase_loop sha i n (Suc nErased) limit (take i t @ drop (Suc i) t)
          (policy_beforeErase (ce_key sha (t ! i)) p)
      else (t, p, nErased))"

definition Cs_erase :: "(bytes \<Rightarrow> bytes) \<Rightarrow> name \<Rightarrow> nat \<Rightarrow> cs \<Rightarrow> cs \<times> nat" where
  "Cs_erase sha q limit c =
     (case findPrefixRange sha q (cs_table c) of (i, l) \<Rightarrow>
        case erase_loop sha i (l - i) 0 limit (cs_table c) (cs_policy c) of
          (t, p, nErased) \<Rightarrow> (c\<lparr>cs_table := t, cs_policy := p\<rparr>, nErased))"

definition Cs_find :: "(bytes \<Rightarrow> bytes) \<Rightarrow> time_ns \<Rightarrow> interest \<Rightarrow> cs \<Rightarrow> cs \<times> cs_entry option" where
  "Cs_find sha now i c =
     (if \<not> cs_shouldServe c \<or> cs_limit c = 0 then (c, None)
      else
        (case findPrefixRange sha (Interest_getNameFunction i) (cs_table c) of (f, l) \<Rightarrow>
           case List.find (canSatisfy sha now i) (take (l - f) (drop f (cs_table c))) of
             None \<Rightarrow> (c, None)
           | Some e \<Rightarrow> (c\<lparr>cs_policy := policy_beforeUse (ce_key sha e) (cs_policy c)\<rparr>, Some e)))"

text \<open>The scheduled event of the priority FIFO policy for an entry, at its due time.\<close>

definition Cs_staleEvent :: "cs_key \<Rightarrow> cs \<Rightarrow> cs" where
  "Cs_staleEvent i c =
     (case cs_policy c of
        PriorityFifo p \<Rightarrow> if i \<in> fst ` set (pf_fifo p) then c\<lparr>cs_policy := PriorityFifo (pf_moveToStaleQueue i p)\<rparr> else c
      | Lru _ \<Rightarrow> c)"

section \<open>The contract of a replacement policy\<close>

text \<open>
  A policy keeps a cleanup index. The table relies on it to follow every insertion and removal, to
  survive refreshes and uses, and to always find a victim while the index is not empty.
\<close>

locale replacement_policy =
  fixes refs :: "'p \<Rightarrow> cs_key list"
    and attach :: "time_ns \<Rightarrow> cs_entry \<Rightarrow> cs_key \<Rightarrow> 'p \<Rightarrow> 'p"
    and refresh :: "time_ns \<Rightarrow> cs_entry \<Rightarrow> cs_key \<Rightarrow> 'p \<Rightarrow> 'p"
    and forget :: "cs_key \<Rightarrow> 'p \<Rightarrow> 'p"
    and touch :: "cs_key \<Rightarrow> 'p \<Rightarrow> 'p"
    and victim :: "'p \<Rightarrow> (cs_key \<times> 'p) option"
  assumes mset_attach: "i \<notin> set (refs p) \<Longrightarrow> mset (refs (attach now e i p)) = add_mset i (mset (refs p))"
    and mset_refresh: "i \<in> set (refs p) \<Longrightarrow> distinct (refs p) \<Longrightarrow> mset (refs (refresh now e i p)) = mset (refs p)"
    and mset_forget: "distinct (refs p) \<Longrightarrow> mset (refs (forget i p)) = mset (refs p) - {#i#}"
    and mset_touch: "i \<in> set (refs p) \<Longrightarrow> mset (refs (touch i p)) = mset (refs p)"
    and victim_None: "victim p = None \<longleftrightarrow> refs p = []"
    and mset_victim: "victim p = Some (i, p') \<Longrightarrow> distinct (refs p) \<Longrightarrow> mset (refs p) = add_mset i (mset (refs p'))"
begin

lemma attach_tracks:
  "distinct (refs p) \<Longrightarrow> i \<notin> set (refs p) \<Longrightarrow>
   distinct (refs (attach now e i p)) \<and> set (refs (attach now e i p)) = insert i (set (refs p))"
  using mset_attach [of i p now e]
  by (metis distinct.simps(2) list.simps(15) mset.simps(2) mset_eq_imp_distinct_iff mset_eq_setD)

lemma refresh_tracks:
  "distinct (refs p) \<Longrightarrow> i \<in> set (refs p) \<Longrightarrow>
   distinct (refs (refresh now e i p)) \<and> set (refs (refresh now e i p)) = set (refs p)"
  using mset_refresh [of i p now e] by (metis mset_eq_imp_distinct_iff mset_eq_setD)

lemma touch_tracks:
  "distinct (refs p) \<Longrightarrow> i \<in> set (refs p) \<Longrightarrow>
   distinct (refs (touch i p)) \<and> set (refs (touch i p)) = set (refs p)"
  using mset_touch [of i p] by (metis mset_eq_imp_distinct_iff mset_eq_setD)

lemma forget_tracks:
  assumes "distinct (refs p)"
  shows "distinct (refs (forget i p)) \<and> set (refs (forget i p)) = set (refs p) - {i}"
proof -
  have "mset (refs (forget i p)) = mset (remove1 i (refs p))" using mset_forget [OF assms] by simp
  then show ?thesis
    using assms by (metis distinct_remove1 mset_eq_imp_distinct_iff mset_eq_setD set_remove1_eq)
qed

lemma forget_all_tracks:
  "distinct (refs p) \<Longrightarrow>
   distinct (refs (fold forget ks p)) \<and> set (refs (fold forget ks p)) = set (refs p) - set ks"
proof (induction ks arbitrary: p)
  case (Cons k ks)
  then show ?case using forget_tracks [of p k] Cons.IH [of "forget k p"] by auto
qed simp

lemma victim_tracks:
  assumes "distinct (refs p)" "victim p = Some (i, p')"
  shows "i \<in> set (refs p) \<and> distinct (refs p') \<and> set (refs p') = set (refs p) - {i}"
proof -
  have m: "mset (refs p) = mset (i # refs p')" using mset_victim [OF assms(2,1)] by simp
  then have "distinct (i # refs p')" "set (refs p) = insert i (set (refs p'))"
    using assms(1) mset_eq_imp_distinct_iff mset_eq_setD [OF m] by (blast, simp)
  then show ?thesis by auto
qed

end

lemma delete_first_remove1: "delete_first (\<lambda>j. j = i) xs = remove1 i xs"
  by (induction xs) auto

lemma map_delete_first: "map fst (delete_first (\<lambda>j. fst j = i) xs) = remove1 i (map fst xs)"
  by (induction xs) auto

interpretation lru: replacement_policy "\<lambda>q. q" "\<lambda>_ _ i. lru_insertToQueue i True" "\<lambda>_ _ i. lru_insertToQueue i False"
  lru_beforeErase "\<lambda>i. lru_insertToQueue i False" lru_evictOne
proof
  fix p p' :: "cs_key list" and i
  show "lru_evictOne p = None \<longleftrightarrow> p = []" by (cases p) auto
  show "lru_evictOne p = Some (i, p') \<Longrightarrow> mset p = add_mset i (mset p')" by (cases p) auto
qed (auto simp: lru_insertToQueue_def lru_beforeErase_def delete_first_remove1)

definition pf_refs :: "pf_queues \<Rightarrow> cs_key list" where
  "pf_refs p = pf_unsolicited p @ pf_stale p @ map fst (pf_fifo p)"

lemma mset_pf_attach: "mset (pf_refs (pf_attachQueue now e i p)) = add_mset i (mset (pf_refs p))"
  by (auto simp: pf_refs_def pf_attachQueue_def)

lemma pf_refs_detach: "pf_refs (pf_detachQueue i p) = remove1 i (pf_refs p)"
  by (auto simp: pf_refs_def pf_detachQueue_def delete_first_remove1 map_delete_first remove1_append)

lemma mset_pf_detach: "mset (pf_refs (pf_detachQueue i p)) = mset (pf_refs p) - {#i#}"
  by (simp add: pf_refs_detach)

interpretation pf: replacement_policy pf_refs pf_attachQueue
  "\<lambda>now e i p. pf_attachQueue now e i (pf_detachQueue i p)" pf_detachQueue "\<lambda>_ p. p" pf_evictOne
proof
  fix p p' :: pf_queues and i
  show "pf_evictOne p = None \<longleftrightarrow> pf_refs p = []"
    by (auto simp: pf_evictOne_def pf_refs_def split: list.splits)
  assume "pf_evictOne p = Some (i, p')"
  then have "p' = pf_detachQueue i p" "i \<in># mset (pf_refs p)"
    by (auto simp: pf_evictOne_def pf_refs_def split: list.splits)
  then show "mset (pf_refs p) = add_mset i (mset (pf_refs p'))"
    by (simp add: mset_pf_detach)
qed (auto simp: mset_pf_attach mset_pf_detach)

lemma policy_refs_eq: "policy_refs (PriorityFifo p) = pf_refs p"
  by (simp add: pf_refs_def)

text \<open>The virtual calls: the policy installed in the store meets the contract whichever it is.\<close>

interpretation pol: replacement_policy policy_refs policy_attach policy_afterRefresh policy_beforeErase
  policy_beforeUse policy_evictOne
proof
  fix p p' :: policy and i now e
  show "i \<notin> set (policy_refs p) \<Longrightarrow> mset (policy_refs (policy_attach now e i p)) = add_mset i (mset (policy_refs p))"
    using lru.mset_attach pf.mset_attach by (cases p) (auto simp: policy_refs_eq simp del: policy_refs.simps(2))
  show "i \<in> set (policy_refs p) \<Longrightarrow> distinct (policy_refs p) \<Longrightarrow>
      mset (policy_refs (policy_afterRefresh now e i p)) = mset (policy_refs p)"
    using lru.mset_refresh pf.mset_refresh by (cases p) (auto simp: policy_refs_eq simp del: policy_refs.simps(2))
  show "distinct (policy_refs p) \<Longrightarrow> mset (policy_refs (policy_beforeErase i p)) = mset (policy_refs p) - {#i#}"
    using lru.mset_forget pf.mset_forget by (cases p) (auto simp: policy_refs_eq simp del: policy_refs.simps(2))
  show "i \<in> set (policy_refs p) \<Longrightarrow> mset (policy_refs (policy_beforeUse i p)) = mset (policy_refs p)"
    using lru.mset_touch by (cases p) auto
  show "policy_evictOne p = None \<longleftrightarrow> policy_refs p = []"
    using lru.victim_None pf.victim_None by (cases p) (auto simp: policy_refs_eq simp del: policy_refs.simps(2))
  show "policy_evictOne p = Some (i, p') \<Longrightarrow> distinct (policy_refs p) \<Longrightarrow>
      mset (policy_refs p) = add_mset i (mset (policy_refs p'))"
    using lru.mset_victim pf.mset_victim
    by (cases p) (auto simp: policy_refs_eq simp del: policy_refs.simps(2))
qed

section \<open>The order of the table\<close>

definition key_cmp :: "cs_key \<Rightarrow> cs_key \<Rightarrow> int" where
  "key_cmp k l =
     (if name_cmp (fst k) (fst l) \<noteq> 0 then name_cmp (fst k) (fst l) else comp_cmp (snd k) (snd l))"

interpretation key_order: three_way key_cmp
proof
  fix x y z :: cs_key
  show "key_cmp x y = 0 \<longleftrightarrow> x = y"
    using name_order.cmp_eq_0 [of "fst x" "fst y"] comp_order.cmp_eq_0 [of "snd x" "snd y"]
    by (auto simp: key_cmp_def prod_eq_iff)
  show "key_cmp x y < 0 \<longleftrightarrow> 0 < key_cmp y x"
    using name_order.cmp_swap [of "fst x" "fst y"] name_order.cmp_eq_0 [of "fst x" "fst y"]
      name_order.cmp_eq_0 [of "fst y" "fst x"] comp_order.cmp_swap [of "snd x" "snd y"]
    by (auto simp: key_cmp_def)
  show "key_cmp x y < 0 \<Longrightarrow> key_cmp y z < 0 \<Longrightarrow> key_cmp x z < 0"
    using name_order.cmp_trans [of "fst x" "fst y" "fst z"] comp_order.cmp_trans [of "snd x" "snd y" "snd z"]
      name_order.cmp_eq_0 [of "fst x" "fst y"] name_order.cmp_eq_0 [of "fst y" "fst z"] name_order.refl0
      name_order.less_le_trans [of "fst x" "fst y" "fst z"] name_order.le_less_trans [of "fst x" "fst y" "fst z"]
    by (auto simp: key_cmp_def split: if_splits)
qed

lemma key_less_neq: "key_cmp x y < 0 \<Longrightarrow> x \<noteq> y"
  by (metis key_order.refl0 less_irrefl)

definition ce_ok :: "(bytes \<Rightarrow> bytes) \<Rightarrow> data \<Rightarrow> bool" where
  "ce_ok sha d \<longleftrightarrow> fullName_ok sha d \<and> list_all valid_component (d_name d) \<and> length (d_name d) < 2 ^ 31"

definition table_ok :: "(bytes \<Rightarrow> bytes) \<Rightarrow> cs_entry list \<Rightarrow> bool" where
  "table_ok sha t \<longleftrightarrow> sorted_wrt (\<lambda>a b. key_cmp (ce_key sha a) (ce_key sha b) < 0) t \<and>
     (\<forall>e \<in> set t. ce_ok sha (ce_data e))"

lemma Data_digest_ok: "fullName_ok sha d \<Longrightarrow> Data_digest sha d = Component 1 (sha (d_wire d))"
  using getFullName_ok [of sha d] by (auto simp: Data_digest_def)

lemma compareDataWithData_eq:
  "ce_ok sha (ce_data a) \<Longrightarrow> ce_ok sha (ce_data b) \<Longrightarrow>
   compareDataWithData sha (ce_data a) (ce_data b) = key_cmp (ce_key sha a) (ce_key sha b)"
  by (simp add: compareDataWithData_def ce_ok_def Name_compare_eq key_cmp_def ce_key_def)

lemma table_ok_distinct: "table_ok sha t \<Longrightarrow> distinct (map (ce_key sha) t)"
  unfolding table_ok_def
  by (induction t) (auto simp: key_order.refl0 dest!: bspec)

lemma table_emplace_spec:
  assumes "table_ok sha t" "ce_ok sha (ce_data e)"
  shows "table_ok sha (fst (table_emplace sha e t)) \<and>
    (snd (table_emplace sha e t) \<longleftrightarrow> ce_key sha e \<notin> ce_key sha ` set t) \<and>
    (if snd (table_emplace sha e t) then set (fst (table_emplace sha e t)) = insert e (set t)
     else fst (table_emplace sha e t) = t)"
  using assms(1)
proof (induction t)
  case Nil
  then show ?case using assms(2) by (simp add: table_ok_def)
next
  case (Cons x xs)
  have ok: "table_ok sha xs" "ce_ok sha (ce_data x)"
    and less: "\<forall>y \<in> set xs. key_cmp (ce_key sha x) (ce_key sha y) < 0"
    using Cons.prems by (auto simp: table_ok_def)
  note IH = Cons.IH [OF ok(1)]
  obtain xs' n where em: "table_emplace sha e xs = (xs', n)" by fastforce
  note cmp = compareDataWithData_eq [OF ok(2) assms(2)] compareDataWithData_eq [OF assms(2) ok(2)]
  consider (lt) "key_cmp (ce_key sha x) (ce_key sha e) < 0" | (gt) "key_cmp (ce_key sha e) (ce_key sha x) < 0"
    | (eq) "ce_key sha e = ce_key sha x"
    using key_order.total [of "ce_key sha x" "ce_key sha e"] by auto
  then show ?case
  proof cases
    case lt
    then have "ce_key sha e \<noteq> ce_key sha x" by (metis key_less_neq)
    moreover have "set xs' \<subseteq> insert e (set xs)" using IH em by (auto split: if_splits)
    ultimately show ?thesis using lt IH em less ok cmp by (auto simp: table_ok_def split: if_splits)
  next
    case gt
    then have "\<not> key_cmp (ce_key sha x) (ce_key sha e) < 0" by (rule key_order.asym)
    moreover have "\<forall>y \<in> set (x # xs). key_cmp (ce_key sha e) (ce_key sha y) < 0"
      using gt less key_order.cmp_trans by auto
    moreover from this have "ce_key sha e \<notin> ce_key sha ` set (x # xs)"
      using key_less_neq by (metis image_iff)
    ultimately show ?thesis using gt Cons.prems assms(2) cmp by (auto simp: table_ok_def)
  next
    case eq
    then show ?thesis using Cons.prems cmp by (simp add: key_order.refl0)
  qed
qed

lemma table_erase_eq: "table_ok sha t \<Longrightarrow> table_erase sha k t = filter (\<lambda>e. ce_key sha e \<noteq> k) t"
  unfolding table_erase_def by (rule delete_first_filter [OF table_ok_distinct])

lemma table_ok_filter: "table_ok sha t \<Longrightarrow> table_ok sha (filter P t)"
  by (auto simp: table_ok_def sorted_wrt_filter)

lemma table_modify_map:
  "table_ok sha t \<Longrightarrow> table_modify sha k f t = map (\<lambda>e. if ce_key sha e = k then f e else e) t"
  unfolding table_modify_def by (rule update_first_map [OF table_ok_distinct])

lemma table_modify_ok:
  assumes "table_ok sha t" "\<And>e. ce_data (f e) = ce_data e"
  shows "table_ok sha (table_modify sha k f t)"
    and "ce_key sha ` set (table_modify sha k f t) = ce_key sha ` set t"
    and "length (table_modify sha k f t) = length t"
proof -
  have k: "ce_key sha (f e) = ce_key sha e" for e by (simp add: ce_key_def assms(2))
  show "table_ok sha (table_modify sha k f t)"
    using assms unfolding table_modify_map [OF assms(1)] table_ok_def
    by (auto simp: sorted_wrt_map k elim!: sorted_wrt_mono_rel [rotated])
  show "ce_key sha ` set (table_modify sha k f t) = ce_key sha ` set t"
    using map_key_update_first [of "\<lambda>e. ce_key sha e = k" "ce_key sha" f t] k
    unfolding table_modify_def by (metis list.set_map)
  show "length (table_modify sha k f t) = length t"
    by (simp add: table_modify_def)
qed

lemma find_modify:
  assumes "table_ok sha t" "\<And>e. ce_data (f e) = ce_data e"
  shows "List.find (\<lambda>e. ce_key sha e = k) (table_modify sha k f t) =
    map_option f (List.find (\<lambda>e. ce_key sha e = k) t)"
proof -
  have "ce_key sha (f e) = ce_key sha e" for e by (simp add: ce_key_def assms(2))
  then show ?thesis unfolding table_modify_def by (induction t) auto
qed

section \<open>The invariant of the store\<close>

definition cs_wf :: "(bytes \<Rightarrow> bytes) \<Rightarrow> cs_entry list \<Rightarrow> policy \<Rightarrow> bool" where
  "cs_wf sha t p \<longleftrightarrow> table_ok sha t \<and> distinct (policy_refs p) \<and> set (policy_refs p) = ce_key sha ` set t"

definition cs_inv :: "(bytes \<Rightarrow> bytes) \<Rightarrow> cs \<Rightarrow> bool" where
  "cs_inv sha c \<longleftrightarrow> cs_wf sha (cs_table c) (cs_policy c) \<and> length (cs_table c) \<le> cs_limit c"

lemma cs_wf_victim:
  "cs_wf sha t p \<Longrightarrow> policy_evictOne p = Some (i, p') \<Longrightarrow> cs_wf sha (table_erase sha i t) p'"
  using pol.victim_tracks [of p i p'] by (auto simp: cs_wf_def table_erase_eq table_ok_filter)

lemma evictEntries_ok:
  assumes "cs_wf sha t p"
  shows "cs_wf sha (fst (evictEntries sha limit t p)) (snd (evictEntries sha limit t p)) \<and>
    length (fst (evictEntries sha limit t p)) \<le> limit \<and>
    set (fst (evictEntries sha limit t p)) \<subseteq> set t"
  using assms
proof (induction sha limit t p rule: evictEntries.induct)
  case (1 sha limit t p)
  show ?case
  proof (cases "length t > limit")
    case True
    then have "policy_refs p \<noteq> []" using "1.prems" by (auto simp: cs_wf_def)
    then obtain i p' where v: "policy_evictOne p = Some (i, p')"
      using pol.victim_None [of p] by auto
    from cs_wf_victim [OF "1.prems" v] have "cs_wf sha (table_erase sha i t) p'" .
    note IH = "1.IH" [OF True v refl this]
    moreover have "set (table_erase sha i t) \<subseteq> set t"
      using "1.prems" by (auto simp: cs_wf_def table_erase_eq)
    ultimately show ?thesis using True v by (subst (1 2 3 4) evictEntries.simps) auto
  next
    case False
    with "1.prems" show ?thesis by (subst (1 2 3 4) evictEntries.simps) auto
  qed
qed

lemma Cs_evict_ok:
  "cs_wf sha (cs_table c) (cs_policy c) \<Longrightarrow>
   cs_inv sha (Cs_evict sha c) \<and> set (cs_table (Cs_evict sha c)) \<subseteq> set (cs_table c) \<and>
   cs_limit (Cs_evict sha c) = cs_limit c"
  using evictEntries_ok [of sha "cs_table c" "cs_policy c" "cs_limit c"]
  by (auto simp: Cs_evict_def cs_inv_def split: prod.splits)

lemma length_table_refs: "cs_wf sha t p \<Longrightarrow> length (policy_refs p) = length t"
  using table_ok_distinct [of sha t] unfolding cs_wf_def
  by (metis distinct_card length_map list.set_map)

lemma evict_lru_keeps_newest:
  assumes "cs_wf sha t (Lru (q @ [i]))" "limit \<ge> 1"
  shows "\<exists>q'. snd (evictEntries sha limit t (Lru (q @ [i]))) = Lru (q' @ [i])"
  using assms
proof (induction q arbitrary: t)
  case Nil
  then have "length t = 1" using length_table_refs [OF Nil.prems(1)] by simp
  with Nil show ?case by (subst evictEntries.simps) auto
next
  case (Cons j q)
  have "cs_wf sha (table_erase sha j t) (Lru (q @ [i]))"
    using cs_wf_victim [OF Cons.prems(1), of j "Lru (q @ [i])"] by simp
  from Cons.IH [OF this Cons.prems(2)] show ?case by (subst evictEntries.simps) auto
qed

text \<open>The three outcomes of an insertion that is admitted.\<close>

lemma Cs_insert_cases:
  assumes inv: "cs_inv sha c" and d: "ce_ok sha d"
    and adm: "cs_shouldAdmit c" "cs_limit c \<noteq> 0" "\<not> d_noCache d"
  defines "k \<equiv> (d_name d, Data_digest sha d)"
  obtains (new) t e where "k \<notin> ce_key sha ` set (cs_table c)" "table_ok sha t" "set t = insert e (set (cs_table c))"
      "ce_data e = d" "ce_isUnsolicited e = u" "ce_freshUntil e = now + d_freshnessPeriod d * 1000000"
      "Cs_insert sha now d u c = Cs_evict sha (c\<lparr>cs_table := t, cs_policy := policy_attach now e k (cs_policy c)\<rparr>)"
  | (old) t e e' where "e \<in> set (cs_table c)" "ce_key sha e = k" "table_ok sha t"
      "ce_key sha ` set t = ce_key sha ` set (cs_table c)" "length t = length (cs_table c)" "e' \<in> set t"
      "ce_data e' = ce_data e" "ce_isUnsolicited e' \<longleftrightarrow> ce_isUnsolicited e \<and> u"
      "ce_freshUntil e' = now + d_freshnessPeriod (ce_data e) * 1000000"
      "Cs_insert sha now d u c = c\<lparr>cs_table := t, cs_policy := policy_afterRefresh now e' k (cs_policy c)\<rparr>"
proof -
  let ?e = "CsEntry_new now d u"
  have ed: "ce_data ?e = d" "ce_isUnsolicited ?e = u" by (simp_all add: CsEntry_new_def updateFreshUntil_def)
  then have ek: "ce_key sha ?e = k" by (simp add: ce_key_def k_def)
  have t: "table_ok sha (cs_table c)" using inv by (simp add: cs_inv_def cs_wf_def)
  obtain t0 n where em: "table_emplace sha ?e (cs_table c) = (t0, n)" by fastforce
  have em': "table_ok sha t0" "n \<longleftrightarrow> k \<notin> ce_key sha ` set (cs_table c)"
    "if n then set t0 = insert ?e (set (cs_table c)) else t0 = cs_table c"
    using table_emplace_spec [OF t, of ?e] d em ed(1) ek by auto
  have u: "ce_data (updateFreshUntil now e) = ce_data e" for e by (simp add: updateFreshUntil_def)
  define t1 where "t1 = table_modify sha k (updateFreshUntil now) t0"
  have t1: "table_ok sha t1" "ce_key sha ` set t1 = ce_key sha ` set t0" "length t1 = length t0"
    using table_modify_ok [OF em'(1) u] by (auto simp: t1_def)
  show thesis
  proof (cases n)
    case True
    with em' have s0: "set t0 = insert ?e (set (cs_table c))" by simp
    have idem: "updateFreshUntil now ?e = ?e" by (simp add: CsEntry_new_def updateFreshUntil_def)
    have nk: "ce_key sha e \<noteq> k" if "e \<in> set (cs_table c)" for e using that em'(2) True by auto
    have "t1 = t0"
      unfolding t1_def table_modify_map [OF em'(1)]
      by (rule map_idI) (use s0 ek idem nk in auto)
    moreover have "List.find (\<lambda>e. ce_key sha e = k) t0 = Some ?e"
      by (rule find_key_Some [OF table_ok_distinct [OF em'(1)]]) (use s0 ek in auto)
    ultimately have "Cs_insert sha now d u c =
        Cs_evict sha (c\<lparr>cs_table := t0, cs_policy := policy_attach now ?e k (cs_policy c)\<rparr>)"
      using adm em True by (simp add: Cs_insert_def k_def [symmetric] t1_def [symmetric])
    with em'(1,2) True s0 ed show thesis
      by (intro new [of t0 ?e]) (auto simp: CsEntry_new_def updateFreshUntil_def)
  next
    case False
    with em' have t0: "t0 = cs_table c" and "k \<in> ce_key sha ` set (cs_table c)" by simp_all
    then obtain e where e: "e \<in> set (cs_table c)" "ce_key sha e = k" by auto
    define g where "g = (\<lambda>e. if ce_isUnsolicited e \<and> \<not> u then clearUnsolicited e else e)"
    have g: "ce_data (g e) = ce_data e" for e by (simp add: g_def clearUnsolicited_def)
    define t2 where "t2 = table_modify sha k g t1"
    have t2: "table_ok sha t2" "ce_key sha ` set t2 = ce_key sha ` set t1" "length t2 = length t1"
      using table_modify_ok [OF t1(1) g] by (auto simp: t2_def)
    have "List.find (\<lambda>e. ce_key sha e = k) t0 = Some e"
      unfolding t0 by (rule find_key_Some [OF table_ok_distinct [OF t] e])
    then have f: "List.find (\<lambda>e. ce_key sha e = k) t2 = Some (g (updateFreshUntil now e))"
      unfolding t2_def t1_def find_modify [OF t1(1) [unfolded t1_def] g] find_modify [OF em'(1) u] by simp
    have "Cs_insert sha now d u c =
        c\<lparr>cs_table := t2, cs_policy := policy_afterRefresh now (g (updateFreshUntil now e)) k (cs_policy c)\<rparr>"
      using adm em False f
      by (simp add: Cs_insert_def k_def [symmetric] t1_def [symmetric] g_def [symmetric] t2_def [symmetric] Let_def)
    moreover have "g (updateFreshUntil now e) \<in> set t2" using find_SomeD [OF f] by simp
    ultimately show thesis
      using e t2 t1(2,3) t0 g u
      by (intro old [of e t2 "g (updateFreshUntil now e)"])
        (auto simp: g_def clearUnsolicited_def updateFreshUntil_def)
  qed
qed

lemma Cs_insert_inv [inv_intros]:
  assumes inv: "cs_inv sha c" and d: "ce_ok sha d"
  shows "cs_inv sha (Cs_insert sha now d u c)"
proof (cases "cs_shouldAdmit c \<and> cs_limit c \<noteq> 0 \<and> \<not> d_noCache d")
  case True
  then have adm: "cs_shouldAdmit c" "cs_limit c \<noteq> 0" "\<not> d_noCache d" by auto
  have p: "distinct (policy_refs (cs_policy c))" "set (policy_refs (cs_policy c)) = ce_key sha ` set (cs_table c)"
    using inv by (auto simp: cs_inv_def cs_wf_def)
  let ?k = "(d_name d, Data_digest sha d)"
  from inv d adm show ?thesis
  proof (cases rule: Cs_insert_cases [where u = u and now = now])
    case (new t e)
    have "ce_key sha e = ?k" using new(4) by (simp add: ce_key_def)
    then have "cs_wf sha t (policy_attach now e ?k (cs_policy c))"
      using new(1-3) p pol.attach_tracks [OF p(1), of ?k now e] by (simp add: cs_wf_def)
    then show ?thesis unfolding new(7) using Cs_evict_ok by simp
  next
    case (old t e e')
    have "?k \<in> set (policy_refs (cs_policy c))" using old(1,2) p(2) by (metis imageI)
    then show ?thesis
      unfolding old(10) using inv old(3-5) p pol.refresh_tracks [OF p(1), of ?k now e']
      by (simp add: cs_inv_def cs_wf_def)
  qed
qed (use inv in \<open>auto simp: Cs_insert_def\<close>)

text \<open>Under LRU, inserted Data is in the store afterwards.\<close>

definition cs_lookup :: "(bytes \<Rightarrow> bytes) \<Rightarrow> cs \<Rightarrow> cs_key \<Rightarrow> cs_entry option" where
  "cs_lookup sha c k = List.find (\<lambda>e. ce_key sha e = k) (cs_table c)"

lemma cs_lookup_mem:
  "table_ok sha (cs_table c) \<Longrightarrow> cs_lookup sha c k = Some e \<longleftrightarrow> e \<in> set (cs_table c) \<and> ce_key sha e = k"
  unfolding cs_lookup_def
  using find_key_Some [OF table_ok_distinct, of sha "cs_table c" e k] by (auto dest!: find_SomeD)

lemma Cs_insert_lookup:
  assumes inv: "cs_inv sha c" and d: "ce_ok sha d" and pol: "cs_policy c = Lru q"
    and adm: "cs_shouldAdmit c" "cs_limit c \<noteq> 0" "\<not> d_noCache d"
  defines "k \<equiv> (d_name d, Data_digest sha d)"
  shows "\<exists>e. cs_lookup sha (Cs_insert sha now d u c) k = Some e \<and>
    ce_data e = (case cs_lookup sha c k of Some e' \<Rightarrow> ce_data e' | None \<Rightarrow> d) \<and>
    ce_freshUntil e = now + d_freshnessPeriod (ce_data e) * 1000000 \<and> (ce_isUnsolicited e \<longrightarrow> u)"
proof -
  have t: "table_ok sha (cs_table c)" using inv by (simp add: cs_inv_def cs_wf_def)
  have inv': "cs_inv sha (Cs_insert sha now d u c)" by (rule Cs_insert_inv [OF inv d])
  then have t': "table_ok sha (cs_table (Cs_insert sha now d u c))" by (simp add: cs_inv_def cs_wf_def)
  from inv d adm show ?thesis
  proof (cases rule: Cs_insert_cases [where u = u and now = now])
    case (new t1 e)
    let ?c = "c\<lparr>cs_table := t1, cs_policy := policy_attach now e k (cs_policy c)\<rparr>"
    have ek: "ce_key sha e = k" using new(4) by (simp add: ce_key_def k_def)
    have kq: "k \<notin> set q" using new(1) inv pol by (simp add: cs_inv_def cs_wf_def k_def)
    then have p: "policy_attach now e k (cs_policy c) = Lru (q @ [k])"
      by (simp add: pol lru_insertToQueue_def)
    have "cs_wf sha t1 (Lru (q @ [k]))"
      using inv new(2,3) kq pol ek by (simp add: cs_wf_def cs_inv_def)
    then obtain q' where q': "snd (evictEntries sha (cs_limit c) t1 (Lru (q @ [k]))) = Lru (q' @ [k])"
      using evict_lru_keeps_newest [of sha t1 q k "cs_limit c"] adm(2) by auto
    have ins: "Cs_insert sha now d u c = Cs_evict sha ?c" using new(7) by (simp add: k_def)
    have "cs_policy (Cs_evict sha ?c) = Lru (q' @ [k])"
      using q' by (auto simp: Cs_evict_def p split: prod.splits)
    then have "k \<in> ce_key sha ` set (cs_table (Cs_evict sha ?c))"
      using inv' unfolding ins cs_inv_def cs_wf_def by auto
    moreover have "set (cs_table (Cs_evict sha ?c)) \<subseteq> set t1"
      using Cs_evict_ok [of sha ?c] \<open>cs_wf sha t1 (Lru (q @ [k]))\<close> p by simp
    moreover have "x = e" if "x \<in> set t1" "ce_key sha x = k" for x
      using that new(1,3) unfolding k_def by (metis imageI insertE)
    ultimately have "e \<in> set (cs_table (Cs_evict sha ?c))" by auto
    then have "cs_lookup sha (Cs_insert sha now d u c) k = Some e"
      unfolding cs_lookup_mem [OF t', unfolded ins] ins using ek by simp
    moreover have "cs_lookup sha c k = None"
      using new(1) unfolding cs_lookup_def find_None_iff' k_def by (metis imageI)
    ultimately show ?thesis using new(4-6) by auto
  next
    case (old t1 e e')
    have "cs_lookup sha c k = Some e" unfolding cs_lookup_mem [OF t] using old(1,2) by (simp add: k_def)
    moreover have "ce_key sha e' = k" using old(2,7) by (simp add: ce_key_def k_def)
    then have "cs_lookup sha (Cs_insert sha now d u c) k = Some e'"
      unfolding cs_lookup_mem [OF t'] using old(6,10) by simp
    ultimately show ?thesis using old(7-9) by simp
  qed
qed

section \<open>Range queries\<close>

lemma takeWhile_filter:
  "sorted_wrt (\<lambda>a b. P b \<longrightarrow> P a) xs \<Longrightarrow> takeWhile P xs = filter P xs"
  by (induction xs) (auto simp: filter_empty_conv)

lemma dropWhile_filter:
  "sorted_wrt (\<lambda>a b. P b \<longrightarrow> P a) xs \<Longrightarrow> drop (length (filter P xs)) xs = filter (\<lambda>x. \<not> P x) xs"
proof (induction xs)
  case (Cons x xs)
  then show ?case
    by (cases "P x") (auto simp: filter_empty_conv filter_id_conv intro: sym)
qed simp

lemma range_filter:
  assumes P: "sorted_wrt (\<lambda>a b. P b \<longrightarrow> P a) xs" and Q: "sorted_wrt (\<lambda>a b. Q b \<longrightarrow> Q a) xs"
    and PQ: "\<And>x. x \<in> set xs \<Longrightarrow> P x \<Longrightarrow> Q x"
  shows "take (length (filter Q xs) - length (filter P xs)) (drop (length (filter P xs)) xs) =
    filter (\<lambda>x. \<not> P x \<and> Q x) xs"
  using assms
proof (induction xs)
  case (Cons x xs)
  show ?case
  proof (cases "P x")
    case True
    then show ?thesis using Cons by auto
  next
    case False
    then have nP: "filter P xs = []" using Cons.prems(1) by (auto simp: filter_empty_conv)
    show ?thesis
    proof (cases "Q x")
      case True
      then show ?thesis using Cons False nP by auto
    next
      case nQ: False
      then have "filter Q xs = []" using Cons.prems(2) by (auto simp: filter_empty_conv)
      then show ?thesis using False nQ nP by (auto simp: filter_empty_conv)
    qed
  qed
qed simp

lemma getSuccessor_not_digest:
  assumes "valid_component c" "\<not> isImplicitSha256Digest c"
  shows "\<not> isImplicitSha256Digest (Component_getSuccessor c)"
  using assms
  by (cases rule: Component_getSuccessor_cases [of c])
    (auto simp: isImplicitSha256Digest_def valid_component_iff SHA256_DIGEST_SIZE_def)

text \<open>A query that does not end with an implicit digest compares by name alone.\<close>

definition plain_prefix :: "name \<Rightarrow> bool" where
  "plain_prefix q \<longleftrightarrow> list_all valid_component q \<and> length q < 2 ^ 31 \<and>
     (q = [] \<or> \<not> isImplicitSha256Digest (last q))"

lemma compareQuery_plain:
  assumes "length q < 2 ^ 31" "q = [] \<or> \<not> isImplicitSha256Digest (last q)" "ce_ok sha d"
  shows "compareQueryWithData sha q d > 0 \<longleftrightarrow> name_cmp q (d_name d) > 0"
  using assms by (auto simp: compareQueryWithData_def ce_ok_def Name_compare_eq split: if_splits)

lemma table_sorted_names:
  assumes "table_ok sha t"
  shows "sorted_wrt (\<lambda>a b. name_cmp q (d_name (ce_data b)) > 0 \<longrightarrow> name_cmp q (d_name (ce_data a)) > 0) t"
proof -
  have "name_cmp q (d_name (ce_data a)) > 0"
    if "key_cmp (ce_key sha a) (ce_key sha b) < 0" "name_cmp q (d_name (ce_data b)) > 0" for a b
  proof -
    have "name_cmp (d_name (ce_data a)) (d_name (ce_data b)) \<le> 0"
      using that(1) by (auto simp: key_cmp_def ce_key_def split: if_splits)
    moreover have "name_cmp (d_name (ce_data b)) q < 0" using that(2) name_order.cmp_swap by blast
    ultimately have "name_cmp (d_name (ce_data a)) q < 0" by (rule name_order.le_less_trans)
    then show ?thesis using name_order.cmp_swap by blast
  qed
  with assms show ?thesis
    unfolding table_ok_def by (metis (mono_tags, lifting) sorted_wrt_mono_rel)
qed

lemma lower_bound_plain:
  assumes "table_ok sha t" "length q < 2 ^ 31" "q = [] \<or> \<not> isImplicitSha256Digest (last q)"
  shows "lower_bound sha q t = length (filter (\<lambda>e. name_cmp q (d_name (ce_data e)) > 0) t)"
proof -
  have "takeWhile (\<lambda>e. compareQueryWithData sha q (ce_data e) > 0) t =
      takeWhile (\<lambda>e. name_cmp q (d_name (ce_data e)) > 0) t"
    using assms compareQuery_plain [OF assms(2,3)] by (intro takeWhile_cong) (auto simp: table_ok_def)
  then show ?thesis
    unfolding lower_bound_def by (simp add: takeWhile_filter [OF table_sorted_names [OF assms(1)]])
qed

text \<open>\<^verbatim>\<open>findPrefixRange\<close> delimits exactly the entries under the prefix.\<close>

lemma findPrefixRange_filter:
  assumes t: "table_ok sha t" and q: "plain_prefix q"
  defines "f \<equiv> fst (findPrefixRange sha q t)" and "l \<equiv> snd (findPrefixRange sha q t)"
  shows "take (l - f) (drop f t) = filter (\<lambda>e. isPrefixOf q (d_name (ce_data e))) t"
proof (cases "q = []")
  case True
  have "name_cmp [] n \<le> 0" for n by (cases n) (auto simp: name_cmp_def)
  then have "filter (\<lambda>e. name_cmp [] (d_name (ce_data e)) > 0) t = []"
    by (auto simp: filter_empty_conv not_less)
  then show ?thesis
    using lower_bound_plain [OF t, of "[]"] True by (simp add: f_def l_def findPrefixRange_def isPrefixOf_iff)
next
  case False
  then obtain p c where pc: "q = p @ [c]" by (metis rev_exhaust)
  have v: "valid_component c" "\<not> isImplicitSha256Digest c" "list_all valid_component q" "length q < 2 ^ 31"
    using q by (auto simp: plain_prefix_def pc)
  have s: "Name_getSuccessor q = p @ [Component_getSuccessor c]"
    using v(4) by (simp add: pc Name_getSuccessor_snoc)
  let ?P = "\<lambda>e. name_cmp q (d_name (ce_data e)) > 0"
  let ?Q = "\<lambda>e. name_cmp (Name_getSuccessor q) (d_name (ce_data e)) > 0"
  have f: "f = length (filter ?P t)"
    using lower_bound_plain [OF t, of q] q by (auto simp: f_def findPrefixRange_def plain_prefix_def)
  have l: "l = length (filter ?Q t)"
    using lower_bound_plain [OF t, of "Name_getSuccessor q"] getSuccessor_not_digest [OF v(1,2)] v(4) False
    by (simp add: l_def findPrefixRange_def s [unfolded pc] pc)
  have rng: "isPrefixOf q n \<longleftrightarrow> \<not> name_cmp q n > 0 \<and> name_cmp (Name_getSuccessor q) n > 0"
    if "list_all valid_component n" for n
  proof -
    have "length q < 2 ^ 64" using v(4) by simp
    from prefix_range [OF False this v(3) that] show ?thesis
      using name_order.cmp_swap [of n "Name_getSuccessor q"] by (simp add: not_less)
  qed
  have succ: "name_cmp q (Name_getSuccessor q) < 0"
    using Component_getSuccessor_greater [of c]
    by (simp add: s [unfolded pc] pc name_cmp_def comp_order.lex_cmp_append_same comp_order.refl0)
  have "take (l - f) (drop f t) = filter (\<lambda>e. \<not> ?P e \<and> ?Q e) t"
    unfolding f l
  proof (rule range_filter [OF table_sorted_names [OF t] table_sorted_names [OF t]])
    fix e assume "?P e"
    then have "name_cmp (d_name (ce_data e)) q < 0" by (simp add: name_order.cmp_swap)
    then have "name_cmp (d_name (ce_data e)) (Name_getSuccessor q) < 0"
      using succ by (rule name_order.cmp_trans)
    then show "?Q e" by (simp add: name_order.cmp_swap [symmetric])
  qed
  also have "\<dots> = filter (\<lambda>e. isPrefixOf q (d_name (ce_data e))) t"
    using t by (intro filter_cong) (auto simp: table_ok_def ce_ok_def rng)
  finally show ?thesis .
qed

section \<open>Erasing and finding\<close>

lemma erase_loop_eq:
  assumes "i + n \<le> length t"
  shows "erase_loop sha i n k limit t p =
    (take i t @ drop (i + min n (limit - k)) t,
     fold policy_beforeErase (map (ce_key sha) (take (min n (limit - k)) (drop i t))) p,
     k + min n (limit - k))"
  using assms
proof (induction n arbitrary: k t p)
  case (Suc n)
  show ?case
  proof (cases "k < limit")
    case True
    let ?t = "take i t @ drop (Suc i) t"
    have len: "i + n \<le> length ?t" and i: "i < length t" using Suc.prems by auto
    have m: "min (Suc n) (limit - k) = Suc (min n (limit - Suc k))" using True by auto
    have d: "drop i ?t = drop (Suc i) t" "take i ?t = take i t" using i by simp_all
    have dr: "drop (i + j) ?t = drop (i + Suc j) t" for j using i by (simp add: add.commute)
    have "drop i t = t ! i # drop (Suc i) t" using i by (rule Cons_nth_drop_Suc [symmetric])
    with True Suc.IH [OF len, of "Suc k" "policy_beforeErase (ce_key sha (t ! i)) p", unfolded d dr]
    show ?thesis unfolding m by simp
  qed simp
qed simp

lemma filter_out_middle:
  assumes "distinct (xs @ vs @ ys)"
  shows "filter (\<lambda>e. e \<notin> set vs) (xs @ vs @ ys) = xs @ ys"
proof -
  have "filter (\<lambda>e. e \<notin> set vs) xs = xs" "filter (\<lambda>e. e \<notin> set vs) ys = ys"
    using assms by (auto intro!: filter_True)
  moreover have "filter (\<lambda>e. e \<notin> set vs) vs = []" by (auto intro!: filter_False)
  ultimately show ?thesis by simp
qed

lemma Cs_erase_range:
  fixes limit :: nat
  assumes t: "table_ok sha (cs_table c)" and fl: "findPrefixRange sha q (cs_table c) = (f, l)"
  defines "vs \<equiv> take limit (take (l - f) (drop f (cs_table c)))"
  shows "Cs_erase sha q limit c =
      (c\<lparr>cs_table := filter (\<lambda>e. e \<notin> set vs) (cs_table c),
         cs_policy := fold policy_beforeErase (map (ce_key sha) vs) (cs_policy c)\<rparr>, length vs)"
proof -
  let ?t = "cs_table c"
  have b: "f \<le> length ?t" "l \<le> length ?t"
    using fl by (auto simp: findPrefixRange_def lower_bound_def length_takeWhile_le split: if_splits)
  then have fn: "f + (l - f) \<le> length ?t" by auto
  let ?m = "min (l - f) limit"
  have vs: "vs = take ?m (drop f ?t)"
    unfolding vs_def by (simp add: min.commute)
  have lv: "length vs = ?m" unfolding vs using fn by simp
  have split: "?t = take f ?t @ vs @ drop (f + ?m) ?t"
    unfolding vs by (metis add.commute append_take_drop_id drop_drop)
  have "distinct ?t" using table_ok_distinct [OF t] by (simp add: distinct_map)
  then have d: "distinct (take f ?t @ vs @ drop (f + ?m) ?t)" using split by simp
  then have "filter (\<lambda>e. e \<notin> set vs) (take f ?t @ vs @ drop (f + ?m) ?t) = take f ?t @ drop (f + ?m) ?t"
    by (rule filter_out_middle)
  then have "filter (\<lambda>e. e \<notin> set vs) ?t = take f ?t @ drop (f + ?m) ?t" using split by simp
  moreover have "erase_loop sha f (l - f) 0 limit ?t (cs_policy c) =
      (take f ?t @ drop (f + ?m) ?t, fold policy_beforeErase (map (ce_key sha) vs) (cs_policy c), length vs)"
    using erase_loop_eq [OF fn, of sha 0 limit "cs_policy c"] lv by (simp add: vs)
  ultimately show ?thesis using fl by (simp add: Cs_erase_def)
qed

lemma Cs_erase_eq:
  fixes limit :: nat
  assumes "cs_inv sha c" and q: "plain_prefix q"
  defines "vs \<equiv> take limit (filter (\<lambda>e. isPrefixOf q (d_name (ce_data e))) (cs_table c))"
  shows "\<exists>t. Cs_erase sha q limit c =
      (c\<lparr>cs_table := t, cs_policy := fold policy_beforeErase (map (ce_key sha) vs) (cs_policy c)\<rparr>, length vs) \<and>
    t = filter (\<lambda>e. e \<notin> set vs) (cs_table c)"
proof -
  obtain f l where fl: "findPrefixRange sha q (cs_table c) = (f, l)" by fastforce
  have t: "table_ok sha (cs_table c)" using assms(1) by (simp add: cs_inv_def cs_wf_def)
  have "take (l - f) (drop f (cs_table c)) = filter (\<lambda>e. isPrefixOf q (d_name (ce_data e))) (cs_table c)"
    using findPrefixRange_filter [OF t q] fl by simp
  with Cs_erase_range [OF t fl, of limit] show ?thesis by (simp add: vs_def)
qed

lemma Cs_erase_inv:
  assumes inv: "cs_inv sha c"
  shows "cs_inv sha (fst (Cs_erase sha q limit c))"
    and "set (cs_table (fst (Cs_erase sha q limit c))) \<subseteq> set (cs_table c)"
proof -
  have wf: "table_ok sha (cs_table c)" "distinct (policy_refs (cs_policy c))"
    "set (policy_refs (cs_policy c)) = ce_key sha ` set (cs_table c)"
    using inv by (auto simp: cs_inv_def cs_wf_def)
  obtain f l where fl: "findPrefixRange sha q (cs_table c) = (f, l)" by fastforce
  define vs where "vs = take limit (take (l - f) (drop f (cs_table c)))"
  define t where "t = filter (\<lambda>e. e \<notin> set vs) (cs_table c)"
  have eq: "Cs_erase sha q limit c =
      (c\<lparr>cs_table := t, cs_policy := fold policy_beforeErase (map (ce_key sha) vs) (cs_policy c)\<rparr>, length vs)"
    unfolding t_def vs_def by (rule Cs_erase_range [OF wf(1) fl])
  have sub: "set vs \<subseteq> set (cs_table c)" by (auto simp: vs_def dest: in_set_takeD in_set_dropD)
  have inj: "inj_on (ce_key sha) (set (cs_table c))"
    using table_ok_distinct [OF wf(1)] by (simp add: distinct_map)
  have "ce_key sha ` set t = ce_key sha ` set (cs_table c) - ce_key sha ` set vs"
    unfolding t_def using inj_on_image_set_diff [OF inj _ sub, of "set (cs_table c)"] by (simp add: set_diff_eq)
  then have "cs_wf sha t (fold policy_beforeErase (map (ce_key sha) vs) (cs_policy c))"
    using pol.forget_all_tracks [OF wf(2), of "map (ce_key sha) vs"] wf(1,3)
    by (simp add: cs_wf_def t_def table_ok_filter)
  moreover have "length t \<le> cs_limit c"
    using inv length_filter_le [of _ "cs_table c"] unfolding t_def cs_inv_def by (meson le_trans)
  ultimately show "cs_inv sha (fst (Cs_erase sha q limit c))" by (simp add: eq cs_inv_def)
  show "set (cs_table (fst (Cs_erase sha q limit c))) \<subseteq> set (cs_table c)" by (auto simp: eq t_def)
qed

lemma find_filter: "(\<And>x. x \<in> set xs \<Longrightarrow> P x \<Longrightarrow> Q x) \<Longrightarrow> List.find P (filter Q xs) = List.find P xs"
  by (induction xs) auto

lemma Cs_find_eq:
  assumes "cs_inv sha c" "plain_prefix (Interest_getNameFunction i)" "cs_shouldServe c"
  shows "snd (Cs_find sha now i c) =
    List.find (canSatisfy sha now i)
      (filter (\<lambda>e. isPrefixOf (Interest_getNameFunction i) (d_name (ce_data e))) (cs_table c))"
proof -
  obtain f l where fl: "findPrefixRange sha (Interest_getNameFunction i) (cs_table c) = (f, l)" by fastforce
  have t: "table_ok sha (cs_table c)" using assms(1) by (simp add: cs_inv_def cs_wf_def)
  have "cs_limit c = 0 \<Longrightarrow> cs_table c = []" using assms(1) by (simp add: cs_inv_def)
  then show ?thesis
    using findPrefixRange_filter [OF t assms(2)] fl assms(3)
    by (auto simp: Cs_find_def split: option.splits)
qed

lemma Cs_find_inv:
  assumes "cs_inv sha c"
  shows "cs_inv sha (fst (Cs_find sha now i c))"
proof -
  obtain f l where fl: "findPrefixRange sha (Interest_getNameFunction i) (cs_table c) = (f, l)" by fastforce
  have "ce_key sha e \<in> set (policy_refs (cs_policy c))"
    if "List.find (canSatisfy sha now i) (take (l - f) (drop f (cs_table c))) = Some e" for e
    using find_SomeD [OF that] assms by (auto simp: cs_inv_def cs_wf_def dest!: in_set_takeD in_set_dropD)
  then show ?thesis
    using assms pol.touch_tracks [of "cs_policy c"] fl
    by (auto simp: Cs_find_def cs_inv_def cs_wf_def split: option.splits)
qed

text \<open>An entry that satisfies an Interest without function lies under the lookup name.\<close>

lemma canSatisfy_prefix:
  assumes "ce_ok sha (ce_data e)" "\<And>x. length (sha x) = 32" "canSatisfy sha now i e"
    and "i_function i = []" "length (i_name i) < 2 ^ 64"
  shows "isPrefixOf (Interest_getNameFunction i) (d_name (ce_data e))"
proof -
  have "matchesDataWFunction sha i (ce_data e) = Inr True"
    using assms(3) by (auto simp: canSatisfy_def split: if_splits)
  then have "matchesData sha i (ce_data e) = Inr True"
    by (auto simp: matchesDataWFunction_def split: if_splits)
  moreover have "fullName_ok sha (ce_data e)" using assms(1) by (simp add: ce_ok_def)
  ultimately have "prefix (strip_digest (i_name i)) (d_name (ce_data e))"
    using matchesData_iff [of sha "ce_data e" i] assms(2)
    by (auto simp: strip_digest_def isImplicitSha256Digest_def SHA256_DIGEST_SIZE_def split: if_splits
        intro: prefix_order.trans [OF prefixeq_butlast])
  then show ?thesis
    using assms(4,5) by (simp add: Interest_getNameFunction_def nameFunction_eq isPrefixOf_iff)
qed

lemma Cs_staleEvent_inv:
  assumes "cs_inv sha c"
  shows "cs_inv sha (Cs_staleEvent i c)"
proof (cases "cs_policy c")
  case (PriorityFifo p)
  have "mset (pf_refs (pf_moveToStaleQueue i p)) = mset (pf_refs p)" if "i \<in> fst ` set (pf_fifo p)"
  proof -
    have "i \<in># mset (map fst (pf_fifo p))" using that by simp
    then show ?thesis
      by (simp add: pf_refs_def pf_moveToStaleQueue_def map_delete_first mset_map [symmetric] del: mset_map)
  qed
  then have "i \<in> fst ` set (pf_fifo p) \<Longrightarrow> distinct (pf_refs (pf_moveToStaleQueue i p)) = distinct (pf_refs p) \<and>
      set (pf_refs (pf_moveToStaleQueue i p)) = set (pf_refs p)"
    by (metis mset_eq_imp_distinct_iff mset_eq_setD)
  with PriorityFifo assms show ?thesis
    unfolding cs_inv_def cs_wf_def Cs_staleEvent_def
    by (auto simp: policy_refs_eq simp del: policy_refs.simps(2))
qed (use assms in \<open>simp add: Cs_staleEvent_def\<close>)

section \<open>Properties\<close>

abbreviation (input) sample_sha :: "bytes \<Rightarrow> bytes" where
  "sample_sha \<equiv> \<lambda>_. replicate 32 0"

lemma Cs_config_inv:
  assumes "cs_inv sha c"
  shows "cs_inv sha (Cs_setLimit sha n c)" "cs_limit (Cs_setLimit sha n c) = n"
    and "set (cs_table (Cs_setLimit sha n c)) \<subseteq> set (cs_table c)"
    and "cs_inv sha (enableAdmit b c)" "cs_inv sha (enableServe b c)"
    and "cs_table c = [] \<Longrightarrow> policy_refs p = [] \<Longrightarrow> cs_inv sha (Cs_setPolicy sha p c)"
proof -
  show "cs_inv sha (Cs_setLimit sha n c)" "cs_limit (Cs_setLimit sha n c) = n"
    "set (cs_table (Cs_setLimit sha n c)) \<subseteq> set (cs_table c)"
    unfolding Cs_setLimit_def using Cs_evict_ok [of sha "c\<lparr>cs_limit := n\<rparr>"] assms by (auto simp: cs_inv_def)
  show "cs_inv sha (Cs_setPolicy sha p c)" if "cs_table c = []" "policy_refs p = []"
    unfolding Cs_setPolicy_def Cs_setLimit_def using Cs_evict_ok that
    by (simp add: cs_wf_def table_ok_def)
  show "cs_inv sha (enableAdmit b c)" "cs_inv sha (enableServe b c)"
    using assms by (auto simp: enableAdmit_def enableServe_def cs_inv_def)
qed

lemma Cs_new_inv: "cs_inv sha (Cs_new n)"
  by (simp add: cs_inv_def cs_wf_def Cs_new_def table_ok_def)

lemma sample_data_ok: "list_all valid_component n \<Longrightarrow> length n < 2 ^ 31 \<Longrightarrow> ce_ok sha (sample_data n f)"
  by (simp add: ce_ok_def fullName_ok_def sample_data_def)

definition sample_cs :: cs where
  "sample_cs = Cs_insert sample_sha 0 (sample_data [Component 8 [65]] []) False (Cs_new 10)"

lemma sample_cs_inv: "cs_inv sample_sha sample_cs"
  unfolding sample_cs_def
  by (intro Cs_insert_inv Cs_new_inv sample_data_ok) (simp_all add: valid_component_iff)

text \<open>
  C26: Every operation of the Content Store keeps it consistent: the table stays strictly ordered
  by name and digest, the replacement policy tracks exactly the stored entries, each once, and the
  number of entries never exceeds the limit. This holds for both policies.
\<close>

theorem Cs_invariant:
  assumes "cs_inv sha c"
  shows "(ce_ok sha d \<longrightarrow> cs_inv sha (Cs_insert sha now d u c)) \<and>
    cs_inv sha (fst (Cs_erase sha q limit c)) \<and>
    cs_inv sha (fst (Cs_find sha now i c)) \<and>
    cs_inv sha (Cs_setLimit sha n c) \<and> cs_limit (Cs_setLimit sha n c) = n \<and>
    cs_inv sha (Cs_staleEvent k c) \<and> cs_inv sha (enableAdmit b c) \<and> cs_inv sha (enableServe b c) \<and>
    (cs_table c = [] \<and> policy_refs p = [] \<longrightarrow> cs_inv sha (Cs_setPolicy sha p c))"
  using assms by (auto intro: Cs_insert_inv Cs_erase_inv Cs_find_inv Cs_staleEvent_inv Cs_config_inv)

theorem Cs_invariant_witness:
  "cs_inv sample_sha (Cs_setLimit sample_sha 0 sample_cs) \<and>
   cs_inv sample_sha (fst (Cs_erase sample_sha [] 1 sample_cs))"
  using Cs_invariant [OF sample_cs_inv, of _ _ _ "[]" 1 _ 0] by (auto simp: plain_prefix_def)

text \<open>
  C27: With the LRU policy, admitted Data is found under its full name right after insertion: fresh
  for its freshness period from now, marked unsolicited only if this insertion was; an entry that
  was there before keeps its Data.
\<close>

theorem Cs_insert_stores:
  assumes "cs_inv sha c" and "ce_ok sha d" and "cs_policy c = Lru q"
    and "cs_shouldAdmit c" "cs_limit c \<noteq> 0" "\<not> d_noCache d"
  shows "\<exists>e. cs_lookup sha (Cs_insert sha now d u c) (d_name d, Data_digest sha d) = Some e \<and>
    ce_data e = (case cs_lookup sha c (d_name d, Data_digest sha d) of Some e' \<Rightarrow> ce_data e' | None \<Rightarrow> d) \<and>
    ce_freshUntil e = now + d_freshnessPeriod (ce_data e) * 1000000 \<and> (ce_isUnsolicited e \<longrightarrow> u)"
  using Cs_insert_lookup [OF assms] .

theorem Cs_insert_stores_witness:
  "\<exists>e. cs_lookup sample_sha sample_cs ([Component 8 [65]], Data_digest sample_sha (sample_data [Component 8 [65]] [])) = Some e \<and>
     ce_data e = sample_data [Component 8 [65]] []"
proof -
  let ?d = "sample_data [Component 8 [65]] []"
  have "ce_ok sample_sha ?d" by (simp add: sample_data_ok valid_component_iff)
  from Cs_insert_stores [OF Cs_new_inv this, of 10 "[]" 0 False] show ?thesis
    unfolding sample_cs_def by (auto simp: Cs_new_def cs_lookup_def sample_data_def)
qed

text \<open>
  C25: A lookup for an Interest without function returns the first entry, in the order of the table,
  that can satisfy the Interest, and misses only if no stored Data can; the search of the range
  under the Interest's name loses nothing. (The lookup name must not end with a second digest.)
\<close>

theorem Cs_find_correct:
  assumes "cs_inv sha c" and "\<And>x. length (sha x) = 32" and "cs_shouldServe c"
    and "i_function i = []" and "plain_prefix (Interest_getNameFunction i)" "length (i_name i) < 2 ^ 64"
  shows "snd (Cs_find sha now i c) = List.find (canSatisfy sha now i) (cs_table c)"
  unfolding Cs_find_eq [OF assms(1,5,3)]
proof (rule find_filter)
  fix e assume "e \<in> set (cs_table c)" "canSatisfy sha now i e"
  then show "isPrefixOf (Interest_getNameFunction i) (d_name (ce_data e))"
    using canSatisfy_prefix [of sha e now i] assms by (simp add: cs_inv_def cs_wf_def table_ok_def)
qed

theorem Cs_find_correct_witness:
  "snd (Cs_find sample_sha 0 (sample_interest [Component 8 [65]] []) sample_cs) =
     List.find (canSatisfy sample_sha 0 (sample_interest [Component 8 [65]] [])) (cs_table sample_cs)"
proof (rule Cs_find_correct [OF sample_cs_inv])
  show "cs_shouldServe sample_cs"
    by (simp add: sample_cs_def Cs_insert_def Cs_new_def sample_data_def Cs_evict_def table_modify_def
        CsEntry_new_def updateFreshUntil_def ce_key_def evictEntries.simps)
  show "plain_prefix (Interest_getNameFunction (sample_interest [Component 8 [65]] []))"
    by (simp add: Interest_getNameFunction_def nameFunction_no_digest sample_interest_def
        isImplicitSha256Digest_def plain_prefix_def valid_component_iff)
qed (simp_all add: sample_interest_def)




section \<open>A deviation\<close>

text \<open>
  The table is ordered by Data name alone, but a lookup searches under the name with the function
  appended. Data that carries a function is therefore missed by the very Interest it satisfies.
\<close>

theorem Cs_misses_function_data:
  defines "d \<equiv> sample_data [Component 8 [65]] [Component 8 [70]]"
    and "i \<equiv> sample_interest [Component 8 [65]] [Component 8 [70]]"
  defines "c \<equiv> Cs_insert sample_sha 0 d False (Cs_new 10)"
  shows "(\<exists>e \<in> set (cs_table c). canSatisfy sample_sha 0 i e) \<and> snd (Cs_find sample_sha 0 i c) = None"
proof -
  have ok: "ce_ok sample_sha d" "fullName_ok sample_sha d"
    by (simp_all add: d_def ce_ok_def valid_component_iff fullName_ok_def sample_data_def)
  have inv: "cs_inv sample_sha c" unfolding c_def by (intro Cs_insert_inv Cs_new_inv ok)
  have t: "cs_table c = [CsEntry_new 0 d False]"
    by (simp add: c_def d_def Cs_insert_def Cs_new_def sample_data_def Cs_evict_def table_modify_def
        CsEntry_new_def updateFreshUntil_def ce_key_def evictEntries.simps)
  have serve: "cs_shouldServe c"
    by (simp add: c_def d_def Cs_insert_def Cs_new_def sample_data_def Cs_evict_def table_modify_def
        CsEntry_new_def updateFreshUntil_def ce_key_def evictEntries.simps)
  have n: "Interest_getNameFunction i = [Component 8 [65], Component 8 [70]]"
    by (simp add: i_def Interest_getNameFunction_def nameFunction_no_digest sample_interest_def isImplicitSha256Digest_def)
  have "canSatisfy sample_sha 0 i (CsEntry_new 0 d False)"
    using matchesData_iff [OF ok(2), of i]
    by (simp add: canSatisfy_def matchesDataWFunction_def CsEntry_new_def updateFreshUntil_def i_def d_def
        sample_interest_def sample_data_def)
  moreover have "snd (Cs_find sample_sha 0 i c) = None"
    by (subst Cs_find_eq [OF inv _ serve])
      (simp_all add: n plain_prefix_def valid_component_iff isImplicitSha256Digest_def t CsEntry_new_def
        updateFreshUntil_def d_def sample_data_def isPrefixOf_iff)
  ultimately show ?thesis by (simp add: t)
qed

end
