(* ===== verification/DeadNonceList.thy ===== *)
theory DeadNonceList
  imports Packets "HOL-Library.Multiset"
begin

text \<open>
  The Dead Nonce List (\<^verbatim>\<open>daemon/table/dead-nonce-list.cpp\<close>): a queue of 64-bit hashes of name and
  nonce whose capacity is steered by counting marks. CityHash is third-party code: it is the
  parameter \<open>city\<close>, applied to the wire encoding of the name with the nonce as seed. The products of
  a capacity, at most \<open>2 ^ 24\<close>, with the \<^verbatim>\<open>double\<close> constants 0.9 and 1.2 are off by less than the
  distance to the next integer, so that their truncation is integer division.
\<close>

type_synonym city_hash = "bytes \<Rightarrow> nonce \<Rightarrow> 64 word"

definition DEFAULT_LIFETIME :: time_ns where "DEFAULT_LIFETIME = 6000000000"
definition MIN_LIFETIME :: time_ns where "MIN_LIFETIME = 1000000"
definition INITIAL_CAPACITY :: nat where "INITIAL_CAPACITY = 128"
definition MIN_CAPACITY :: nat where "MIN_CAPACITY = 8"
definition MAX_CAPACITY :: nat where "MAX_CAPACITY = 16777216"
definition MARK :: "64 word" where "MARK = 0"
definition EXPECTED_MARK_COUNT :: nat where "EXPECTED_MARK_COUNT = 5"
definition EVICT_LIMIT :: nat where "EVICT_LIMIT = 64"

lemmas dnl_consts = DEFAULT_LIFETIME_def MIN_LIFETIME_def INITIAL_CAPACITY_def MIN_CAPACITY_def
  MAX_CAPACITY_def MARK_def EXPECTED_MARK_COUNT_def EVICT_LIMIT_def

record dnl =
  dnl_lifetime :: time_ns
  dnl_queue :: "64 word list"
  dnl_capacity :: nat
  dnl_actualMarkCounts :: "nat list"
  dnl_markEvent :: time_ns
  dnl_adjustEvent :: time_ns

text \<open>The constructor at time \<open>now\<close>; \<^term>\<open>None\<close> if it throws \<^verbatim>\<open>std::invalid_argument\<close>.\<close>

definition DeadNonceList_new :: "time_ns \<Rightarrow> time_ns \<Rightarrow> dnl option" where
  "DeadNonceList_new now lifetime =
     (if lifetime < MIN_LIFETIME then None
      else Some \<lparr>dnl_lifetime = lifetime, dnl_queue = replicate EXPECTED_MARK_COUNT MARK,
                 dnl_capacity = INITIAL_CAPACITY, dnl_actualMarkCounts = [],
                 dnl_markEvent = now + lifetime div int EXPECTED_MARK_COUNT,
                 dnl_adjustEvent = now + lifetime\<rparr>)"

definition countMarks :: "dnl \<Rightarrow> nat" where
  "countMarks d = count_list (dnl_queue d) MARK"

definition DeadNonceList_size :: "dnl \<Rightarrow> nat" where
  "DeadNonceList_size d = length (dnl_queue d) - countMarks d"

definition makeEntry :: "city_hash \<Rightarrow> name \<Rightarrow> nonce \<Rightarrow> 64 word" where
  "makeEntry city n nonce = city (snd (Name_wireEncode n [])) nonce"

definition DeadNonceList_has :: "city_hash \<Rightarrow> name \<Rightarrow> nonce \<Rightarrow> dnl \<Rightarrow> bool" where
  "DeadNonceList_has city n nonce d \<longleftrightarrow> makeEntry city n nonce \<in> set (dnl_queue d)"

definition dnl_evictEntries :: "dnl \<Rightarrow> dnl" where
  "dnl_evictEntries d =
     (let nOverCapacity = int (length (dnl_queue d)) - int (dnl_capacity d) in
      if nOverCapacity \<le> 0 then d
      else d\<lparr>dnl_queue := drop (min (nat nOverCapacity) EVICT_LIMIT) (dnl_queue d)\<rparr>)"

definition DeadNonceList_add :: "city_hash \<Rightarrow> name \<Rightarrow> nonce \<Rightarrow> dnl \<Rightarrow> dnl" where
  "DeadNonceList_add city n nonce d =
     dnl_evictEntries (d\<lparr>dnl_queue := dnl_queue d @ [makeEntry city n nonce]\<rparr>)"

definition dnl_mark :: "time_ns \<Rightarrow> dnl \<Rightarrow> dnl" where
  "dnl_mark now d =
     (let d = d\<lparr>dnl_queue := dnl_queue d @ [MARK]\<rparr> in
      d\<lparr>dnl_actualMarkCounts := countMarks d # dnl_actualMarkCounts d,
        dnl_markEvent := now + dnl_lifetime d div int EXPECTED_MARK_COUNT\<rparr>)"

text \<open>
  \<^verbatim>\<open>equalRange.second == begin()\<close>: no count is at most the expected one; \<^verbatim>\<open>equalRange.first == end()\<close>:
  none is at least that.
\<close>

definition adjustCapacity :: "time_ns \<Rightarrow> dnl \<Rightarrow> dnl" where
  "adjustCapacity now d =
     (let counts = dnl_actualMarkCounts d;
          capacity =
            (if \<not> (\<exists>n \<in> set counts. n \<le> EXPECTED_MARK_COUNT)
             then max MIN_CAPACITY (dnl_capacity d * 9 div 10)
             else if \<not> (\<exists>n \<in> set counts. n \<ge> EXPECTED_MARK_COUNT)
             then min MAX_CAPACITY (dnl_capacity d * 12 div 10)
             else dnl_capacity d);
          d = dnl_evictEntries (d\<lparr>dnl_capacity := capacity, dnl_actualMarkCounts := []\<rparr>)
      in d\<lparr>dnl_adjustEvent := now + dnl_lifetime d\<rparr>)"

section \<open>Eviction\<close>

lemma evict_capacity [simp]: "dnl_capacity (dnl_evictEntries d) = dnl_capacity d"
  by (simp add: dnl_evictEntries_def Let_def)

lemma length_evict:
  "length (dnl_queue (dnl_evictEntries d)) =
     (if length (dnl_queue d) \<le> dnl_capacity d then length (dnl_queue d)
      else max (dnl_capacity d) (length (dnl_queue d) - EVICT_LIMIT))"
  by (auto simp: dnl_evictEntries_def Let_def)

text \<open>An entry with fewer than \<open>capacity\<close> entries behind it survives.\<close>

lemma evict_keeps:
  assumes "dnl_queue d = xs @ e # ys" "length ys < dnl_capacity d"
  shows "\<exists>zs. dnl_queue (dnl_evictEntries d) = zs @ e # ys"
proof -
  let ?n = "min (nat (int (length (dnl_queue d)) - int (dnl_capacity d))) EVICT_LIMIT"
  have "?n \<le> length xs" using assms by (auto simp: min_def)
  then have "drop ?n (dnl_queue d) = drop ?n xs @ e # ys" unfolding assms(1) by simp
  with assms(1) show ?thesis
    by (cases "int (length (dnl_queue d)) - int (dnl_capacity d) \<le> 0") (auto simp: dnl_evictEntries_def)
qed

definition dnl_inv :: "dnl \<Rightarrow> bool" where
  "dnl_inv d \<longleftrightarrow> MIN_CAPACITY \<le> dnl_capacity d \<and> dnl_capacity d \<le> MAX_CAPACITY \<and>
     MIN_LIFETIME \<le> dnl_lifetime d"

text \<open>What can happen to the list.\<close>

datatype dnl_op = Add name nonce | Mark time_ns | Adjust time_ns

fun dnl_step :: "city_hash \<Rightarrow> dnl_op \<Rightarrow> dnl \<Rightarrow> dnl" where
  "dnl_step city (Add n nonce) d = DeadNonceList_add city n nonce d"
| "dnl_step city (Mark now) d = dnl_mark now d"
| "dnl_step city (Adjust now) d = adjustCapacity now d"

fun is_push :: "dnl_op \<Rightarrow> bool" where
  "is_push (Adjust now) = False"
| "is_push _ = True"

lemma dnl_step_inv [inv_intros]: "dnl_inv d \<Longrightarrow> dnl_inv (dnl_step city op d)"
  by (cases op)
    (auto simp: dnl_inv_def DeadNonceList_add_def dnl_mark_def adjustCapacity_def Let_def dnl_evictEntries_def
      MIN_CAPACITY_def MAX_CAPACITY_def)

lemma dnl_step_keeps:
  assumes "dnl_inv d" "dnl_queue d = xs @ e # ys" "length ys + (if is_push op then 1 else 0) < MIN_CAPACITY"
  obtains zs ys' where "dnl_queue (dnl_step city op d) = zs @ e # ys'"
    "length ys' = length ys + (if is_push op then 1 else 0)"
proof (cases op)
  case (Add n nonce)
  obtain zs where "dnl_queue (DeadNonceList_add city n nonce d) = zs @ e # (ys @ [makeEntry city n nonce])"
    using evict_keeps [of "d\<lparr>dnl_queue := dnl_queue d @ [makeEntry city n nonce]\<rparr>" xs e
        "ys @ [makeEntry city n nonce]"] assms Add
    by (auto simp: DeadNonceList_add_def dnl_inv_def)
  with Add show thesis by (intro that [of zs "ys @ [makeEntry city n nonce]"]) simp_all
next
  case (Mark now)
  with assms(2) show thesis by (intro that [of xs "ys @ [MARK]"]) (simp_all add: dnl_mark_def Let_def)
next
  case (Adjust now)
  define c where "c = dnl_capacity (dnl_step city op d)"
  have c: "length ys < c"
    using dnl_step_inv [OF assms(1), of city op] assms(3) Adjust by (simp add: dnl_inv_def c_def)
  have q: "dnl_queue (dnl_step city op d) = dnl_queue (dnl_evictEntries (d\<lparr>dnl_capacity := c, dnl_actualMarkCounts := []\<rparr>))"
    by (simp add: Adjust adjustCapacity_def Let_def c_def)
  obtain zs where "dnl_queue (dnl_evictEntries (d\<lparr>dnl_capacity := c, dnl_actualMarkCounts := []\<rparr>)) = zs @ e # ys"
    using evict_keeps [of "d\<lparr>dnl_capacity := c, dnl_actualMarkCounts := []\<rparr>" xs e ys] assms(2) c by auto
  with Adjust q show thesis by (intro that [of zs ys]) simp_all
qed

lemma dnl_steps_keep:
  assumes "dnl_inv d" "dnl_queue d = xs @ e # ys" "length ys + length (filter is_push ops) < MIN_CAPACITY"
  shows "e \<in> set (dnl_queue (fold (dnl_step city) ops d))"
  using assms
proof (induction ops arbitrary: d xs ys)
  case (Cons op ops)
  obtain zs ys' where s: "dnl_queue (dnl_step city op d) = zs @ e # ys'"
    "length ys' = length ys + (if is_push op then 1 else 0)"
    using dnl_step_keeps [OF Cons.prems(1,2), of op city] Cons.prems(3) by (auto split: if_splits)
  have "length ys' + length (filter is_push ops) < MIN_CAPACITY"
    using Cons.prems(3) s(2) by (simp split: if_splits)
  from Cons.IH [OF dnl_step_inv [OF Cons.prems(1)] s(1) this] show ?case by simp
qed simp

section \<open>Properties\<close>

text \<open>
  C30: A dead nonce is remembered: once name and nonce are added, the list reports them until at
  least eight more entries or marks have been inserted, whatever capacity adjustments happen
  meanwhile.
\<close>

theorem DeadNonceList_remembers:
  assumes "dnl_inv d" and "length (filter is_push ops) < MIN_CAPACITY"
  shows "DeadNonceList_has city n nonce (fold (dnl_step city) ops (DeadNonceList_add city n nonce d))"
proof -
  obtain zs where "dnl_queue (DeadNonceList_add city n nonce d) = zs @ makeEntry city n nonce # []"
    using evict_keeps [of "d\<lparr>dnl_queue := dnl_queue d @ [makeEntry city n nonce]\<rparr>" "dnl_queue d"
        "makeEntry city n nonce" "[]"] assms(1)
    by (auto simp: DeadNonceList_add_def dnl_inv_def MIN_CAPACITY_def)
  from dnl_steps_keep [OF _ this, of ops city] assms dnl_step_inv [OF assms(1), of city "Add n nonce"]
  show ?thesis by (simp add: DeadNonceList_has_def)
qed

definition sample_dnl :: dnl where
  "sample_dnl = \<lparr>dnl_lifetime = DEFAULT_LIFETIME, dnl_queue = replicate 5 MARK, dnl_capacity = 128,
     dnl_actualMarkCounts = [], dnl_markEvent = 0, dnl_adjustEvent = 0\<rparr>"

lemma sample_dnl_inv: "dnl_inv sample_dnl"
  by (simp add: dnl_inv_def sample_dnl_def dnl_consts)

theorem DeadNonceList_remembers_witness:
  "DeadNonceList_has (\<lambda>_ _. 5) [] [1, 2, 3, 4]
     (fold (dnl_step (\<lambda>_ _. 5)) [Mark 0, Adjust 0, Add [] [1, 1, 1, 1]]
       (DeadNonceList_add (\<lambda>_ _. 5) [] [1, 2, 3, 4] sample_dnl))"
  by (rule DeadNonceList_remembers [OF sample_dnl_inv]) (simp add: MIN_CAPACITY_def)

text \<open>
  C31: The capacity always stays between its minimum and maximum; adding never shrinks the list
  below its capacity and removes at most 64 entries; a list that was left over capacity, by a
  reduction of the capacity, is brought down to exactly the capacity by enough additions.
\<close>

theorem DeadNonceList_bounds:
  assumes "dnl_inv d"
  shows "dnl_inv (dnl_step city op d) \<and>
    length (dnl_queue (DeadNonceList_add city n nonce d)) =
      (if length (dnl_queue d) < dnl_capacity d then length (dnl_queue d) + 1
       else max (dnl_capacity d) (length (dnl_queue d) - 63)) \<and>
    (\<exists>k. \<forall>m \<ge> k. length (dnl_queue ((DeadNonceList_add city n nonce ^^ m) d)) = dnl_capacity d)"
proof (intro conjI)
  let ?add = "DeadNonceList_add city n nonce"
  show "dnl_inv (dnl_step city op d)" by (rule dnl_step_inv [OF assms])
  have len: "length (dnl_queue (?add d)) =
      (if length (dnl_queue d) < dnl_capacity d then length (dnl_queue d) + 1
       else max (dnl_capacity d) (length (dnl_queue d) - 63))" for d
    by (auto simp: DeadNonceList_add_def length_evict EVICT_LIMIT_def)
  show "length (dnl_queue (?add d)) =
      (if length (dnl_queue d) < dnl_capacity d then length (dnl_queue d) + 1
       else max (dnl_capacity d) (length (dnl_queue d) - 63))" by (rule len)
  have cap: "dnl_capacity ((?add ^^ m) d) = dnl_capacity d" for m
    by (induction m) (simp_all add: DeadNonceList_add_def)
  let ?len = "\<lambda>m. int (length (dnl_queue ((?add ^^ m) d)))" and ?c = "int (dnl_capacity d)"
  have dist: "\<bar>?len m - ?c\<bar> \<le> max 0 (\<bar>?len 0 - ?c\<bar> - int m)" for m
  proof (induction m)
    case (Suc m)
    then show ?case using len [of "(?add ^^ m) d"] cap [of m] by (simp split: if_splits)
  qed simp
  show "\<exists>k. \<forall>m \<ge> k. length (dnl_queue ((?add ^^ m) d)) = dnl_capacity d"
  proof (intro exI allI impI)
    fix m assume "nat \<bar>?len 0 - ?c\<bar> \<le> m"
    with dist [of m] show "length (dnl_queue ((?add ^^ m) d)) = dnl_capacity d" by linarith
  qed
qed

theorem DeadNonceList_bounds_witness:
  "dnl_inv (dnl_step (\<lambda>_ _. 5) (Adjust 0) sample_dnl) \<and>
   length (dnl_queue (DeadNonceList_add (\<lambda>_ _. 5) [] [] sample_dnl)) = 6"
  using DeadNonceList_bounds [OF sample_dnl_inv, of "\<lambda>_ _. 5" "Adjust 0" "[]" "[]"]
  by (simp add: sample_dnl_def)

end
