(* ===== verification/ForwarderState.thy ===== *)
theory ForwarderState
  imports StrategyChoice Algorithm Cs DeadNonceList
begin

text \<open>
  The state of the forwarder (\<^verbatim>\<open>daemon/fw/forwarder.hpp\<close>) and its outgoing pipelines
  (\<^verbatim>\<open>forwarder.cpp\<close>). The tables that share the name tree are one record, extended step by step in
  their theories; the forwarder adds the face table, the Content Store, the Dead Nonce List, the
  network regions, its counters, and a log of the packets handed to faces, in order. What a
  pipeline takes from its surroundings is an environment: the steady clock, which stands still
  during one event, the nonce the random generator would return, SHA-256, CityHash, the result of
  \<^verbatim>\<open>std::shuffle\<close>, the order in which an \<^verbatim>\<open>unordered_set\<close> of faces is traversed, and whether names
  are printed in the alternate URI format.
\<close>

record env =
  e_now :: time_ns
  e_nonce :: nonce
  e_sha :: "bytes \<Rightarrow> bytes"
  e_city :: city_hash
  e_shuffle :: "nexthop list \<Rightarrow> nexthop list"
  e_order :: "face_ptr list \<Rightarrow> face_ptr list"
  e_altUri :: bool

datatype packet =
    InterestPacket interest
  | DataPacket data
  | NackPacket interest nack_reason

record forwarder_counters =
  nInInterests :: "64 word"
  nOutInterests :: "64 word"
  nInData :: "64 word"
  nOutData :: "64 word"
  nInNacks :: "64 word"
  nOutNacks :: "64 word"
  nSatisfiedInterests :: "64 word"
  nUnsatisfiedInterests :: "64 word"
  nUnsolicitedData :: "64 word"
  nCsHits :: "64 word"
  nCsMisses :: "64 word"

definition counters_new :: forwarder_counters where
  "counters_new = \<lparr>nInInterests = 0, nOutInterests = 0, nInData = 0, nOutData = 0, nInNacks = 0, nOutNacks = 0,
     nSatisfiedInterests = 0, nUnsatisfiedInterests = 0, nUnsolicitedData = 0, nCsHits = 0, nCsMisses = 0\<rparr>"

datatype unsolicited_policy = DropAll | AdmitLocal | AdmitNetwork | AdmitAll

record fw_state = sc_state +
  fw_faceTable :: face_table
  fw_cs :: cs
  fw_dnl :: dnl
  fw_regions :: "name list"
  fw_unsolicited :: unsolicited_policy
  fw_counters :: forwarder_counters
  fw_sent :: "(face_ptr \<times> packet) list"

abbreviation fw_face :: "fw_state \<Rightarrow> face_ptr \<Rightarrow> face" where
  "fw_face s p \<equiv> ft_store (fw_faceTable s) p"

definition face_modify :: "face_ptr \<Rightarrow> (face \<Rightarrow> face) \<Rightarrow> fw_state \<Rightarrow> fw_state" where
  "face_modify p f s =
     s\<lparr>fw_faceTable := (fw_faceTable s)\<lparr>ft_store := (ft_store (fw_faceTable s))(p := f (fw_face s p))\<rparr>\<rparr>"

definition bump :: "(forwarder_counters \<Rightarrow> forwarder_counters) \<Rightarrow> fw_state \<Rightarrow> fw_state" where
  "bump f s = s\<lparr>fw_counters := f (fw_counters s)\<rparr>"

text \<open>\<^verbatim>\<open>sendInterest\<close>, \<^verbatim>\<open>sendData\<close> and \<^verbatim>\<open>sendNack\<close> of a face.\<close>

definition face_send :: "face_ptr \<Rightarrow> packet \<Rightarrow> fw_state \<Rightarrow> fw_state" where
  "face_send p pkt s = s\<lparr>fw_sent := fw_sent s @ [(p, pkt)]\<rparr>"

section \<open>Outgoing pipelines\<close>

definition setExpiryTimer :: "env \<Rightarrow> pit_id \<Rightarrow> int \<Rightarrow> fw_state \<Rightarrow> fw_state" where
  "setExpiryTimer env p duration s =
     (let duration = max duration 0 in
      pit_modify p (\<lambda>e. e\<lparr>pe_expiryTimer := Some (e_now env + duration * 1000000)\<rparr>) s)"

text \<open>\<^verbatim>\<open>onOutgoingInterest\<close>; the flag says whether an out-record is returned.\<close>

definition onOutgoingInterest :: "env \<Rightarrow> pit_id \<Rightarrow> face_ptr \<Rightarrow> interest \<Rightarrow> fw_state \<Rightarrow> fw_state \<times> bool" where
  "onOutgoingInterest env p egress i s =
     (if i_hopLimit i = Some 0 \<and> f_scope (fw_face s egress) = FACE_SCOPE_NON_LOCAL then
        (face_modify egress (\<lambda>f. f\<lparr>f_nOutHopLimitZero := f_nOutHopLimitZero f + 1\<rparr>) s, False)
      else
        let s = pit_modify p (insertOrUpdateOutRecord (e_nonce env) (e_now env) egress i) s;
            s = face_send egress (InterestPacket (snd (getNonce (e_nonce env) i))) s;
            s = bump (\<lambda>c. c\<lparr>nOutInterests := nOutInterests c + 1\<rparr>) s
        in (s, True))"

definition onOutgoingData :: "data \<Rightarrow> face_ptr \<Rightarrow> fw_state \<Rightarrow> fw_state \<times> bool" where
  "onOutgoingData d egress s =
     (if f_id (fw_face s egress) = INVALID_FACEID then (s, False)
      else
        let isViolatingLocalhost =
              f_scope (fw_face s egress) = FACE_SCOPE_NON_LOCAL \<and> isPrefixOf LOCALHOST (d_name d)
        in if isViolatingLocalhost then (s, False)
           else
             let s = face_send egress (DataPacket d) s;
                 s = bump (\<lambda>c. c\<lparr>nOutData := nOutData c + 1\<rparr>) s
             in (s, True))"

definition onOutgoingNack :: "pit_id \<Rightarrow> face_ptr \<Rightarrow> nack_reason \<Rightarrow> fw_state \<Rightarrow> fw_state \<times> bool" where
  "onOutgoingNack p egress reason s =
     (if f_id (fw_face s egress) = INVALID_FACEID then (s, False)
      else case Option.bind (pit_heap s p) (getInRecord egress) of
        None \<Rightarrow> (s, False)
      | Some inRecord \<Rightarrow>
          if f_linkType (fw_face s egress) \<noteq> LINK_TYPE_POINT_TO_POINT then (s, False)
          else
            let s = pit_modify p (deleteInRecord egress) s;
                s = face_send egress (NackPacket (ir_interest inRecord) reason) s;
                s = bump (\<lambda>c. c\<lparr>nOutNacks := nOutNacks c + 1\<rparr>) s
            in (s, True))"

text \<open>
  \<^verbatim>\<open>insertDeadNonceList\<close>, for all out-records or for the one of a face. Its assertion is that the
  freshness period of the Data that satisfied the entry is not negative.
\<close>

definition insertDeadNonces :: "env \<Rightarrow> pit_entry \<Rightarrow> face_ptr option \<Rightarrow> fw_state \<Rightarrow> fw_state" where
  "insertDeadNonces env e upstream s =
     (let add = (\<lambda>r. DeadNonceList_add (e_city env) (i_name (pe_interest e)) (fr_lastNonce r))
      in case upstream of
           None \<Rightarrow> s\<lparr>fw_dnl := fold add (pe_outRecords e) (fw_dnl s)\<rparr>
         | Some face \<Rightarrow>
             (case getOutRecord face e of
                Some r \<Rightarrow> s\<lparr>fw_dnl := add r (fw_dnl s)\<rparr>
              | None \<Rightarrow> s))"

definition insertDeadNonceList ::
    "env \<Rightarrow> pit_entry \<Rightarrow> face_ptr option \<Rightarrow> fw_state \<Rightarrow> packet_error + fw_state" where
  "insertDeadNonceList env e upstream s =
     (if pe_isSatisfied e \<and> pe_dataFreshnessPeriod e < 0 then Inl AssertionFailed
      else
        let needDnl = (if pe_isSatisfied e
                       then i_mustBeFresh (pe_interest e) \<and>
                            pe_dataFreshnessPeriod e * 1000000 < dnl_lifetime (fw_dnl s)
                       else True)
        in Inr (if \<not> needDnl then s else insertDeadNonces env e upstream s))"

definition onInterestFinalize :: "env \<Rightarrow> pit_id \<Rightarrow> fw_state \<Rightarrow> packet_error + fw_state" where
  "onInterestFinalize env p s =
     (case pit_heap s p of
        None \<Rightarrow> Inr s
      | Some e \<Rightarrow>
          (case insertDeadNonceList env e None s of
             Inl err \<Rightarrow> Inl err
           | Inr s \<Rightarrow>
               let s = bump (\<lambda>c. if pe_isSatisfied e then c\<lparr>nSatisfiedInterests := nSatisfiedInterests c + 1\<rparr>
                                  else c\<lparr>nUnsatisfiedInterests := nUnsatisfiedInterests c + 1\<rparr>) s;
                   s = pit_modify p (\<lambda>e. e\<lparr>pe_expiryTimer := None\<rparr>) s
               in Inr (Pit_erase p True s)))"

definition unsolicited_decide :: "unsolicited_policy \<Rightarrow> face \<Rightarrow> bool" where
  "unsolicited_decide pol inFace =
     (case pol of
        DropAll \<Rightarrow> False
      | AdmitLocal \<Rightarrow> f_scope inFace = FACE_SCOPE_LOCAL
      | AdmitNetwork \<Rightarrow> f_scope inFace = FACE_SCOPE_NON_LOCAL
      | AdmitAll \<Rightarrow> True)"

definition isInProducerRegion :: "name list \<Rightarrow> (nat \<times> name) list \<Rightarrow> bool" where
  "isInProducerRegion regions forwardingHint =
     list_ex (\<lambda>regionName. list_ex (\<lambda>(_, n). isPrefixOf n regionName) forwardingHint) regions"

end
