(* ===== verification/Strategy.thy ===== *)
theory Strategy
  imports ForwarderState
begin

text \<open>
  The base class of the forwarding strategies (\<^verbatim>\<open>daemon/fw/strategy.cpp\<close>, \<^verbatim>\<open>strategy.hpp\<close>): the actions
  a strategy takes through the outgoing pipelines, the FIB lookup, the default triggers, and the
  treatment of Nacks that strategies share (\<^verbatim>\<open>process-nack-traits.cpp\<close>). The virtual functions of a
  strategy are a record of functions. Whatever a trigger does to the forwarder, it does in a
  sequence of actions; an inductive relation says what one action may be.
\<close>

section \<open>Actions\<close>

text \<open>The tag \<^verbatim>\<open>PitToken\<close> is removed from a copy of the Interest.\<close>

definition sendInterest :: "env \<Rightarrow> pit_id \<Rightarrow> face_ptr \<Rightarrow> interest \<Rightarrow> fw_state \<Rightarrow> fw_state \<times> bool" where
  "sendInterest env p egress i s =
     (if i_pitToken i \<noteq> None then onOutgoingInterest env p egress (i\<lparr>i_pitToken := None\<rparr>) s
      else onOutgoingInterest env p egress i s)"

definition sendData :: "pit_id \<Rightarrow> data \<Rightarrow> face_ptr \<Rightarrow> fw_state \<Rightarrow> fw_state \<times> bool" where
  "sendData p d egress s =
     (let pitToken = (case Option.bind (pit_heap s p) (getInRecord egress) of
                        Some inRecord \<Rightarrow> i_pitToken (ir_interest inRecord)
                      | None \<Rightarrow> None);
          s = pit_modify p (deleteInRecord egress) s
      in case pitToken of
           Some t \<Rightarrow> onOutgoingData (d\<lparr>d_pitToken := Some t\<rparr>) egress s
         | None \<Rightarrow> onOutgoingData d egress s)"

text \<open>
  The faces of \<^verbatim>\<open>sendDataToAll\<close>. A \<^verbatim>\<open>std::set\<close> of pointers is traversed in the order of the
  addresses.
\<close>

definition pending_downstreams :: "time_ns \<Rightarrow> face_ptr \<Rightarrow> (face_ptr \<Rightarrow> face) \<Rightarrow> pit_entry \<Rightarrow> face_ptr list" where
  "pending_downstreams now inFace store e =
     sort (remdups (map fr_face (filter (\<lambda>r. fr_expiry r > now \<and>
       \<not> (f_id (store (fr_face r)) = f_id (store inFace) \<and> f_linkType (store (fr_face r)) \<noteq> LINK_TYPE_AD_HOC))
       (pe_inRecords e))))"

definition sendDataToAll :: "env \<Rightarrow> pit_id \<Rightarrow> face_ptr \<Rightarrow> data \<Rightarrow> fw_state \<Rightarrow> fw_state" where
  "sendDataToAll env p inFace d s =
     (case pit_heap s p of
        None \<Rightarrow> s
      | Some e \<Rightarrow>
          fold (\<lambda>egress s. fst (sendData p d egress s))
            (pending_downstreams (e_now env) inFace (ft_store (fw_faceTable s)) e) s)"

definition sendNack :: "pit_id \<Rightarrow> face_ptr \<Rightarrow> nack_reason \<Rightarrow> fw_state \<Rightarrow> fw_state" where
  "sendNack p egress reason s = fst (onOutgoingNack p egress reason s)"

definition sendNacks :: "env \<Rightarrow> pit_id \<Rightarrow> nack_reason \<Rightarrow> face_ptr list \<Rightarrow> fw_state \<Rightarrow> fw_state" where
  "sendNacks env p reason exceptFaces s =
     (case pit_heap s p of
        None \<Rightarrow> s
      | Some e \<Rightarrow>
          let downstreams = filter (\<lambda>f. f \<notin> set exceptFaces) (remdups (map fr_face (pe_inRecords e)))
          in fold (\<lambda>f. sendNack p f reason) (e_order env downstreams) s)"

definition rejectPendingInterest :: "env \<Rightarrow> pit_id \<Rightarrow> fw_state \<Rightarrow> fw_state" where
  "rejectPendingInterest env p s = setExpiryTimer env p 0 s"

text \<open>
  \<^verbatim>\<open>lookupFib\<close>: with a forwarding hint, the first delegation with nexthops, else the result of the
  last lookup. An entry that is not in the name tree violates an assertion of the lookup and gets
  the empty entry.
\<close>

fun lookup_delegations :: "(nat \<times> name) list \<Rightarrow> fib_entry \<Rightarrow> fw_state \<Rightarrow> fib_entry" where
  "lookup_delegations [] fibEntry s = fibEntry"
| "lookup_delegations (del # fh) _ s =
     (let fibEntry = Fib_findLongestPrefixMatch (snd del) s
      in if hasNextHops fibEntry then fibEntry else lookup_delegations fh fibEntry s)"

definition lookupFib :: "pit_entry \<Rightarrow> fw_state \<Rightarrow> fib_entry" where
  "lookupFib e s =
     (let i = pe_interest e in
      if i_forwardingHint i = [] then
        (case pe_nte e of
           Some at \<Rightarrow> Fib_findLongestPrefixMatch_pit (i_name i) at s
         | None \<Rightarrow> Fib_emptyEntry)
      else lookup_delegations (i_forwardingHint i) Fib_emptyEntry s)"

section \<open>Nacks\<close>

text \<open>The loop over the out-records: how many are not nacked, the last of them, and the least severe reason.\<close>

definition nack_scan :: "out_record list \<Rightarrow> nat \<times> face_ptr option \<times> nack_reason" where
  "nack_scan rs =
     fold (\<lambda>r (n, lastNotNacked, least).
        case or_incomingNack r of
          None \<Rightarrow> (n + 1, Some (fr_face r), least)
        | Some reason \<Rightarrow> (n, lastNotNacked, if isLessSevere reason least then reason else least))
       rs (0, None, NONE)"

definition processNack :: "env \<Rightarrow> pit_id \<Rightarrow> fw_state \<Rightarrow> fw_state" where
  "processNack env p s =
     (case pit_heap s p of
        None \<Rightarrow> s
      | Some e \<Rightarrow>
          (case nack_scan (pe_outRecords e) of (nOutRecordsNotNacked, lastFaceNotNacked, leastSevereReason) \<Rightarrow>
             case (if nOutRecordsNotNacked = 1
                   then Option.bind lastFaceNotNacked (\<lambda>f. map_option (\<lambda>_. f) (getInRecord f e)) else None) of
               Some f \<Rightarrow> sendNack p f leastSevereReason s
             | None \<Rightarrow>
                 if nOutRecordsNotNacked > 0 then s
                 else sendNacks env p leastSevereReason [] s))"

section \<open>Triggers\<close>

text \<open>
  The virtual functions. \<^verbatim>\<open>afterReceiveInterest\<close> may raise an exception, which leaves the pipeline.
\<close>

record strategy_vtable =
  vt_afterReceiveInterest :: "env \<Rightarrow> face_ptr \<Rightarrow> interest \<Rightarrow> pit_id \<Rightarrow> fw_state \<Rightarrow> packet_error + fw_state"
  vt_beforeSatisfyInterest :: "env \<Rightarrow> pit_id \<Rightarrow> face_ptr \<Rightarrow> data \<Rightarrow> fw_state \<Rightarrow> fw_state"
  vt_afterContentStoreHit :: "env \<Rightarrow> pit_id \<Rightarrow> face_ptr \<Rightarrow> data \<Rightarrow> fw_state \<Rightarrow> fw_state"
  vt_afterReceiveData :: "env \<Rightarrow> pit_id \<Rightarrow> face_ptr \<Rightarrow> data \<Rightarrow> fw_state \<Rightarrow> fw_state"
  vt_afterReceiveNack :: "env \<Rightarrow> face_ptr \<Rightarrow> interest \<Rightarrow> nack_reason \<Rightarrow> pit_id \<Rightarrow> fw_state \<Rightarrow> fw_state"
  vt_onDroppedInterest :: "env \<Rightarrow> face_ptr \<Rightarrow> interest \<Rightarrow> fw_state \<Rightarrow> fw_state"
  vt_afterNewNextHop :: "env \<Rightarrow> nexthop \<Rightarrow> pit_id \<Rightarrow> fw_state \<Rightarrow> fw_state"

text \<open>The bodies in the base class.\<close>

definition base_beforeSatisfyInterest :: "env \<Rightarrow> pit_id \<Rightarrow> face_ptr \<Rightarrow> data \<Rightarrow> fw_state \<Rightarrow> fw_state" where
  "base_beforeSatisfyInterest env p ingress d s = s"

definition base_afterContentStoreHit :: "env \<Rightarrow> pit_id \<Rightarrow> face_ptr \<Rightarrow> data \<Rightarrow> fw_state \<Rightarrow> fw_state" where
  "base_afterContentStoreHit env p ingress d s = fst (sendData p d ingress s)"

definition base_afterReceiveData ::
    "(env \<Rightarrow> pit_id \<Rightarrow> face_ptr \<Rightarrow> data \<Rightarrow> fw_state \<Rightarrow> fw_state) \<Rightarrow>
     env \<Rightarrow> pit_id \<Rightarrow> face_ptr \<Rightarrow> data \<Rightarrow> fw_state \<Rightarrow> fw_state" where
  "base_afterReceiveData beforeSatisfy env p ingress d s =
     sendDataToAll env p ingress d (beforeSatisfy env p ingress d s)"

definition base_afterReceiveNack :: "env \<Rightarrow> face_ptr \<Rightarrow> interest \<Rightarrow> nack_reason \<Rightarrow> pit_id \<Rightarrow> fw_state \<Rightarrow> fw_state" where
  "base_afterReceiveNack env ingress i reason p s = s"

definition base_onDroppedInterest :: "env \<Rightarrow> face_ptr \<Rightarrow> interest \<Rightarrow> fw_state \<Rightarrow> fw_state" where
  "base_onDroppedInterest env egress i s = s"

definition base_afterNewNextHop :: "env \<Rightarrow> nexthop \<Rightarrow> pit_id \<Rightarrow> fw_state \<Rightarrow> fw_state" where
  "base_afterNewNextHop env nh p s = s"

section \<open>What a strategy may do\<close>

text \<open>The faces some FIB entry names as nexthops.\<close>

definition fib_nexthop :: "fw_state \<Rightarrow> face_ptr \<Rightarrow> bool" where
  "fib_nexthop s f \<longleftrightarrow> (\<exists>n fe. nt_fib (ntree s) n = Some fe \<and> f \<in> nh_face ` set (fe_nextHops fe))"

text \<open>
  One action on behalf of the PIT entry \<open>p\<close>: an Interest to a nexthop of the FIB that scope control
  allows, Data, a Nack, the expiry timer, and the strategy's information on the entry and its
  out-records.
\<close>

inductive action :: "env \<Rightarrow> pit_id \<Rightarrow> fw_state \<Rightarrow> fw_state \<Rightarrow> bool" for env p where
  act_interest: "\<not> wouldViolateScope (fw_face s ingress) i (fw_face s egress) \<Longrightarrow> fib_nexthop s egress \<Longrightarrow>
    action env p s (fst (onOutgoingInterest env p egress i s))"
| act_data: "action env p s (fst (sendData p d egress s))"
| act_nack: "action env p s (sendNack p egress reason s)"
| act_timer: "action env p s (setExpiryTimer env p duration s)"
| act_info: "(\<And>e. \<exists>x. g e = e\<lparr>pe_suppression := x\<rparr>) \<Longrightarrow> action env p s (pit_modify p g s)"
| act_record_info: "(\<And>e. \<exists>x. g e = or_modify f (\<lambda>r. r\<lparr>or_suppression := x\<rparr>) e) \<Longrightarrow> action env p s (pit_modify p g s)"

abbreviation actions :: "env \<Rightarrow> pit_id \<Rightarrow> fw_state \<Rightarrow> fw_state \<Rightarrow> bool" where
  "actions env p \<equiv> (action env p)\<^sup>*\<^sup>*"

text \<open>What the environment's library functions return: a permutation of their argument.\<close>

definition env_ok :: "env \<Rightarrow> bool" where
  "env_ok env \<longleftrightarrow> (\<forall>nhs. mset (e_shuffle env nhs) = mset nhs) \<and> (\<forall>fs. mset (e_order env fs) = mset fs)"

text \<open>The contract of a strategy: every trigger is a sequence of actions.\<close>

locale strategy_contract =
  fixes vt :: strategy_vtable
  assumes afterReceiveInterest: "env_ok env \<Longrightarrow>
      vt_afterReceiveInterest vt env ingress i p s = Inr s' \<Longrightarrow> actions env p s s'"
    and no_assertion: "vt_afterReceiveInterest vt env ingress i p s \<noteq> Inl AssertionFailed"
    and beforeSatisfyInterest: "env_ok env \<Longrightarrow> actions env p s (vt_beforeSatisfyInterest vt env p ingress d s)"
    and afterContentStoreHit: "env_ok env \<Longrightarrow> actions env p s (vt_afterContentStoreHit vt env p ingress d s)"
    and afterReceiveData: "env_ok env \<Longrightarrow> actions env p s (vt_afterReceiveData vt env p ingress d s)"
    and afterReceiveNack: "env_ok env \<Longrightarrow> actions env p s (vt_afterReceiveNack vt env ingress i reason p s)"
    and onDroppedInterest: "env_ok env \<Longrightarrow> \<exists>p. actions env p s (vt_onDroppedInterest vt env egress i s)"
    and afterNewNextHop: "env_ok env \<Longrightarrow> fib_nexthop s (nh_face nh) \<Longrightarrow>
      actions env p s (vt_afterNewNextHop vt env nh p s)"

section \<open>What actions leave alone\<close>

definition same_face :: "face \<Rightarrow> face \<Rightarrow> bool" where
  "same_face f g \<longleftrightarrow> f_id f = f_id g \<and> f_scope f = f_scope g \<and> f_linkType f = f_linkType g"

text \<open>Everything but the records of the PIT entry, the counters and the log.\<close>

definition fw_frame :: "pit_id \<Rightarrow> fw_state \<Rightarrow> fw_state \<Rightarrow> bool" where
  "fw_frame p s s' \<longleftrightarrow>
     ntree s' = ntree s \<and> fib_nItems s' = fib_nItems s \<and> pit_next s' = pit_next s \<and> pit_nItems s' = pit_nItems s \<and>
     meas_nItems s' = meas_nItems s \<and> sc_nItems s' = sc_nItems s \<and>
     fw_cs s' = fw_cs s \<and> fw_dnl s' = fw_dnl s \<and> fw_regions s' = fw_regions s \<and> fw_unsolicited s' = fw_unsolicited s \<and>
     ft_faces (fw_faceTable s') = ft_faces (fw_faceTable s) \<and>
     ft_lastFaceId (fw_faceTable s') = ft_lastFaceId (fw_faceTable s) \<and>
     (\<forall>f. same_face (fw_face s' f) (fw_face s f)) \<and>
     (\<forall>q. q \<noteq> p \<longrightarrow> pit_heap s' q = pit_heap s q) \<and>
     map_option (\<lambda>e. (pe_interest e, pe_nte e)) (pit_heap s' p) = map_option (\<lambda>e. (pe_interest e, pe_nte e)) (pit_heap s p)"

lemma fw_frame_refl [simp]: "fw_frame p s s"
  by (simp add: fw_frame_def same_face_def)

lemma fw_frame_trans: "fw_frame p s s' \<Longrightarrow> fw_frame p s' s'' \<Longrightarrow> fw_frame p s s''"
  by (simp add: fw_frame_def same_face_def)

lemma fw_frame_modify: "fw_frame p s s' \<Longrightarrow> keeps_identity f \<Longrightarrow> fw_frame p s (pit_modify p f s')"
  by (auto simp: fw_frame_def same_face_def pit_modify_def keeps_identity_def option.map_comp comp_def)

lemma fw_frame_send [simp]: "fw_frame p s (face_send f pkt s') = fw_frame p s s'"
  by (simp add: fw_frame_def same_face_def face_send_def)

lemma fw_frame_bump [simp]: "fw_frame p s (bump f s') = fw_frame p s s'"
  by (simp add: fw_frame_def same_face_def bump_def)

lemma or_modify_keeps [simp]:
  "pe_interest (or_modify f g e) = pe_interest e" "pe_nte (or_modify f g e) = pe_nte e"
  "pe_inRecords (or_modify f g e) = pe_inRecords e"
  by (simp_all add: or_modify_def)

lemma keeps_identity_info:
  assumes "\<And>e. \<exists>x. g e = e\<lparr>pe_suppression := x\<rparr>"
  shows "keeps_identity g"
  unfolding keeps_identity_def
proof (intro allI)
  fix e
  from assms obtain x where "g e = e\<lparr>pe_suppression := x\<rparr>" by blast
  then show "pe_interest (g e) = pe_interest e \<and> pe_nte (g e) = pe_nte e \<and> (pit_entry_ok e \<longrightarrow> pit_entry_ok (g e))"
    by (simp add: pit_entry_ok_def)
qed

lemma keeps_identity_record_info:
  assumes "\<And>e. \<exists>x. g e = or_modify f (\<lambda>r. r\<lparr>or_suppression := x\<rparr>) e"
  shows "keeps_identity g"
  unfolding keeps_identity_def
proof (intro allI)
  fix e
  from assms obtain x where "g e = or_modify f (\<lambda>r. r\<lparr>or_suppression := x\<rparr>) e" by blast
  then show "pe_interest (g e) = pe_interest e \<and> pe_nte (g e) = pe_nte e \<and> (pit_entry_ok e \<longrightarrow> pit_entry_ok (g e))"
    by (simp add: pit_entry_ok_def or_modify_def map_key_update_first)
qed

lemmas frame_rules = fw_frame_refl fw_frame_modify keeps_identity_ops

lemma onOutgoingInterest_frame: "fw_frame p s (fst (onOutgoingInterest env p egress i s))"
  by (simp add: onOutgoingInterest_def Let_def frame_rules)
    (simp add: fw_frame_def same_face_def face_modify_def)

lemma onOutgoingData_frame: "fw_frame p s s' \<Longrightarrow> fw_frame p s (fst (onOutgoingData d egress s'))"
  by (simp add: onOutgoingData_def Let_def)

lemma onOutgoingNack_frame: "fw_frame p s (fst (onOutgoingNack p egress reason s))"
  by (simp add: onOutgoingNack_def Let_def frame_rules split: option.split)

lemma sendData_frame: "fw_frame p s (fst (sendData p d egress s))"
  by (simp add: sendData_def Let_def onOutgoingData_frame frame_rules split: option.split)

lemma action_frame: "action env p s s' \<Longrightarrow> fw_frame p s s'"
proof (induction rule: action.induct)
  case (act_info g s)
  then show ?case by (rule fw_frame_modify [OF fw_frame_refl keeps_identity_info])
next
  case (act_record_info g f s)
  then show ?case by (rule fw_frame_modify [OF fw_frame_refl keeps_identity_record_info])
qed (simp_all add: sendNack_def setExpiryTimer_def frame_rules onOutgoingInterest_frame sendData_frame
    onOutgoingNack_frame)

lemma actions_frame: "actions env p s s' \<Longrightarrow> fw_frame p s s'"
  by (induction rule: rtranclp_induct) (auto intro: fw_frame_trans action_frame)

lemma fib_nexthop_frame: "fw_frame p s s' \<Longrightarrow> fib_nexthop s' f = fib_nexthop s f"
  by (simp add: fib_nexthop_def fw_frame_def)

lemma wouldViolateScope_frame:
  "fw_frame p s s' \<Longrightarrow> wouldViolateScope (fw_face s' f) i (fw_face s' g) = wouldViolateScope (fw_face s f) i (fw_face s g)"
  by (simp add: wouldViolateScope_def fw_frame_def same_face_def)

section \<open>The actions of the base class\<close>

lemma wouldViolateScope_pitToken [simp]:
  "wouldViolateScope f (i\<lparr>i_pitToken := t\<rparr>) g = wouldViolateScope f i g"
  by (simp add: wouldViolateScope_def)

lemma sendInterest_action:
  "\<not> wouldViolateScope (fw_face s ingress) i (fw_face s egress) \<Longrightarrow> fib_nexthop s egress \<Longrightarrow>
    action env p s (fst (sendInterest env p egress i s))"
  by (simp add: sendInterest_def act_interest)

lemma one_action: "action env p s s' \<Longrightarrow> actions env p s s'"
  by (rule r_into_rtranclp)

lemma fold_actions:
  assumes "\<And>x s. x \<in> set xs \<Longrightarrow> actions env p s (f x s)"
  shows "actions env p s (fold f xs s)"
  using assms
proof (induction xs arbitrary: s)
  case (Cons x xs)
  have "actions env p s (f x s)" using Cons.prems by simp
  also have "actions env p (f x s) (fold f xs (f x s))" using Cons by simp
  finally show ?case by simp
qed simp

lemma sendDataToAll_actions: "actions env p s (sendDataToAll env p inFace d s)"
  unfolding sendDataToAll_def
  by (auto split: option.split intro!: fold_actions [OF one_action] action.intros)

lemma sendNacks_actions: "actions env p s (sendNacks env p reason ex s)"
  unfolding sendNacks_def Let_def
  by (auto split: option.split intro!: fold_actions [OF one_action] action.intros)

lemma rejectPendingInterest_action: "action env p s (rejectPendingInterest env p s)"
  by (simp add: rejectPendingInterest_def act_timer)

lemma processNack_actions: "actions env p s (processNack env p s)"
  unfolding processNack_def
  by (auto split: option.split prod.split intro: sendNacks_actions one_action action.intros)

lemma nt_find_self: "nt_find t n = Some e \<Longrightarrow> nt_find t (nte_name e) = Some e"
  using nt_find_name [of t n e] by simp

lemma lpm_entry_find: "lpm_entry t sel n = Some e \<Longrightarrow> nt_find t (nte_name e) = Some e"
  by (induction n rule: rev_induct; subst (asm) lpm_entry.simps)
    (auto intro: nt_find_self split: option.splits if_splits)

lemma lpm_find: "findLongestPrefixMatch n sel t = Some e \<Longrightarrow> nt_find t (nte_name e) = Some e"
  using lpm_loop_longest [of t sel n "min (length n) getMaxDepth"]
  by (auto simp: findLongestPrefixMatch_def is_longest_def intro: nt_find_self)

lemma Fib_result_nexthop:
  assumes "nh \<in> set (fe_nextHops (Fib_result r))" and "\<And>e. r = Some e \<Longrightarrow> nt_find (ntree s) (nte_name e) = Some e"
  shows "fib_nexthop s (nh_face nh)"
proof -
  obtain e fe where e: "r = Some e" "nte_fib e = Some fe" "nh \<in> set (fe_nextHops fe)"
    using assms(1) by (auto simp: Fib_result_def Fib_emptyEntry_def split: option.splits)
  with assms(2) [OF e(1)] have "nt_fib (ntree s) (nte_name e) = Some fe" by (simp add: nt_fib_def nt_get_def)
  with e(3) show ?thesis by (auto simp: fib_nexthop_def)
qed

lemma Fib_lpm_nexthop: "nh \<in> set (fe_nextHops (Fib_findLongestPrefixMatch n s)) \<Longrightarrow> fib_nexthop s (nh_face nh)"
  by (auto simp: Fib_findLongestPrefixMatch_def elim!: Fib_result_nexthop dest: lpm_find)

lemma lookup_delegations_nexthop:
  "nh \<in> set (fe_nextHops (lookup_delegations fh fe s)) \<Longrightarrow> nh \<notin> set (fe_nextHops fe) \<Longrightarrow> fib_nexthop s (nh_face nh)"
  by (induction fh fe s rule: lookup_delegations.induct)
    (auto simp: Let_def dest: Fib_lpm_nexthop split: if_splits)

lemma lookupFib_nexthop: "nh \<in> set (fe_nextHops (lookupFib e s)) \<Longrightarrow> fib_nexthop s (nh_face nh)"
  by (auto simp: lookupFib_def Let_def Fib_findLongestPrefixMatch_pit_def lpm_pit_def Fib_emptyEntry_def
      split: if_splits option.splits elim!: Fib_result_nexthop lookup_delegations_nexthop dest: lpm_entry_find)

end
