(* ===== verification/Strategies.thy ===== *)
theory Strategies
  imports Strategy
begin

text \<open>
  Strategies: best-route (\<^verbatim>\<open>best-route-strategy.cpp\<close>), function-chain (\<^verbatim>\<open>functionchain-strategy.cpp\<close>),
  multicast (\<^verbatim>\<open>multicast-strategy.cpp\<close>) and random (\<^verbatim>\<open>random-strategy.cpp\<close>), all under
  \<^verbatim>\<open>daemon/fw/\<close>. Each is shown to satisfy the contract of a strategy.
\<close>

section \<open>Best route\<close>

text \<open>
  The part of \<^verbatim>\<open>afterReceiveInterest\<close> after the FIB lookup, which best-route and function-chain have
  in common.
\<close>

definition forward_nexthops ::
    "env \<Rightarrow> suppression_result \<Rightarrow> face_ptr \<Rightarrow> interest \<Rightarrow> pit_id \<Rightarrow> pit_entry \<Rightarrow> nexthop list \<Rightarrow> fw_state \<Rightarrow> fw_state" where
  "forward_nexthops env suppression ingress i p e nexthops s =
     (let store = ft_store (fw_faceTable s) in
      if suppression = NEW then
        (case List.find (\<lambda>nh. isNextHopEligible store ingress i nh e False TimePoint_min) nexthops of
           None \<Rightarrow> rejectPendingInterest env p (sendNack p ingress NO_ROUTE s)
         | Some nh \<Rightarrow> fst (sendInterest env p (nh_face nh) i s))
      else
        (case List.find (\<lambda>nh. isNextHopEligible store ingress i nh e True (e_now env)) nexthops of
           Some nh \<Rightarrow> fst (sendInterest env p (nh_face nh) i s)
         | None \<Rightarrow>
             (case findEligibleNextHopWithEarliestOutRecord store ingress i nexthops e of
                None \<Rightarrow> s
              | Some nh \<Rightarrow> fst (sendInterest env p (nh_face nh) i s))))"

definition BestRoute_afterReceiveInterest ::
    "env \<Rightarrow> face_ptr \<Rightarrow> interest \<Rightarrow> pit_id \<Rightarrow> fw_state \<Rightarrow> packet_error + fw_state" where
  "BestRoute_afterReceiveInterest env ingress i p s =
     (case pit_heap s p of
        None \<Rightarrow> Inr s
      | Some e \<Rightarrow>
          (case decidePerPitEntry retx_10_250 (e_now env) e of (suppression, e') \<Rightarrow>
             let s = pit_modify p (\<lambda>e. snd (decidePerPitEntry retx_10_250 (e_now env) e)) s in
             if suppression = SUPPRESS then Inr s
             else Inr (forward_nexthops env suppression ingress i p e' (fe_nextHops (lookupFib e' s)) s)))"

definition processNack_trigger :: "env \<Rightarrow> face_ptr \<Rightarrow> interest \<Rightarrow> nack_reason \<Rightarrow> pit_id \<Rightarrow> fw_state \<Rightarrow> fw_state" where
  "processNack_trigger env ingress i reason p s = processNack env p s"

definition BestRoute :: strategy_vtable where
  "BestRoute =
     \<lparr>vt_afterReceiveInterest = BestRoute_afterReceiveInterest,
      vt_beforeSatisfyInterest = base_beforeSatisfyInterest,
      vt_afterContentStoreHit = base_afterContentStoreHit,
      vt_afterReceiveData = base_afterReceiveData base_beforeSatisfyInterest,
      vt_afterReceiveNack = processNack_trigger,
      vt_onDroppedInterest = base_onDroppedInterest,
      vt_afterNewNextHop = base_afterNewNextHop\<rparr>"

section \<open>Function chain\<close>

text \<open>
  \<^verbatim>\<open>lookupFibwithFunction\<close>: with a function, the longest prefix match of the name read back from the
  printed function; reading it may raise an exception.
\<close>

definition lookupFibwithFunction :: "env \<Rightarrow> pit_entry \<Rightarrow> interest \<Rightarrow> fw_state \<Rightarrow> packet_error + fib_entry" where
  "lookupFibwithFunction env e i s =
     (if hasFunction (i_function i) then
        (case Name_fromUri (Name_toUri (e_altUri env) (i_function i)) of
           Inl err \<Rightarrow> Inl (BadFunctionUri err)
         | Inr n \<Rightarrow> Inr (Fib_findLongestPrefixMatch n s))
      else Inr (lookupFib e s))"

definition FunctionChain_afterReceiveInterest ::
    "env \<Rightarrow> face_ptr \<Rightarrow> interest \<Rightarrow> pit_id \<Rightarrow> fw_state \<Rightarrow> packet_error + fw_state" where
  "FunctionChain_afterReceiveInterest env ingress i p s =
     (case pit_heap s p of
        None \<Rightarrow> Inr s
      | Some e \<Rightarrow>
          (case decidePerPitEntry retx_10_250 (e_now env) e of (suppression, e') \<Rightarrow>
             let s = pit_modify p (\<lambda>e. snd (decidePerPitEntry retx_10_250 (e_now env) e)) s in
             if suppression = SUPPRESS then Inr s
             else case lookupFibwithFunction env e' i s of
               Inl err \<Rightarrow> Inl err
             | Inr fibEntry \<Rightarrow> Inr (forward_nexthops env suppression ingress i p e' (fe_nextHops fibEntry) s)))"

definition FunctionChain :: strategy_vtable where
  "FunctionChain = BestRoute\<lparr>vt_afterReceiveInterest := FunctionChain_afterReceiveInterest\<rparr>"

section \<open>Multicast\<close>

text \<open>The body of the loop over the nexthops.\<close>

definition multicast_one :: "env \<Rightarrow> face_ptr \<Rightarrow> interest \<Rightarrow> pit_id \<Rightarrow> nexthop \<Rightarrow> fw_state \<Rightarrow> fw_state" where
  "multicast_one env ingress i p nh s =
     (case pit_heap s p of
        None \<Rightarrow> s
      | Some e \<Rightarrow>
          (case decidePerUpstream retx_10_250 (e_now env) (nh_face nh) e of (suppressResult, e') \<Rightarrow>
             let s = pit_modify p (\<lambda>e. snd (decidePerUpstream retx_10_250 (e_now env) (nh_face nh) e)) s in
             if suppressResult = SUPPRESS then s
             else if \<not> isNextHopEligible (ft_store (fw_faceTable s)) ingress i nh e' False TimePoint_min then s
             else
               case sendInterest env p (nh_face nh) i s of (s, sentOutRecord) \<Rightarrow>
                 if sentOutRecord \<and> suppressResult = FORWARD
                 then pit_modify p (or_modify (nh_face nh) (incrementIntervalForOutRecord retx_10_250)) s
                 else s))"

definition Multicast_afterReceiveInterest ::
    "env \<Rightarrow> face_ptr \<Rightarrow> interest \<Rightarrow> pit_id \<Rightarrow> fw_state \<Rightarrow> packet_error + fw_state" where
  "Multicast_afterReceiveInterest env ingress i p s =
     (case pit_heap s p of
        None \<Rightarrow> Inr s
      | Some e \<Rightarrow> Inr (fold (multicast_one env ingress i p) (fe_nextHops (lookupFib e s)) s))"

definition Multicast_afterNewNextHop :: "env \<Rightarrow> nexthop \<Rightarrow> pit_id \<Rightarrow> fw_state \<Rightarrow> fw_state" where
  "Multicast_afterNewNextHop env nh p s =
     (case pit_heap s p of
        None \<Rightarrow> s
      | Some e \<Rightarrow>
          (case List.find (\<lambda>r. isNextHopEligible (ft_store (fw_faceTable s)) (fr_face r) (pe_interest e) nh e False TimePoint_min)
                  (pe_inRecords e) of
             Some r \<Rightarrow> fst (sendInterest env p (nh_face nh) (pe_interest e) s)
           | None \<Rightarrow> s))"

definition Multicast :: strategy_vtable where
  "Multicast = BestRoute\<lparr>vt_afterReceiveInterest := Multicast_afterReceiveInterest,
     vt_afterReceiveNack := base_afterReceiveNack, vt_afterNewNextHop := Multicast_afterNewNextHop\<rparr>"

section \<open>Random\<close>

definition Random_afterReceiveInterest ::
    "env \<Rightarrow> face_ptr \<Rightarrow> interest \<Rightarrow> pit_id \<Rightarrow> fw_state \<Rightarrow> packet_error + fw_state" where
  "Random_afterReceiveInterest env ingress i p s =
     (case pit_heap s p of
        None \<Rightarrow> Inr s
      | Some e \<Rightarrow>
          let nhs = filter (\<lambda>nh. isNextHopEligible (ft_store (fw_faceTable s)) ingress i nh e False TimePoint_min)
                      (fe_nextHops (lookupFib e s))
          in if nhs = [] then Inr (rejectPendingInterest env p (sendNack p ingress NO_ROUTE s))
             else Inr (fst (sendInterest env p (nh_face (hd (e_shuffle env nhs))) i s)))"

definition Random :: strategy_vtable where
  "Random = BestRoute\<lparr>vt_afterReceiveInterest := Random_afterReceiveInterest\<rparr>"

section \<open>The strategies keep the contract\<close>

lemma eligible_scope:
  "isNextHopEligible store f i nh e w now \<Longrightarrow> \<not> wouldViolateScope (store f) i (store (nh_face nh))"
  by (auto simp: isNextHopEligible_def Let_def split: if_splits)

lemma pit_modify_simps [simp]:
  "fw_faceTable (pit_modify p f s) = fw_faceTable s" "ntree (pit_modify p f s) = ntree s"
  "fib_nexthop (pit_modify p f s) = fib_nexthop s"
  by (simp_all add: pit_modify_def fib_nexthop_def fun_eq_iff)

lemma decidePerPitEntry_info: "\<exists>x. snd (decidePerPitEntry rx now e) = e\<lparr>pe_suppression := x\<rparr>"
  by (auto simp: decidePerPitEntry_def Let_def split: option.split intro: exI [of _ "pe_suppression e"])

lemma or_modify_absent: "getOutRecord f e = None \<Longrightarrow> or_modify f g e = e"
  by (simp add: or_modify_def getOutRecord_def update_first_id find_None_iff')

lemma decidePerUpstream_info:
  "\<exists>x. snd (decidePerUpstream rx now f e) = or_modify f (\<lambda>r. r\<lparr>or_suppression := x\<rparr>) e"
  by (auto simp: decidePerUpstream_def Let_def or_modify_absent split: option.split)

lemma incrementInterval_info:
  "\<exists>x. or_modify f (incrementIntervalForOutRecord rx) e = or_modify f (\<lambda>r. r\<lparr>or_suppression := x\<rparr>) e"
proof -
  have "\<exists>x. update_first (\<lambda>r. fr_face r = f) (incrementIntervalForOutRecord rx) rs =
      update_first (\<lambda>r. fr_face r = f) (\<lambda>r. r\<lparr>or_suppression := x\<rparr>) rs" for rs
    by (induction rs) (auto simp: incrementIntervalForOutRecord_def Let_def)
  then show ?thesis by (metis or_modify_def)
qed

lemma no_route_actions: "actions env p s (rejectPendingInterest env p (sendNack p ingress NO_ROUTE s))"
  using act_nack rejectPendingInterest_action by (meson converse_rtranclp_into_rtranclp one_action)

lemma forward_nexthops_actions:
  assumes "\<And>nh. nh \<in> set nexthops \<Longrightarrow> fib_nexthop s (nh_face nh)"
  shows "actions env p s (forward_nexthops env suppression ingress i p e nexthops s)"
proof -
  let ?store = "ft_store (fw_faceTable s)"
  have send: "actions env p s (fst (sendInterest env p (nh_face nh) i s))"
    if "nh \<in> set nexthops" "isNextHopEligible ?store ingress i nh e w now" for nh w now
    using sendInterest_action [OF eligible_scope [OF that(2)] assms [OF that(1)]] by (rule one_action)
  show ?thesis
    unfolding forward_nexthops_def Let_def
    by (auto split: option.split intro: no_route_actions
        dest!: find_SomeD earliest_loop_Some simp: findEligibleNextHopWithEarliestOutRecord_def intro: send)
qed

lemma suppress_action: "action env p s (pit_modify p (\<lambda>e. snd (decidePerPitEntry rx now e)) s)"
  by (rule act_info) (rule decidePerPitEntry_info)

lemma BestRoute_interest_actions:
  assumes "BestRoute_afterReceiveInterest env ingress i p s = Inr s'"
  shows "actions env p s s'"
proof (cases "pit_heap s p")
  case (Some e)
  let ?s1 = "pit_modify p (\<lambda>e. snd (decidePerPitEntry retx_10_250 (e_now env) e)) s"
  obtain res e' where dec: "decidePerPitEntry retx_10_250 (e_now env) e = (res, e')" by fastforce
  have "actions env p ?s1 (forward_nexthops env res ingress i p e' (fe_nextHops (lookupFib e' ?s1)) ?s1)"
    by (rule forward_nexthops_actions) (rule lookupFib_nexthop)
  then have "actions env p ?s1 s'"
    using assms Some dec by (auto simp: BestRoute_afterReceiveInterest_def Let_def split: if_splits)
  with suppress_action show ?thesis by (rule converse_rtranclp_into_rtranclp)
qed (use assms in \<open>simp add: BestRoute_afterReceiveInterest_def\<close>)

lemma lookupFibwithFunction_nexthop:
  "lookupFibwithFunction env e i s = Inr fe \<Longrightarrow> nh \<in> set (fe_nextHops fe) \<Longrightarrow> fib_nexthop s (nh_face nh)"
  by (auto simp: lookupFibwithFunction_def split: if_splits sum.splits dest: lookupFib_nexthop Fib_lpm_nexthop)

lemma FunctionChain_interest_actions:
  assumes "FunctionChain_afterReceiveInterest env ingress i p s = Inr s'"
  shows "actions env p s s'"
proof (cases "pit_heap s p")
  case (Some e)
  let ?s1 = "pit_modify p (\<lambda>e. snd (decidePerPitEntry retx_10_250 (e_now env) e)) s"
  obtain res e' where dec: "decidePerPitEntry retx_10_250 (e_now env) e = (res, e')" by fastforce
  have "actions env p ?s1 (forward_nexthops env res ingress i p e' (fe_nextHops fe) ?s1)"
    if "lookupFibwithFunction env e' i ?s1 = Inr fe" for fe
    by (rule forward_nexthops_actions) (rule lookupFibwithFunction_nexthop [OF that])
  then have "actions env p ?s1 s'"
    using assms Some dec by (auto simp: FunctionChain_afterReceiveInterest_def Let_def split: if_splits sum.splits)
  with suppress_action show ?thesis by (rule converse_rtranclp_into_rtranclp)
qed (use assms in \<open>simp add: FunctionChain_afterReceiveInterest_def\<close>)

lemma multicast_one_actions:
  assumes nh: "fib_nexthop s (nh_face nh)"
  shows "actions env p s (multicast_one env ingress i p nh s)"
proof (cases "pit_heap s p")
  case (Some e)
  obtain res e' where dec: "decidePerUpstream retx_10_250 (e_now env) (nh_face nh) e = (res, e')" by fastforce
  let ?s1 = "pit_modify p (\<lambda>e. snd (decidePerUpstream retx_10_250 (e_now env) (nh_face nh) e)) s"
  obtain s2 b where send: "sendInterest env p (nh_face nh) i ?s1 = (s2, b)" by fastforce
  have a1: "action env p s ?s1" by (rule act_record_info) (rule decidePerUpstream_info)
  have a3: "action env p s2 (pit_modify p (or_modify (nh_face nh) (incrementIntervalForOutRecord retx_10_250)) s2)"
    by (rule act_record_info) (rule incrementInterval_info)
  have a2: "action env p ?s1 s2"
    if "isNextHopEligible (ft_store (fw_faceTable s)) ingress i nh e' False TimePoint_min"
    using sendInterest_action [of ?s1 ingress i "nh_face nh" env p] eligible_scope [OF that] nh send by simp
  have "actions env p ?s1 (multicast_one env ingress i p nh s)"
    using Some dec send a2 a3 by (auto simp: multicast_one_def Let_def intro: rtranclp.intros)
  with a1 show ?thesis by (rule converse_rtranclp_into_rtranclp)
qed (simp add: multicast_one_def)

lemma Multicast_interest_actions:
  assumes "Multicast_afterReceiveInterest env ingress i p s = Inr s'"
  shows "actions env p s s'"
proof (cases "pit_heap s p")
  case (Some e)
  have "actions env p s (fold (multicast_one env ingress i p) nhs s)"
    if "\<And>nh. nh \<in> set nhs \<Longrightarrow> fib_nexthop s (nh_face nh)" for nhs
    using that
  proof (induction nhs arbitrary: s)
    case (Cons nh nhs)
    have a: "actions env p s (multicast_one env ingress i p nh s)"
      using Cons.prems by (intro multicast_one_actions) simp
    with fib_nexthop_frame [OF actions_frame [OF a]] Cons.IH [of "multicast_one env ingress i p nh s"] Cons.prems
    show ?case by (auto intro: rtranclp_trans)
  qed simp
  with assms Some show ?thesis
    by (auto simp: Multicast_afterReceiveInterest_def dest: lookupFib_nexthop)
qed (use assms in \<open>simp add: Multicast_afterReceiveInterest_def\<close>)

lemma Multicast_nexthop_actions:
  "fib_nexthop s (nh_face nh) \<Longrightarrow> actions env p s (Multicast_afterNewNextHop env nh p s)"
  by (auto simp: Multicast_afterNewNextHop_def split: option.split
      intro!: one_action sendInterest_action dest!: find_SomeD eligible_scope)

lemma Random_interest_actions:
  assumes "env_ok env" and "Random_afterReceiveInterest env ingress i p s = Inr s'"
  shows "actions env p s s'"
proof (cases "pit_heap s p")
  case (Some e)
  let ?ok = "\<lambda>nh. isNextHopEligible (ft_store (fw_faceTable s)) ingress i nh e False TimePoint_min"
  let ?nhs = "filter ?ok (fe_nextHops (lookupFib e s))"
  have "actions env p s (fst (sendInterest env p (nh_face (hd (e_shuffle env ?nhs))) i s))" if "?nhs \<noteq> []"
  proof -
    have m: "mset (e_shuffle env ?nhs) = mset ?nhs" using assms(1) by (simp add: env_ok_def)
    then have "e_shuffle env ?nhs \<noteq> []" using that by (metis mset_zero_iff)
    then have "hd (e_shuffle env ?nhs) \<in> set ?nhs" using m by (metis hd_in_set set_mset_mset)
    then show ?thesis
      by (auto intro!: one_action sendInterest_action dest: eligible_scope lookupFib_nexthop)
  qed
  with assms(2) Some show ?thesis
    by (auto simp: Random_afterReceiveInterest_def Let_def intro: no_route_actions split: if_splits)
qed (use assms(2) in \<open>simp add: Random_afterReceiveInterest_def\<close>)

lemma interest_no_assertion [simp]:
  "BestRoute_afterReceiveInterest env ingress i p s \<noteq> Inl AssertionFailed"
  "FunctionChain_afterReceiveInterest env ingress i p s \<noteq> Inl AssertionFailed"
  "Multicast_afterReceiveInterest env ingress i p s \<noteq> Inl AssertionFailed"
  "Random_afterReceiveInterest env ingress i p s \<noteq> Inl AssertionFailed"
  by (auto simp: BestRoute_afterReceiveInterest_def FunctionChain_afterReceiveInterest_def lookupFibwithFunction_def
      Multicast_afterReceiveInterest_def Random_afterReceiveInterest_def Let_def
      split: option.splits prod.splits sum.splits if_splits)

lemmas base_triggers = base_beforeSatisfyInterest_def base_afterContentStoreHit_def base_afterReceiveData_def
  base_afterReceiveNack_def base_onDroppedInterest_def base_afterNewNextHop_def processNack_trigger_def

lemmas base_actions = sendDataToAll_actions processNack_actions act_data [THEN one_action]

interpretation best_route_strategy: strategy_contract BestRoute
  by unfold_locales (auto simp: BestRoute_def base_triggers base_actions BestRoute_interest_actions)

interpretation function_chain_strategy: strategy_contract FunctionChain
  by unfold_locales (auto simp: FunctionChain_def BestRoute_def base_triggers base_actions FunctionChain_interest_actions)

interpretation multicast_strategy: strategy_contract Multicast
  by unfold_locales
    (auto simp: Multicast_def BestRoute_def base_triggers base_actions Multicast_interest_actions Multicast_nexthop_actions)

interpretation random_strategy: strategy_contract Random
  by unfold_locales (auto simp: Random_def BestRoute_def base_triggers base_actions Random_interest_actions)

end
