(* ===== verification/Management.thy ===== *)
theory Management
  imports ForwarderState
begin

text \<open>
  Configuration of the tables: the \<^verbatim>\<open>tables\<close> section of the configuration file
  (\<^verbatim>\<open>daemon/mgmt/tables-config-section.cpp\<close>) and the commands of the Content Store manager
  (\<^verbatim>\<open>daemon/mgmt/cs-manager.cpp\<close>).
\<close>

section \<open>Policies by name\<close>

definition CsPolicy_create :: "string \<Rightarrow> policy option" where
  "CsPolicy_create policyName =
     (if policyName = ''lru'' then Some (Lru [])
      else if policyName = ''priority_fifo''
      then Some (PriorityFifo \<lparr>pf_unsolicited = [], pf_stale = [], pf_fifo = []\<rparr>)
      else None)"

definition UnsolicitedDataPolicy_create :: "string \<Rightarrow> unsolicited_policy option" where
  "UnsolicitedDataPolicy_create policyName =
     (if policyName = ''drop-all'' then Some DropAll
      else if policyName = ''admit-local'' then Some AdmitLocal
      else if policyName = ''admit-network'' then Some AdmitNetwork
      else if policyName = ''admit-all'' then Some AdmitAll
      else None)"

section \<open>The tables section\<close>

text \<open>The values of the section; a missing node is \<^term>\<open>None\<close>.\<close>

record tables_config =
  tc_csMaxPackets :: "nat option"
  tc_csPolicy :: "string option"
  tc_csUnsolicitedPolicy :: "string option"
  tc_strategyChoice :: "(bytes \<times> bytes) list option"
  tc_networkRegion :: "bytes list option"

text \<open>The exceptions of the section handlers.\<close>

datatype config_error =
    UnknownCsPolicy string
  | UnknownUnsolicitedPolicy string
  | BadName comp_error
  | UnknownStrategy name
  | DuplicateChoice name
  | ChoiceFailed name insert_result
  | ConfigAssertion

definition DEFAULT_CS_MAX_PACKETS :: nat where
  "DEFAULT_CS_MAX_PACKETS = 65536"

text \<open>\<^verbatim>\<open>std::map::emplace\<close>, with the entries in the order of their keys.\<close>

fun choices_emplace :: "name \<Rightarrow> name \<Rightarrow> (name \<times> name) list \<Rightarrow> (name \<times> name) list option" where
  "choices_emplace n st [] = Some [(n, st)]"
| "choices_emplace n st ((m, st') # cs) =
     (if n = m then None
      else if n < m then Some ((n, st) # (m, st') # cs)
      else map_option ((#) (m, st')) (choices_emplace n st cs))"

fun read_choices :: "(bytes \<times> bytes) list \<Rightarrow> (name \<times> name) list \<Rightarrow> config_error + (name \<times> name) list" where
  "read_choices [] choices = Inr choices"
| "read_choices ((prefixUri, strategyUri) # rest) choices =
     (case Name_fromUri prefixUri of
        Inl err \<Rightarrow> Inl (BadName err)
      | Inr pfx \<Rightarrow>
          (case Name_fromUri strategyUri of
             Inl err \<Rightarrow> Inl (BadName err)
           | Inr strategy \<Rightarrow>
               if \<not> canCreate strategy then Inl (UnknownStrategy strategy)
               else case choices_emplace pfx strategy choices of
                 None \<Rightarrow> Inl (DuplicateChoice pfx)
               | Some choices \<Rightarrow> read_choices rest choices))"

text \<open>An exception leaves the choices that were set before it.\<close>

fun insert_choices ::
    "(bytes \<Rightarrow> nat option) \<Rightarrow> (name \<times> name) list \<Rightarrow> fw_state \<Rightarrow> fw_state \<times> config_error option" where
  "insert_choices lc [] s = (s, None)"
| "insert_choices lc ((pfx, strategy) # cs) s =
     (case StrategyChoice_insert lc pfx strategy s of
        None \<Rightarrow> (s, Some ConfigAssertion)
      | Some (s, res) \<Rightarrow>
          if res \<noteq> INSERT_OK then (s, Some (ChoiceFailed pfx res)) else insert_choices lc cs s)"

definition processStrategyChoiceSection ::
    "(bytes \<Rightarrow> nat option) \<Rightarrow> bool \<Rightarrow> (bytes \<times> bytes) list \<Rightarrow> fw_state \<Rightarrow> fw_state \<times> config_error option" where
  "processStrategyChoiceSection lc isDryRun section s =
     (case read_choices section [] of
        Inl err \<Rightarrow> (s, Some err)
      | Inr choices \<Rightarrow> if isDryRun then (s, None) else insert_choices lc choices s)"

text \<open>The region table is a set of names, here a list without duplicates.\<close>

fun insert_regions :: "bytes list \<Rightarrow> fw_state \<Rightarrow> fw_state \<times> config_error option" where
  "insert_regions [] s = (s, None)"
| "insert_regions (uri # uris) s =
     (case Name_fromUri uri of
        Inl err \<Rightarrow> (s, Some (BadName err))
      | Inr n \<Rightarrow> insert_regions uris (s\<lparr>fw_regions := List.insert n (fw_regions s)\<rparr>))"

definition processNetworkRegionSection :: "bool \<Rightarrow> bytes list \<Rightarrow> fw_state \<Rightarrow> fw_state \<times> config_error option" where
  "processNetworkRegionSection isDryRun section s =
     (if isDryRun then (s, None) else insert_regions section (s\<lparr>fw_regions := []\<rparr>))"

text \<open>The part of \<^verbatim>\<open>processConfig\<close> after the sub-sections.\<close>

definition apply_config ::
    "(bytes \<Rightarrow> bytes) \<Rightarrow> nat \<Rightarrow> policy option \<Rightarrow> unsolicited_policy \<Rightarrow> fw_state \<Rightarrow> fw_state" where
  "apply_config sha nCsMaxPackets csPolicy unsolicited s =
     (let c = Cs_setLimit sha nCsMaxPackets (fw_cs s);
          c = (case csPolicy of
                 Some p \<Rightarrow> if length (cs_table c) = 0 then Cs_setPolicy sha p c else c
               | None \<Rightarrow> c)
      in s\<lparr>fw_cs := c, fw_unsolicited := unsolicited\<rparr>)"

text \<open>The two sub-sections, one after the other.\<close>

definition process_subsections ::
    "(bytes \<Rightarrow> nat option) \<Rightarrow> bool \<Rightarrow> tables_config \<Rightarrow> fw_state \<Rightarrow> fw_state \<times> config_error option" where
  "process_subsections lc isDryRun cfg s =
     (case (case tc_strategyChoice cfg of
              Some sec \<Rightarrow> processStrategyChoiceSection lc isDryRun sec s
            | None \<Rightarrow> (s, None)) of
        (s, Some err) \<Rightarrow> (s, Some err)
      | (s, None) \<Rightarrow>
          (case tc_networkRegion cfg of
             Some sec \<Rightarrow> processNetworkRegionSection isDryRun sec s
           | None \<Rightarrow> (s, None)))"

definition processConfig ::
    "(bytes \<Rightarrow> bytes) \<Rightarrow> (bytes \<Rightarrow> nat option) \<Rightarrow> bool \<Rightarrow> tables_config \<Rightarrow> fw_state \<Rightarrow> fw_state \<times> config_error option" where
  "processConfig sha lc isDryRun cfg s =
     (let nCsMaxPackets = (case tc_csMaxPackets cfg of Some n \<Rightarrow> n | None \<Rightarrow> DEFAULT_CS_MAX_PACKETS);
          csPolicy = Option.bind (tc_csPolicy cfg) CsPolicy_create;
          unsolicited = (case tc_csUnsolicitedPolicy cfg of
                           Some n \<Rightarrow> UnsolicitedDataPolicy_create n
                         | None \<Rightarrow> Some DropAll)
      in if tc_csPolicy cfg \<noteq> None \<and> csPolicy = None then (s, Some (UnknownCsPolicy (the (tc_csPolicy cfg))))
         else case unsolicited of
           None \<Rightarrow> (s, Some (UnknownUnsolicitedPolicy (the (tc_csUnsolicitedPolicy cfg))))
         | Some pol \<Rightarrow>
             (case process_subsections lc isDryRun cfg s of
                (s, Some err) \<Rightarrow> (s, Some err)
              | (s, None) \<Rightarrow> (if isDryRun then s else apply_config sha nCsMaxPackets csPolicy pol s, None)))"

definition ensureConfigured :: "(bytes \<Rightarrow> bytes) \<Rightarrow> bool \<Rightarrow> fw_state \<Rightarrow> fw_state" where
  "ensureConfigured sha isConfigured s =
     (if isConfigured then s
      else s\<lparr>fw_cs := Cs_setLimit sha DEFAULT_CS_MAX_PACKETS (fw_cs s), fw_unsolicited := DropAll\<rparr>)"

section \<open>The Content Store manager\<close>

text \<open>A capacity and the two flag bits, each if present in the parameters.\<close>

definition changeConfig ::
    "(bytes \<Rightarrow> bytes) \<Rightarrow> nat option \<Rightarrow> bool option \<Rightarrow> bool option \<Rightarrow> fw_state \<Rightarrow> fw_state" where
  "changeConfig sha capacity admit serve s =
     (let c = fw_cs s;
          c = (case capacity of Some n \<Rightarrow> Cs_setLimit sha n c | None \<Rightarrow> c);
          c = (case admit of Some b \<Rightarrow> enableAdmit b c | None \<Rightarrow> c);
          c = (case serve of Some b \<Rightarrow> enableServe b c | None \<Rightarrow> c)
      in s\<lparr>fw_cs := c\<rparr>)"

definition ERASE_LIMIT :: nat where
  "ERASE_LIMIT = 256"

text \<open>
  The count defaults to the largest 64-bit number. The response has the number of erased entries
  and, if more are left that match, the limit as a capacity.
\<close>

definition CsManager_erase ::
    "env \<Rightarrow> name \<Rightarrow> nat option \<Rightarrow> fw_state \<Rightarrow> packet_error + fw_state \<times> nat \<times> nat option" where
  "CsManager_erase env n count0 s =
     (let count = (case count0 of Some k \<Rightarrow> k | None \<Rightarrow> 2 ^ 64 - 1) in
      case Cs_erase (e_sha env) n (min count ERASE_LIMIT) (fw_cs s) of (c, nErased) \<Rightarrow>
        if nErased = ERASE_LIMIT \<and> count > ERASE_LIMIT then
          (case Interest_new (e_sha env) n DEFAULT_INTEREST_LIFETIME of
             Inl err \<Rightarrow> Inl err
           | Inr i \<Rightarrow>
               (case Cs_find (e_sha env) (e_now env) (setCanBePrefix True i) c of (c, hit) \<Rightarrow>
                  Inr (s\<lparr>fw_cs := c\<rparr>, nErased, if hit \<noteq> None then Some ERASE_LIMIT else None)))
        else Inr (s\<lparr>fw_cs := c\<rparr>, nErased, None))"

end
