(* ===== verification/Forwarder.thy ===== *)
theory Forwarder
  imports Strategies Management
begin

text \<open>
  The incoming pipelines of the forwarder (\<^verbatim>\<open>daemon/fw/forwarder.cpp\<close>), the cleanup of the tables when
  a face is removed (\<^verbatim>\<open>daemon/table/cleanup.cpp\<close>), and the commands that change the FIB and the
  strategy choices (\<^verbatim>\<open>daemon/mgmt/fib-manager.cpp\<close>, \<^verbatim>\<open>strategy-choice-manager.cpp\<close>). A pipeline takes
  the virtual functions of the strategy objects as an argument and returns the new state, or the
  exception that leaves it; a failed assertion is such an exception.
\<close>

type_synonym strategies = "strategy \<Rightarrow> strategy_vtable"

text \<open>\<^verbatim>\<open>findEffectiveStrategy\<close> of a PIT entry.\<close>

definition strategy_of :: "strategies \<Rightarrow> pit_id \<Rightarrow> fw_state \<Rightarrow> strategy_vtable option" where
  "strategy_of vt p s =
     Option.bind (pit_heap s p) (\<lambda>e. Option.bind (pe_nte e) (\<lambda>at.
       map_option vt (findEffectiveStrategy_pit (i_name (pe_interest e)) at s)))"

section \<open>Interests\<close>

definition onInterestLoop :: "face_ptr \<Rightarrow> interest \<Rightarrow> fw_state \<Rightarrow> fw_state" where
  "onInterestLoop ingress i s =
     (if f_linkType (fw_face s ingress) \<noteq> LINK_TYPE_POINT_TO_POINT then s
      else face_send ingress (NackPacket i DUPLICATE) s)"

text \<open>\<^verbatim>\<open>duration_cast\<close> from nanoseconds to milliseconds truncates towards zero.\<close>

definition trunc_ms :: "int \<Rightarrow> int" where
  "trunc_ms t = (if t \<ge> 0 then t div 1000000 else - ((- t) div 1000000))"

definition lastExpiring :: "in_record list \<Rightarrow> time_ns" where
  "lastExpiring rs = fold (\<lambda>r t. max t (fr_expiry r)) (tl rs) (fr_expiry (hd rs))"

definition onContentStoreMiss ::
    "strategies \<Rightarrow> env \<Rightarrow> face_ptr \<Rightarrow> pit_id \<Rightarrow> interest \<Rightarrow> fw_state \<Rightarrow> packet_error + fw_state" where
  "onContentStoreMiss vt env ingress p i s =
     (let s = bump (\<lambda>c. c\<lparr>nCsMisses := nCsMisses c + 1\<rparr>) s;
          s = pit_modify p (insertOrUpdateInRecord (e_nonce env) (e_now env) ingress i) s
      in case pit_heap s p of
        None \<Rightarrow> Inl AssertionFailed
      | Some e \<Rightarrow>
          let lastExpiryFromNow = lastExpiring (pe_inRecords e) - e_now env;
              s = setExpiryTimer env p (trunc_ms lastExpiryFromNow) s
          in case i_nextHopFaceId i of
               Some tag \<Rightarrow>
                 (case FaceTable_get tag (fw_faceTable s) of
                    Some nextHopFace \<Rightarrow> Inr (fst (onOutgoingInterest env p nextHopFace i s))
                  | None \<Rightarrow> Inr s)
             | None \<Rightarrow>
                 (case strategy_of vt p s of
                    None \<Rightarrow> Inl AssertionFailed
                  | Some st \<Rightarrow> vt_afterReceiveInterest st env ingress i p s))"

text \<open>
  The tags set on the Data of a hit are set on the packet in the store as well; every hit sets them
  anew, and nothing else reads them there, so the store of the model keeps the packet as inserted.
\<close>

definition onContentStoreHit ::
    "strategies \<Rightarrow> env \<Rightarrow> face_ptr \<Rightarrow> pit_id \<Rightarrow> interest \<Rightarrow> data \<Rightarrow> fw_state \<Rightarrow> packet_error + fw_state" where
  "onContentStoreHit vt env ingress p i d s =
     (let s = bump (\<lambda>c. c\<lparr>nCsHits := nCsHits c + 1\<rparr>) s;
          d = d\<lparr>d_incomingFaceId := Some FACEID_CONTENT_STORE, d_pitToken := i_pitToken i\<rparr>;
          s = pit_modify p (\<lambda>e. e\<lparr>pe_isSatisfied := True\<rparr>) s;
          s = pit_modify p (\<lambda>e. e\<lparr>pe_dataFreshnessPeriod := d_freshnessPeriod d\<rparr>) s;
          s = setExpiryTimer env p 0 s
      in case strategy_of vt p s of
           None \<Rightarrow> Inl AssertionFailed
         | Some st \<Rightarrow> Inr (vt_afterContentStoreHit st env p ingress d s))"

text \<open>The part of \<^verbatim>\<open>onIncomingInterest\<close> from the PIT insertion on.\<close>

definition onIncomingInterest_pit ::
    "strategies \<Rightarrow> env \<Rightarrow> face_ptr \<Rightarrow> nonce \<Rightarrow> interest \<Rightarrow> fw_state \<Rightarrow> packet_error + fw_state" where
  "onIncomingInterest_pit vt env ingress nonce i s =
     (case findOrInsert i True s of (s, q, _) \<Rightarrow>
        case q of
          None \<Rightarrow> Inl AssertionFailed
        | Some p \<Rightarrow>
            (case pit_heap s p of
               None \<Rightarrow> Inl AssertionFailed
             | Some e \<Rightarrow>
                 let dnw = findDuplicateNonce e nonce ingress;
                     hasDuplicateNonceInPit = (dnw \<noteq> DUPLICATE_NONCE_NONE);
                     hasDuplicateNonceInPit =
                       (if f_linkType (fw_face s ingress) = LINK_TYPE_POINT_TO_POINT
                        then hasDuplicateNonceInPit \<and> \<not> IN_SAME dnw
                        else hasDuplicateNonceInPit)
                 in if hasDuplicateNonceInPit then Inr (onInterestLoop ingress i s)
                    else if pe_inRecords e = [] then
                      (case Cs_find (e_sha env) (e_now env) i (fw_cs s) of (cs, hit) \<Rightarrow>
                         case hit of
                           Some ce \<Rightarrow> onContentStoreHit vt env ingress p i (ce_data ce) (s\<lparr>fw_cs := cs\<rparr>)
                         | None \<Rightarrow> onContentStoreMiss vt env ingress p i (s\<lparr>fw_cs := cs\<rparr>))
                    else onContentStoreMiss vt env ingress p i s))"

definition onIncomingInterest ::
    "strategies \<Rightarrow> env \<Rightarrow> face_ptr \<Rightarrow> interest \<Rightarrow> fw_state \<Rightarrow> packet_error + fw_state" where
  "onIncomingInterest vt env ingress i s =
     (let i = i\<lparr>i_incomingFaceId := Some (f_id (fw_face s ingress))\<rparr>;
          s = bump (\<lambda>c. c\<lparr>nInInterests := nInInterests c + 1\<rparr>) s
      in if i_hopLimit i = Some 0
         then Inr (face_modify ingress (\<lambda>f. f\<lparr>f_nInHopLimitZero := f_nInHopLimitZero f + 1\<rparr>) s)
         else
           let i = (case i_hopLimit i of Some h \<Rightarrow> setHopLimit (Some (h - 1)) i | None \<Rightarrow> i);
               isViolatingLocalhost =
                 f_scope (fw_face s ingress) = FACE_SCOPE_NON_LOCAL \<and> isPrefixOf LOCALHOST (i_name i)
           in if isViolatingLocalhost then Inr s
              else case getNonce (e_nonce env) i of (nonce, i) \<Rightarrow>
                let hasDuplicateNonceInDnl = DeadNonceList_has (e_city env) (i_name i) nonce (fw_dnl s)
                in if hasDuplicateNonceInDnl then Inr (onInterestLoop ingress i s)
                   else
                     let i = (if i_forwardingHint i \<noteq> [] \<and> isInProducerRegion (fw_regions s) (i_forwardingHint i)
                              then setForwardingHint [] i else i)
                     in onIncomingInterest_pit vt env ingress nonce i s)"

section \<open>Data\<close>

definition onDataUnsolicited :: "env \<Rightarrow> face_ptr \<Rightarrow> data \<Rightarrow> fw_state \<Rightarrow> fw_state" where
  "onDataUnsolicited env ingress d s =
     (let s = (if unsolicited_decide (fw_unsolicited s) (fw_face s ingress)
               then s\<lparr>fw_cs := Cs_insert (e_sha env) (e_now env) d True (fw_cs s)\<rparr> else s)
      in bump (\<lambda>c. c\<lparr>nUnsolicitedData := nUnsolicitedData c + 1\<rparr>) s)"

text \<open>Mark the entry satisfied and record the nonce of the out-record the Data answers.\<close>

definition mark_satisfied ::
    "env \<Rightarrow> face_ptr \<Rightarrow> data \<Rightarrow> pit_id \<Rightarrow> fw_state \<Rightarrow> packet_error + fw_state" where
  "mark_satisfied env ingress d p s =
     (let s = pit_modify p (\<lambda>e. e\<lparr>pe_isSatisfied := True\<rparr>) s;
          s = pit_modify p (\<lambda>e. e\<lparr>pe_dataFreshnessPeriod := d_freshnessPeriod d\<rparr>) s
      in case pit_heap s p of
           Some e \<Rightarrow> insertDeadNonceList env e (Some ingress) s
         | None \<Rightarrow> Inr s)"

text \<open>The only matching entry.\<close>

definition satisfy_single ::
    "strategies \<Rightarrow> env \<Rightarrow> face_ptr \<Rightarrow> data \<Rightarrow> pit_id \<Rightarrow> fw_state \<Rightarrow> packet_error + fw_state" where
  "satisfy_single vt env ingress d p s =
     (let s = setExpiryTimer env p 0 s in
      case strategy_of vt p s of
        None \<Rightarrow> Inl AssertionFailed
      | Some st \<Rightarrow>
          map_sum id (pit_modify p (deleteOutRecord ingress))
            (mark_satisfied env ingress d p (vt_afterReceiveData st env p ingress d s)))"

text \<open>The loop over several matching entries, which gathers the pending downstreams.\<close>

fun satisfy_all ::
    "strategies \<Rightarrow> env \<Rightarrow> face_ptr \<Rightarrow> data \<Rightarrow> pit_id list \<Rightarrow> face_ptr list \<Rightarrow> fw_state
     \<Rightarrow> packet_error + fw_state \<times> face_ptr list" where
  "satisfy_all vt env ingress d [] pending s = Inr (s, pending)"
| "satisfy_all vt env ingress d (p # ps) pending s =
     (case pit_heap s p of
        None \<Rightarrow> Inl AssertionFailed
      | Some e \<Rightarrow>
          let pending = pending @ map fr_face (filter (\<lambda>r. fr_expiry r > e_now env) (pe_inRecords e));
              s = setExpiryTimer env p 0 s
          in case strategy_of vt p s of
               None \<Rightarrow> Inl AssertionFailed
             | Some st \<Rightarrow>
                 (case mark_satisfied env ingress d p (vt_beforeSatisfyInterest st env p ingress d s) of
                    Inl err \<Rightarrow> Inl err
                  | Inr s \<Rightarrow>
                      let s = pit_modify p clearInRecords s;
                          s = pit_modify p (deleteOutRecord ingress) s
                      in satisfy_all vt env ingress d ps pending s))"

definition send_pending :: "face_ptr \<Rightarrow> data \<Rightarrow> face_ptr list \<Rightarrow> fw_state \<Rightarrow> fw_state" where
  "send_pending ingress d pending s =
     fold (\<lambda>f s. if f_id (fw_face s f) = f_id (fw_face s ingress) \<and> f_linkType (fw_face s f) \<noteq> LINK_TYPE_AD_HOC
                  then s else fst (onOutgoingData d f s))
       (sort (remdups pending)) s"

definition onIncomingData ::
    "strategies \<Rightarrow> env \<Rightarrow> face_ptr \<Rightarrow> data \<Rightarrow> fw_state \<Rightarrow> packet_error + fw_state" where
  "onIncomingData vt env ingress d s =
     (let d = d\<lparr>d_incomingFaceId := Some (f_id (fw_face s ingress))\<rparr>;
          s = bump (\<lambda>c. c\<lparr>nInData := nInData c + 1\<rparr>) s;
          isViolatingLocalhost =
            f_scope (fw_face s ingress) = FACE_SCOPE_NON_LOCAL \<and> isPrefixOf LOCALHOST (d_name d)
      in if isViolatingLocalhost then Inr s
         else case findAllDataMatches (e_sha env) d s of
           Inl err \<Rightarrow> Inl err
         | Inr [] \<Rightarrow> Inr (onDataUnsolicited env ingress d s)
         | Inr (p # ps) \<Rightarrow>
             let s = s\<lparr>fw_cs := Cs_insert (e_sha env) (e_now env) d False (fw_cs s)\<rparr> in
             if ps = [] then satisfy_single vt env ingress d p s
             else map_sum id (\<lambda>(s, pending). send_pending ingress d pending s)
                    (satisfy_all vt env ingress d (p # ps) [] s))"

section \<open>Nacks and dropped Interests\<close>

definition onIncomingNack ::
    "strategies \<Rightarrow> env \<Rightarrow> face_ptr \<Rightarrow> interest \<Rightarrow> nack_reason \<Rightarrow> fw_state \<Rightarrow> packet_error + fw_state" where
  "onIncomingNack vt env ingress i reason s =
     (let s = bump (\<lambda>c. c\<lparr>nInNacks := nInNacks c + 1\<rparr>) s in
      if f_linkType (fw_face s ingress) \<noteq> LINK_TYPE_POINT_TO_POINT then Inr s
      else case findOrInsert i False s of (s, q, _) \<Rightarrow>
        case q of
          None \<Rightarrow> Inr s
        | Some p \<Rightarrow>
            (case pit_heap s p of
               None \<Rightarrow> Inl AssertionFailed
             | Some e \<Rightarrow>
                 (case getOutRecord ingress e of
                    None \<Rightarrow> Inr s
                  | Some outRecord \<Rightarrow>
                      let nonce = fst (getNonce (e_nonce env) i) in
                      if nonce \<noteq> fr_lastNonce outRecord then Inr s
                      else
                        let s = pit_modify p (or_modify ingress (\<lambda>r. fst (setIncomingNack nonce reason r))) s;
                            s = (case pit_heap s p of
                                   Some e \<Rightarrow> if \<not> hasPendingOutRecords (e_now env) e then setExpiryTimer env p 0 s else s
                                 | None \<Rightarrow> s)
                        in case strategy_of vt p s of
                             None \<Rightarrow> Inl AssertionFailed
                           | Some st \<Rightarrow> Inr (vt_afterReceiveNack st env ingress i reason p s))))"

definition onDroppedInterest ::
    "strategies \<Rightarrow> env \<Rightarrow> face_ptr \<Rightarrow> interest \<Rightarrow> fw_state \<Rightarrow> packet_error + fw_state" where
  "onDroppedInterest vt env egress i s =
     (case findEffectiveStrategy (i_name i) s of
        None \<Rightarrow> Inl AssertionFailed
      | Some st \<Rightarrow> Inr (vt_onDroppedInterest (vt st) env egress i s))"

section \<open>Tables that change\<close>

text \<open>The entries of \<^verbatim>\<open>onNewNextHop\<close>: triggers do not change the name tree during the enumeration.\<close>

definition affected_entries :: "name \<Rightarrow> fw_state \<Rightarrow> nte list" where
  "affected_entries pfx s =
     partialEnumerate pfx
       (\<lambda>e. if nte_fib e \<noteq> None \<and> length (nte_name e) > length pfx then (False, False)
             else (nteHasPitEntries e, True)) (ntree s)"

fun trigger_new_nexthop ::
    "strategies \<Rightarrow> env \<Rightarrow> nexthop \<Rightarrow> pit_id list \<Rightarrow> fw_state \<Rightarrow> packet_error + fw_state" where
  "trigger_new_nexthop vt env nh [] s = Inr s"
| "trigger_new_nexthop vt env nh (p # ps) s =
     (case strategy_of vt p s of
        None \<Rightarrow> Inl AssertionFailed
      | Some st \<Rightarrow> trigger_new_nexthop vt env nh ps (vt_afterNewNextHop st env nh p s))"

definition onNewNextHop :: "strategies \<Rightarrow> env \<Rightarrow> name \<Rightarrow> nexthop \<Rightarrow> fw_state \<Rightarrow> packet_error + fw_state" where
  "onNewNextHop vt env pfx nh s =
     trigger_new_nexthop vt env nh (concat (map nte_pits (affected_entries pfx s))) s"

text \<open>
  \<^verbatim>\<open>FibManager::addNextHop\<close> and \<^verbatim>\<open>removeNextHop\<close>, with the face of the parameters; the code of the
  response comes with the new state.
\<close>

definition addNextHop ::
    "strategies \<Rightarrow> env \<Rightarrow> name \<Rightarrow> nat \<Rightarrow> nat \<Rightarrow> fw_state \<Rightarrow> packet_error + fw_state \<times> nat" where
  "addNextHop vt env pfx faceId cost s =
     (if length pfx > getMaxDepth then Inr (s, 414)
      else case FaceTable_get faceId (fw_faceTable s) of
        None \<Rightarrow> Inr (s, 410)
      | Some face \<Rightarrow>
          let s = fst (Fib_insert pfx s) in
          case Fib_addOrUpdateNextHop pfx face cost s of (s, new) \<Rightarrow>
            case new of
              None \<Rightarrow> Inr (s, 200)
            | Some nh \<Rightarrow> map_sum id (\<lambda>s. (s, 200)) (onNewNextHop vt env pfx nh s))"

definition removeNextHop :: "name \<Rightarrow> nat \<Rightarrow> fw_state \<Rightarrow> fw_state" where
  "removeNextHop pfx faceId s =
     (case FaceTable_get faceId (fw_faceTable s) of
        None \<Rightarrow> s
      | Some face \<Rightarrow>
          (case Fib_findExactMatch pfx s of
             None \<Rightarrow> s
           | Some fe \<Rightarrow> fst (Fib_removeNextHop (fe_prefix fe) face s)))"

text \<open>
  \<^verbatim>\<open>cleanupOnFaceRemoval\<close>. The enumeration visits the name tree entries in the order of the list.
  Entries that have become empty are kept with their depth; the deepest are erased first and, of
  those with equal depth, the last visited.
\<close>

definition cleanup_visit :: "face_ptr \<Rightarrow> name \<Rightarrow> fw_state \<Rightarrow> fw_state" where
  "cleanup_visit face n s =
     (let s = (case nt_fib (ntree s) n of Some _ \<Rightarrow> fst (Fib_removeNextHop n face s) | None \<Rightarrow> s)
      in fold (\<lambda>p. deleteInOutRecords p face) (nt_pits (ntree s) n) s)"

definition nt_hasTableEntries :: "nametree \<Rightarrow> name \<Rightarrow> bool" where
  "nt_hasTableEntries t n = (case nt_find t n of Some e \<Rightarrow> hasTableEntries e | None \<Rightarrow> False)"

definition cleanupOnFaceRemoval :: "face_ptr \<Rightarrow> fw_state \<Rightarrow> fw_state" where
  "cleanupOnFaceRemoval face s =
     (let names = map nte_name (ntree s);
          (s, maybeEmpty) = fold (\<lambda>n (s, es).
             let s = cleanup_visit face n s
             in (s, if \<not> nt_hasTableEntries (ntree s) n then es @ [n] else es)) names (s, [])
      in s\<lparr>ntree := fold (\<lambda>n t. fst (eraseIfEmpty n False t)) (rev (sort_key length maybeEmpty)) (ntree s)\<rparr>)"

text \<open>\<^verbatim>\<open>FaceTable::add\<close> and \<^verbatim>\<open>remove\<close>, with what the forwarder connects to the signals.\<close>

definition addFace :: "face_ptr \<Rightarrow> fw_state \<Rightarrow> fw_state" where
  "addFace face s = s\<lparr>fw_faceTable := FaceTable_add face (fw_faceTable s)\<rparr>"

definition removeFace :: "nat \<Rightarrow> fw_state \<Rightarrow> fw_state" where
  "removeFace faceId s =
     (case FaceTable_get faceId (fw_faceTable s) of
        None \<Rightarrow> s
      | Some face \<Rightarrow>
          let s = cleanupOnFaceRemoval face s
          in s\<lparr>fw_faceTable := FaceTable_remove faceId (fw_faceTable s)\<rparr>)"

definition addReservedFace :: "face_ptr \<Rightarrow> nat \<Rightarrow> fw_state \<Rightarrow> fw_state" where
  "addReservedFace face faceId s = s\<lparr>fw_faceTable := addReserved face faceId (fw_faceTable s)\<rparr>"

text \<open>\<^verbatim>\<open>StrategyChoiceManager::setStrategy\<close> and \<^verbatim>\<open>unsetStrategy\<close>: their effect on the table.\<close>

definition setStrategy :: "(bytes \<Rightarrow> nat option) \<Rightarrow> name \<Rightarrow> name \<Rightarrow> fw_state \<Rightarrow> packet_error + fw_state" where
  "setStrategy lc pfx strategyName s =
     (case StrategyChoice_insert lc pfx strategyName s of
        None \<Rightarrow> Inl AssertionFailed
      | Some (s, _) \<Rightarrow> Inr s)"

definition unsetStrategy :: "name \<Rightarrow> fw_state \<Rightarrow> packet_error + fw_state" where
  "unsetStrategy pfx s =
     (case StrategyChoice_erase pfx s of
        None \<Rightarrow> Inl AssertionFailed
      | Some s \<Rightarrow> Inr s)"

section \<open>Runs\<close>

text \<open>
  The constructor, on a face table without faces and a store of faces that have no identifier yet.
\<close>

definition Forwarder_new :: "(bytes \<Rightarrow> nat option) \<Rightarrow> time_ns \<Rightarrow> (face_ptr \<Rightarrow> face) \<Rightarrow> fw_state option" where
  "Forwarder_new lc now store =
     (case DeadNonceList_new now DEFAULT_LIFETIME of
        None \<Rightarrow> None
      | Some d \<Rightarrow>
          setDefaultStrategy lc getDefaultStrategyName
            \<lparr>ntree = [], fib_nItems = 0, pit_heap = Map.empty, pit_next = 0, pit_nItems = 0,
             meas_nItems = 0, sc_nItems = 0, fw_faceTable = FaceTable_new store, fw_cs = Cs_new 10, fw_dnl = d,
             fw_regions = [], fw_unsolicited = DropAll, fw_counters = counters_new, fw_sent = []\<rparr>)"

datatype event =
    ReceiveInterest face_ptr interest
  | ReceiveData face_ptr data
  | ReceiveNack face_ptr interest nack_reason
  | DropInterest face_ptr interest
  | ExpireEntry pit_id
  | AddFace face_ptr
  | AddReservedFace face_ptr nat
  | RemoveFace nat
  | AddNextHop name nat nat
  | RemoveNextHop name nat
  | SetStrategy name name
  | UnsetStrategy name
  | StaleData cs_key
  | MarkDeadNonces
  | AdjustDeadNonces
  | ExpireMeasurements name
  | ConfigureTables bool tables_config
  | ChangeCsConfig "nat option" "bool option" "bool option"
  | EraseCs name "nat option"

fun handle :: "strategies \<Rightarrow> (bytes \<Rightarrow> nat option) \<Rightarrow> env \<Rightarrow> event \<Rightarrow> fw_state \<Rightarrow> packet_error + fw_state" where
  "handle vt lc env (ReceiveInterest f i) s = onIncomingInterest vt env f i s"
| "handle vt lc env (ReceiveData f d) s = onIncomingData vt env f d s"
| "handle vt lc env (ReceiveNack f i r) s = onIncomingNack vt env f i r s"
| "handle vt lc env (DropInterest f i) s = onDroppedInterest vt env f i s"
| "handle vt lc env (ExpireEntry p) s = onInterestFinalize env p s"
| "handle vt lc env (AddFace f) s = Inr (addFace f s)"
| "handle vt lc env (AddReservedFace f k) s = Inr (addReservedFace f k s)"
| "handle vt lc env (RemoveFace k) s = Inr (removeFace k s)"
| "handle vt lc env (AddNextHop n k c) s = map_sum id fst (addNextHop vt env n k c s)"
| "handle vt lc env (RemoveNextHop n k) s = Inr (removeNextHop n k s)"
| "handle vt lc env (SetStrategy n m) s = setStrategy lc n m s"
| "handle vt lc env (UnsetStrategy n) s = unsetStrategy n s"
| "handle vt lc env (StaleData k) s = Inr (s\<lparr>fw_cs := Cs_staleEvent k (fw_cs s)\<rparr>)"
| "handle vt lc env MarkDeadNonces s = Inr (s\<lparr>fw_dnl := dnl_mark (e_now env) (fw_dnl s)\<rparr>)"
| "handle vt lc env AdjustDeadNonces s = Inr (s\<lparr>fw_dnl := adjustCapacity (e_now env) (fw_dnl s)\<rparr>)"
| "handle vt lc env (ExpireMeasurements n) s = Inr (Measurements_cleanup n s)"
| "handle vt lc env (ConfigureTables isDryRun cfg) s = Inr (fst (processConfig (e_sha env) lc isDryRun cfg s))"
| "handle vt lc env (ChangeCsConfig capacity admit serve) s = Inr (changeConfig (e_sha env) capacity admit serve s)"
| "handle vt lc env (EraseCs n k) s = map_sum id fst (CsManager_erase env n k s)"

text \<open>
  When an event can happen. Packets come from a face of the table, with a name that fits a packet;
  Data was decoded from its wire format, where the freshness period is less than $2^{63}$. A timer fires at its time or later. Face identifiers do
  not run out, and a reserved identifier is given out once, as assertions demand. The root has a
  strategy choice at all times, as the validation of the command demands. The network regions are
  configured while no pending Interest has a forwarding hint, such as at the start.
\<close>

fun enabled :: "(bytes \<Rightarrow> bytes) \<Rightarrow> time_ns \<Rightarrow> event \<Rightarrow> fw_state \<Rightarrow> bool" where
  "enabled sha now (ReceiveInterest f i) s \<longleftrightarrow> f_id (fw_face s f) \<noteq> INVALID_FACEID \<and> interest_small i"
| "enabled sha now (ReceiveData f d) s \<longleftrightarrow>
     f_id (fw_face s f) \<noteq> INVALID_FACEID \<and> ce_ok sha d \<and> d_freshnessPeriod d \<ge> 0"
| "enabled sha now (ReceiveNack f i r) s \<longleftrightarrow> f_id (fw_face s f) \<noteq> INVALID_FACEID \<and> interest_small i"
| "enabled sha now (DropInterest f i) s \<longleftrightarrow> f_id (fw_face s f) \<noteq> INVALID_FACEID"
| "enabled sha now (ExpireEntry p) s \<longleftrightarrow>
     (case pit_heap s p of Some e \<Rightarrow> (case pe_expiryTimer e of Some t \<Rightarrow> t \<le> now | None \<Rightarrow> False) | None \<Rightarrow> False)"
| "enabled sha now (AddFace f) s \<longleftrightarrow>
     f_id (fw_face s f) = INVALID_FACEID \<and> ft_lastFaceId (fw_faceTable s) + 1 < 2 ^ 64"
| "enabled sha now (AddReservedFace f k) s \<longleftrightarrow>
     f_id (fw_face s f) = INVALID_FACEID \<and> k \<noteq> INVALID_FACEID \<and> k \<le> FACEID_RESERVED_MAX \<and>
     FaceTable_get k (fw_faceTable s) = None"
| "enabled sha now (RemoveFace k) s \<longleftrightarrow> FaceTable_get k (fw_faceTable s) \<noteq> None"
| "enabled sha now (UnsetStrategy n) s \<longleftrightarrow> n \<noteq> []"
| "enabled sha now (ExpireMeasurements n) s \<longleftrightarrow>
     (case nt_meas (ntree s) n of Some m \<Rightarrow> me_expiry m \<le> now | None \<Rightarrow> False)"
| "enabled sha now (ConfigureTables isDryRun cfg) s \<longleftrightarrow>
     isDryRun \<or> tc_networkRegion cfg = None \<or>
     list_all (\<lambda>p. case pit_heap s p of Some e \<Rightarrow> i_forwardingHint (pe_interest e) = [] | None \<Rightarrow> True)
       (concat (map nte_pits (ntree s)))"
| "enabled sha now _ s \<longleftrightarrow> True"

inductive reachable :: "strategies \<Rightarrow> (bytes \<Rightarrow> nat option) \<Rightarrow> (bytes \<Rightarrow> bytes) \<Rightarrow> fw_state \<Rightarrow> bool"
  for vt lc sha where
  reach_init: "(\<And>f. f_id (store f) = INVALID_FACEID) \<Longrightarrow> Forwarder_new lc now store = Some s \<Longrightarrow> reachable vt lc sha s"
| reach_step: "reachable vt lc sha s \<Longrightarrow> env_ok env \<Longrightarrow> e_sha env = sha \<Longrightarrow> enabled sha (e_now env) ev s \<Longrightarrow>
    handle vt lc env ev s = Inr s' \<Longrightarrow> reachable vt lc sha s'"

end
