(* ===== verification/ForwarderInv.thy ===== *)
theory ForwarderInv
  imports Forwarder
begin

text \<open>
  The invariant of the forwarder: the tables that share the name tree are consistent, no table refers
  to a face that has left the face table, what was sent respects scope, hop limits and link types, and
  the counters count what was sent. It is kept by every action of a strategy, every pipeline and every
  command.
\<close>

section \<open>Statement\<close>

definition tables_ok :: "fw_state \<Rightarrow> bool" where
  "tables_ok s \<longleftrightarrow> fib_inv s \<and> pit_inv s \<and> meas_inv s \<and> sc_inv s"

abbreviation violates_localhost :: "face \<Rightarrow> name \<Rightarrow> bool" where
  "violates_localhost f n \<equiv> f_scope f = FACE_SCOPE_NON_LOCAL \<and> isPrefixOf LOCALHOST n"

text \<open>
  An Interest from a non-local face is not under \<^verbatim>\<open>/localhost\<close>; the faces an attached entry refers to
  are faces of the table. The freshness period of the Data that satisfied it is not negative, which
  the assertion of \<^verbatim>\<open>insertDeadNonceList\<close> checks.
\<close>

definition entry_ok :: "(face_ptr \<Rightarrow> face) \<Rightarrow> pit_entry \<Rightarrow> bool" where
  "entry_ok store e \<longleftrightarrow>
     (\<forall>r \<in> set (pe_inRecords e). \<not> violates_localhost (store (fr_face r)) (i_name (ir_interest r))) \<and>
     (pe_nte e \<noteq> None \<longrightarrow>
        (\<forall>f \<in> fr_face ` set (pe_inRecords e) \<union> fr_face ` set (pe_outRecords e). f_id (store f) \<noteq> INVALID_FACEID)) \<and>
     pe_dataFreshnessPeriod e \<ge> 0"

definition refs_ok :: "fw_state \<Rightarrow> bool" where
  "refs_ok s \<longleftrightarrow> (\<forall>f. fib_nexthop s f \<longrightarrow> f_id (fw_face s f) \<noteq> INVALID_FACEID) \<and>
     (\<forall>p e. pit_heap s p = Some e \<longrightarrow> entry_ok (ft_store (fw_faceTable s)) e)"

fun packet_ok :: "face \<Rightarrow> packet \<Rightarrow> bool" where
  "packet_ok f (InterestPacket i) \<longleftrightarrow>
     (f_scope f = FACE_SCOPE_NON_LOCAL \<longrightarrow> i_hopLimit i \<noteq> Some 0 \<and>
        (isPrefixOf LOCALHOST (i_name i) \<longrightarrow> i_nextHopFaceId i \<noteq> None))"
| "packet_ok f (DataPacket d) \<longleftrightarrow> \<not> violates_localhost f (d_name d)"
| "packet_ok f (NackPacket i r) \<longleftrightarrow> \<not> violates_localhost f (i_name i) \<and> f_linkType f = LINK_TYPE_POINT_TO_POINT"

definition log_ok :: "fw_state \<Rightarrow> bool" where
  "log_ok s \<longleftrightarrow> (\<forall>(f, pkt) \<in> set (fw_sent s). packet_ok (fw_face s f) pkt)"

fun is_interest :: "packet \<Rightarrow> bool" where
  "is_interest (InterestPacket i) = True"
| "is_interest _ = False"

fun is_data :: "packet \<Rightarrow> bool" where
  "is_data (DataPacket d) = True"
| "is_data _ = False"

definition counted :: "fw_state \<Rightarrow> bool" where
  "counted s \<longleftrightarrow>
     nOutInterests (fw_counters s) = of_nat (length (filter (is_interest \<circ> snd) (fw_sent s))) \<and>
     nOutData (fw_counters s) = of_nat (length (filter (is_data \<circ> snd) (fw_sent s)))"

definition cs_fresh :: "cs \<Rightarrow> bool" where
  "cs_fresh c \<longleftrightarrow> (\<forall>e \<in> set (cs_table c). d_freshnessPeriod (ce_data e) \<ge> 0)"

definition fw_inv :: "(bytes \<Rightarrow> bytes) \<Rightarrow> fw_state \<Rightarrow> bool" where
  "fw_inv sha s \<longleftrightarrow> tables_ok s \<and> cs_inv sha (fw_cs s) \<and> dnl_inv (fw_dnl s) \<and> ft_inv (fw_faceTable s) \<and>
     refs_ok s \<and> log_ok s \<and> counted s \<and> cs_fresh (fw_cs s)"

lemmas fw_inv_defs = fw_inv_def tables_ok_def refs_ok_def log_ok_def counted_def

section \<open>Entries\<close>

lemma set_update_first: "set (update_first P f xs) \<subseteq> set xs \<union> f ` {x \<in> set xs. P x}"
  by (induction xs) auto

lemma image_key_update_first: "(\<And>x. k (f x) = k x) \<Longrightarrow> k ` set (update_first P f xs) = k ` set xs"
  by (induction xs) auto

lemma entry_ok_ops [inv_intros]:
  "entry_ok store e \<Longrightarrow> entry_ok store (deleteInRecord f e)"
  "entry_ok store e \<Longrightarrow> entry_ok store (deleteOutRecord f e)"
  "entry_ok store e \<Longrightarrow> entry_ok store (clearInRecords e)"
  "entry_ok store e \<Longrightarrow> entry_ok store (e\<lparr>pe_isSatisfied := b\<rparr>)"
  "m \<ge> 0 \<Longrightarrow> entry_ok store e \<Longrightarrow> entry_ok store (e\<lparr>pe_dataFreshnessPeriod := m\<rparr>)"
  "entry_ok store e \<Longrightarrow> entry_ok store (e\<lparr>pe_expiryTimer := x\<rparr>)"
  "entry_ok store e \<Longrightarrow> entry_ok store (e\<lparr>pe_suppression := y\<rparr>)"
  "entry_ok store e \<Longrightarrow> entry_ok store (e\<lparr>pe_nte := None\<rparr>)"
  "entry_ok store ((PitEntry_new i)\<lparr>pe_nte := n\<rparr>)"
  unfolding entry_ok_def deleteInRecord_def deleteOutRecord_def clearInRecords_def PitEntry_new_def
  using set_delete_first_subset by fastforce+

lemma entry_ok_or_modify [inv_intros]:
  assumes "entry_ok store e" and "\<And>r. fr_face (g r) = fr_face r"
  shows "entry_ok store (or_modify f g e)"
proof -
  have "fr_face ` set (update_first (\<lambda>r. fr_face r = f) g (pe_outRecords e)) = fr_face ` set (pe_outRecords e)"
    by (rule image_key_update_first) (rule assms(2))
  then show ?thesis using assms(1) by (simp add: entry_ok_def or_modify_def)
qed

lemma entry_ok_insertOut [inv_intros]:
  assumes "entry_ok store e" "f_id (store f) \<noteq> INVALID_FACEID"
  shows "entry_ok store (insertOrUpdateOutRecord rnd now f i e)"
proof -
  let ?rs = "case getOutRecord f e of None \<Rightarrow> new_out_record f # pe_outRecords e | Some _ \<Rightarrow> pe_outRecords e"
  have "fr_face ` set (update_first (\<lambda>r. fr_face r = f) (FaceRecord_update rnd now i) ?rs) = fr_face ` set ?rs"
    by (rule image_key_update_first) simp
  moreover have "fr_face ` set ?rs \<subseteq> insert f (fr_face ` set (pe_outRecords e))" by (auto split: option.split)
  ultimately show ?thesis using assms by (auto simp: entry_ok_def insertOrUpdateOutRecord_def Let_def)
qed

lemma entry_ok_insertIn [inv_intros]:
  assumes "entry_ok store e" "f_id (store f) \<noteq> INVALID_FACEID" "\<not> violates_localhost (store f) (i_name i)"
  shows "entry_ok store (insertOrUpdateInRecord rnd now f i e)"
proof -
  let ?rs = "case getInRecord f e of None \<Rightarrow> new_in_record f i # pe_inRecords e | Some _ \<Rightarrow> pe_inRecords e"
  have n: "i_name (snd (getNonce rnd i)) = i_name i" by (simp add: getNonce_def split: option.split)
  have "set (update_first (\<lambda>r. fr_face r = f) (InRecord_update rnd now i) ?rs) \<subseteq>
      insert (new_in_record f i) (set (pe_inRecords e)) \<union> {InRecord_update rnd now i r | r. fr_face r = f}"
    using set_update_first [of "\<lambda>r. fr_face r = f" "InRecord_update rnd now i" ?rs] by (auto split: option.splits)
  moreover have "i_name (ir_interest (new_in_record f i)) = i_name i" by (simp add: new_in_record_def)
  moreover have "i_name (ir_interest (InRecord_update rnd now i r)) = i_name i" for r
    using n by (simp add: InRecord_update_def)
  ultimately show ?thesis
    using assms by (auto simp: entry_ok_def insertOrUpdateInRecord_def Let_def)
qed

section \<open>Steps that keep the invariant\<close>

lemma tables_okD: "tables_ok s \<Longrightarrow> nt_inv (ntree s)"
  by (simp add: tables_ok_def fib_inv_def)

text \<open>An operation that keeps the FIB, the measurements and the strategy choices.\<close>

lemma tables_ok_pit:
  assumes "tables_ok s" "pit_inv s'"
    and "nt_fib (ntree s') = nt_fib (ntree s)" "fib_nItems s' = fib_nItems s"
    and "nt_meas (ntree s') = nt_meas (ntree s)" "meas_nItems s' = meas_nItems s"
    and "nt_strategy (ntree s') = nt_strategy (ntree s)" "sc_nItems s' = sc_nItems s"
  shows "tables_ok s'"
  using assms by (simp add: tables_ok_def fib_inv_def meas_inv_def sc_inv_def pit_inv_def)

lemma fw_inv_bump:
  assumes "fw_inv sha s" and "\<And>c. nOutInterests (f c) = nOutInterests c \<and> nOutData (f c) = nOutData c"
  shows "fw_inv sha (bump f s)"
  using assms by (simp add: fw_inv_defs bump_def fib_inv_def pit_inv_def meas_inv_def sc_inv_def fib_nexthop_def)

lemma fw_inv_modify:
  assumes "fw_inv sha s" and "keeps_identity f"
    and "\<And>e. pit_heap s p = Some e \<Longrightarrow> entry_ok (ft_store (fw_faceTable s)) e \<Longrightarrow> entry_ok (ft_store (fw_faceTable s)) (f e)"
  shows "fw_inv sha (pit_modify p f s)"
proof -
  have s: "tables_ok s" "pit_inv s" using assms(1) by (simp_all add: fw_inv_def tables_ok_def)
  have m: "pit_modify p f s = s\<lparr>pit_heap := (pit_heap s)(p := map_option f (pit_heap s p))\<rparr>"
    by (simp add: pit_modify_def)
  have "tables_ok (pit_modify p f s)"
    by (rule tables_ok_pit [OF s(1) pit_inv_modify [OF s(2) assms(2)]]) (simp_all add: m)
  moreover have "refs_ok (pit_modify p f s)"
    unfolding refs_ok_def
  proof (intro conjI allI impI)
    fix q e
    assume "pit_heap (pit_modify p f s) q = Some e"
    then show "entry_ok (ft_store (fw_faceTable (pit_modify p f s))) e"
      using assms(1,3) by (auto simp: m fw_inv_def refs_ok_def split: if_splits)
  qed (use assms(1) in \<open>simp add: fw_inv_def refs_ok_def\<close>)
  ultimately show ?thesis
    using assms(1) by (simp add: fw_inv_def log_ok_def counted_def m)
qed

lemma packet_ok_same: "same_face f g \<Longrightarrow> packet_ok f pkt = packet_ok g pkt"
  by (cases pkt) (auto simp: same_face_def)

lemma entry_ok_same: "(\<And>f. same_face (store f) (store' f)) \<Longrightarrow> entry_ok store e = entry_ok store' e"
  by (simp add: entry_ok_def same_face_def)

lemma fw_inv_face_modify:
  assumes inv: "fw_inv sha s" and "\<And>f. same_face (g f) f"
  shows "fw_inv sha (face_modify p g s)"
proof -
  have same: "same_face (fw_face (face_modify p g s) f) (fw_face s f)" for f
    using assms(2) by (simp add: face_modify_def same_face_def)
  then have ids: "f_id (fw_face (face_modify p g s) f) = f_id (fw_face s f)" for f by (simp add: same_face_def)
  have rest: "ntree (face_modify p g s) = ntree s" "pit_heap (face_modify p g s) = pit_heap s"
    "fw_sent (face_modify p g s) = fw_sent s" "ft_faces (fw_faceTable (face_modify p g s)) = ft_faces (fw_faceTable s)"
    "ft_lastFaceId (fw_faceTable (face_modify p g s)) = ft_lastFaceId (fw_faceTable s)"
    by (simp_all add: face_modify_def)
  have "ft_inv (fw_faceTable (face_modify p g s))"
    using inv ids rest by (simp add: fw_inv_def ft_inv_def)
  moreover have "refs_ok (face_modify p g s)"
    using inv entry_ok_same [OF same] ids rest by (simp add: fw_inv_def refs_ok_def fib_nexthop_def)
  moreover have "log_ok (face_modify p g s)"
    using inv packet_ok_same [OF same] rest by (simp add: fw_inv_def log_ok_def)
  ultimately show ?thesis
    using inv by (simp add: fw_inv_def counted_def tables_ok_def fib_inv_def pit_inv_def meas_inv_def sc_inv_def face_modify_def)
qed

lemma fw_inv_send:
  assumes "fw_inv sha s" "packet_ok (fw_face s f) pkt"
    and "\<And>c. nOutInterests (g c) = nOutInterests c + (if is_interest pkt then 1 else 0)"
    and "\<And>c. nOutData (g c) = nOutData c + (if is_data pkt then 1 else 0)"
  shows "fw_inv sha (bump g (face_send f pkt s))"
  using assms
  by (auto simp: fw_inv_defs bump_def face_send_def fib_inv_def pit_inv_def meas_inv_def sc_inv_def fib_nexthop_def)

lemma fw_inv_send_nack:
  assumes "fw_inv sha s" "packet_ok (fw_face s f) (NackPacket i r)"
  shows "fw_inv sha (face_send f (NackPacket i r) s)"
  using fw_inv_send [OF assms, of id] by (simp add: bump_def)

lemma fw_inv_timer [inv_intros]: "fw_inv sha s \<Longrightarrow> fw_inv sha (setExpiryTimer env p d s)"
  unfolding setExpiryTimer_def Let_def by (rule fw_inv_modify) (simp_all add: keeps_identity_ops entry_ok_ops)

lemma fw_invD:
  assumes "fw_inv sha s"
  shows "tables_ok s" "cs_inv sha (fw_cs s)" "dnl_inv (fw_dnl s)" "ft_inv (fw_faceTable s)"
    and "fib_nexthop s f \<Longrightarrow> f_id (fw_face s f) \<noteq> INVALID_FACEID"
    and "pit_heap s p = Some e \<Longrightarrow> entry_ok (ft_store (fw_faceTable s)) e"
    and "cs_fresh (fw_cs s)"
  using assms by (auto simp: fw_inv_def refs_ok_def)

lemma getNonce_keeps [simp]:
  "i_name (snd (getNonce r i)) = i_name i" "i_hopLimit (snd (getNonce r i)) = i_hopLimit i"
  "i_nextHopFaceId (snd (getNonce r i)) = i_nextHopFaceId i" "i_function (snd (getNonce r i)) = i_function i"
  by (simp_all add: getNonce_def split: option.split)

lemma onOutgoingInterest_inv:
  assumes inv: "fw_inv sha s" and "f_id (fw_face s egress) \<noteq> INVALID_FACEID"
    and "violates_localhost (fw_face s egress) (i_name i) \<Longrightarrow> i_nextHopFaceId i \<noteq> None"
  shows "fw_inv sha (fst (onOutgoingInterest env p egress i s))"
proof (cases "i_hopLimit i = Some 0 \<and> f_scope (fw_face s egress) = FACE_SCOPE_NON_LOCAL")
  case True
  then show ?thesis
    by (simp add: onOutgoingInterest_def) (rule fw_inv_face_modify [OF inv], simp add: same_face_def)
next
  case False
  let ?s = "pit_modify p (insertOrUpdateOutRecord (e_nonce env) (e_now env) egress i) s"
  have "fw_inv sha ?s"
    using assms by (intro fw_inv_modify) (simp_all add: keeps_identity_ops entry_ok_insertOut)
  moreover have "packet_ok (fw_face ?s egress) (InterestPacket (snd (getNonce (e_nonce env) i)))"
    using False assms(3) by auto
  ultimately show ?thesis
    using False by (auto simp: onOutgoingInterest_def Let_def intro: fw_inv_send)
qed

lemma onOutgoingData_inv: "fw_inv sha s \<Longrightarrow> fw_inv sha (fst (onOutgoingData d egress s))"
  by (auto simp: onOutgoingData_def Let_def intro: fw_inv_send)

lemma onOutgoingNack_inv:
  assumes inv: "fw_inv sha s"
  shows "fw_inv sha (fst (onOutgoingNack p egress reason s))"
proof (cases "fst (onOutgoingNack p egress reason s) = s")
  case False
  then obtain e r where e: "pit_heap s p = Some e" "getInRecord egress e = Some r"
    "f_linkType (fw_face s egress) = LINK_TYPE_POINT_TO_POINT" "f_id (fw_face s egress) \<noteq> INVALID_FACEID"
    by (auto simp: onOutgoingNack_def Let_def bind_eq_Some_conv split: if_splits option.splits)
  let ?s = "pit_modify p (deleteInRecord egress) s"
  have "fw_inv sha ?s" by (rule fw_inv_modify [OF inv]) (simp_all add: keeps_identity_ops entry_ok_ops)
  moreover have "r \<in> set (pe_inRecords e) \<and> fr_face r = egress"
    using e(2) unfolding getInRecord_def by (rule find_SomeD)
  then have "packet_ok (fw_face ?s egress) (NackPacket (ir_interest r) reason)"
    using fw_invD(6) [OF inv e(1)] e(3) by (auto simp: entry_ok_def)
  ultimately show ?thesis
    using e by (auto simp: onOutgoingNack_def Let_def intro!: fw_inv_send)
qed (use inv in simp)

lemma sendData_inv: "fw_inv sha s \<Longrightarrow> fw_inv sha (fst (sendData p d egress s))"
  using fw_inv_modify [of sha s "deleteInRecord egress" p]
  by (simp add: sendData_def Let_def onOutgoingData_inv keeps_identity_ops entry_ok_ops split: option.split)

lemma action_inv: "action env p s s' \<Longrightarrow> fw_inv sha s \<Longrightarrow> fw_inv sha s'"
proof (induction rule: action.induct)
  case (act_interest s ingress i egress)
  then show ?case
    by (intro onOutgoingInterest_inv) (auto simp: fw_invD wouldViolateScope_def)
next
  case (act_info g s)
  have "entry_ok store e \<Longrightarrow> entry_ok store (g e)" for store e using act_info.hyps [of e] entry_ok_ops(7) by metis
  with act_info show ?case by (intro fw_inv_modify keeps_identity_info)
next
  case (act_record_info g f s)
  have "entry_ok store e \<Longrightarrow> entry_ok store (g e)" for store e
    using act_record_info.hyps [of e] by (auto simp: entry_ok_or_modify)
  with act_record_info show ?case by (intro fw_inv_modify keeps_identity_record_info)
qed (simp_all add: sendData_inv onOutgoingNack_inv sendNack_def fw_inv_timer)

lemma actions_inv: "actions env p s s' \<Longrightarrow> fw_inv sha s \<Longrightarrow> fw_inv sha s'"
  by (induction rule: rtranclp_induct) (auto intro: action_inv)

section \<open>Changes of the PIT\<close>

lemma fib_nexthop_view: "nt_fib (ntree s') = nt_fib (ntree s) \<Longrightarrow> fib_nexthop s' f = fib_nexthop s f"
  by (simp add: fib_nexthop_def)

lemma fw_inv_pit:
  assumes inv: "fw_inv sha s" and "pit_inv s'"
    and views: "nt_fib (ntree s') = nt_fib (ntree s)" "nt_meas (ntree s') = nt_meas (ntree s)"
      "nt_strategy (ntree s') = nt_strategy (ntree s)"
    and "fib_nItems s' = fib_nItems s" "meas_nItems s' = meas_nItems s" "sc_nItems s' = sc_nItems s"
    and "fw_cs s' = fw_cs s" "fw_dnl s' = fw_dnl s" "fw_faceTable s' = fw_faceTable s" "fw_counters s' = fw_counters s"
      "fw_sent s' = fw_sent s"
    and "\<And>p e. pit_heap s' p = Some e \<Longrightarrow> entry_ok (ft_store (fw_faceTable s)) e"
  shows "fw_inv sha s'"
proof -
  have "tables_ok s'" by (rule tables_ok_pit [OF fw_invD(1) [OF inv]]) (simp_all add: assms)
  moreover have "refs_ok s'"
    using assms(14) inv by (simp add: refs_ok_def assms(11) fib_nexthop_view [OF views(1)] fw_invD)
  ultimately show ?thesis using inv by (simp add: fw_inv_def log_ok_def counted_def assms(9-13))
qed

text \<open>An entry is found, or a new one is attached.\<close>

lemma findOrInsert_fw:
  assumes inv: "fw_inv sha s" and small: "interest_small i"
  obtains p e where "findOrInsert i True s = (fst (findOrInsert i True s), Some p, pit_abs s (interest_key i) = None)"
    "pit_heap (fst (findOrInsert i True s)) p = Some e" "pe_nte e \<noteq> None"
    "fw_inv sha (fst (findOrInsert i True s))"
    "fw_faceTable (fst (findOrInsert i True s)) = fw_faceTable s" "fw_sent (fst (findOrInsert i True s)) = fw_sent s"
proof -
  let ?n = "Interest_getNameFunction i" and ?s = "fst (findOrInsert i True s)"
  have pit: "pit_inv s" using fw_invD(1) [OF inv] by (simp add: tables_ok_def)
  have pit': "pit_inv ?s" by (rule findOrInsert_inv [OF pit small])
  have ok: "pit_ok (nt_pits (ntree s)) (pit_heap s) (pit_next s) (pit_nItems s)" using pit by (simp add: pit_inv_def)
  note eq = findOrInsert_insert [OF pit small]
  have inv': "fw_inv sha ?s"
  proof (rule fw_inv_pit [OF inv pit'])
    show "entry_ok (ft_store (fw_faceTable s)) e" if "pit_heap ?s p = Some e" for p e
      using that fw_invD(6) [OF inv] entry_ok_ops(9)
      by (auto simp: eq Let_def split: option.splits if_splits)
  qed (simp_all add: eq Let_def table_simps split: option.split)
  show thesis
  proof (cases "pit_abs s (interest_key i)")
    case None
    then show thesis using that inv' by (simp add: eq Let_def)
  next
    case (Some p)
    then obtain e where "pit_heap s p = Some e" "pe_nte e \<noteq> None"
      by (auto simp: pit_abs_Some [OF ok] pit_live_Some)
    then show thesis using that inv' Some by (simp add: eq Let_def)
  qed
qed

lemma Pit_erase_fw:
  assumes inv: "fw_inv sha s"
  shows "fw_inv sha (Pit_erase p True s)"
proof (rule fw_inv_pit [OF inv])
  have pit: "pit_inv s" and nt: "nt_inv (ntree s)"
    using fw_invD(1) [OF inv] by (simp_all add: tables_ok_def pit_inv_def)
  show "pit_inv (Pit_erase p True s)" by (rule Pit_erase_inv [OF pit])
  have e: "nt_inv (nt_update n (erasePitEntry p) (ntree s))" for n by (rule nt_inv_pit_ops [OF nt])
  show "nt_fib (ntree (Pit_erase p True s)) = nt_fib (ntree s)"
    "nt_meas (ntree (Pit_erase p True s)) = nt_meas (ntree s)"
    "nt_strategy (ntree (Pit_erase p True s)) = nt_strategy (ntree s)"
    using e by (simp_all add: Pit_erase_def Let_def table_simps split: option.split)
  show "entry_ok (ft_store (fw_faceTable s)) e" if "pit_heap (Pit_erase p True s) q = Some e" for q e
    using that fw_invD(6) [OF inv] entry_ok_ops(8)
    by (auto simp: Pit_erase_def Let_def split: option.splits if_splits)
qed (simp_all add: Pit_erase_def Let_def split: option.split)

lemma DeadNonceList_add_inv: "dnl_inv d \<Longrightarrow> dnl_inv (DeadNonceList_add city n nonce d)"
  using dnl_step_inv [of d city "Add n nonce"] by simp

lemma fw_inv_dnl: "fw_inv sha s \<Longrightarrow> dnl_inv d \<Longrightarrow> fw_inv sha (s\<lparr>fw_dnl := d\<rparr>)"
  by (simp add: fw_inv_defs fib_inv_def pit_inv_def meas_inv_def sc_inv_def fib_nexthop_def)

lemma fw_inv_cs: "fw_inv sha s \<Longrightarrow> cs_inv sha c \<Longrightarrow> cs_fresh c \<Longrightarrow> fw_inv sha (s\<lparr>fw_cs := c\<rparr>)"
  by (simp add: fw_inv_defs fib_inv_def pit_inv_def meas_inv_def sc_inv_def fib_nexthop_def)

lemma insertDeadNonces_frame:
  "insertDeadNonces env e up s = s\<lparr>fw_dnl := fw_dnl (insertDeadNonces env e up s)\<rparr>"
  "dnl_inv (fw_dnl s) \<Longrightarrow> dnl_inv (fw_dnl (insertDeadNonces env e up s))"
proof -
  show "insertDeadNonces env e up s = s\<lparr>fw_dnl := fw_dnl (insertDeadNonces env e up s)\<rparr>"
    by (simp add: insertDeadNonces_def Let_def split: option.split)
  have "dnl_inv (fw_dnl s) \<Longrightarrow>
      dnl_inv (fold (\<lambda>r. DeadNonceList_add (e_city env) (i_name (pe_interest e)) (fr_lastNonce r)) rs (fw_dnl s))"
    for rs :: "out_record list"
    by (induction rs rule: rev_induct) (simp_all add: DeadNonceList_add_inv)
  then show "dnl_inv (fw_dnl s) \<Longrightarrow> dnl_inv (fw_dnl (insertDeadNonces env e up s))"
    by (simp add: insertDeadNonces_def Let_def DeadNonceList_add_inv split: option.split)
qed

lemma insertDeadNonceList_Inr:
  assumes "insertDeadNonceList env e up s = Inr s'"
  obtains d where "s' = s\<lparr>fw_dnl := d\<rparr>" "dnl_inv (fw_dnl s) \<Longrightarrow> dnl_inv d"
proof (cases "s' = s")
  case True
  then show thesis using that [of "fw_dnl s"] by simp
next
  case False
  then have "s' = insertDeadNonces env e up s"
    using assms by (auto simp: insertDeadNonceList_def Let_def split: if_splits)
  then show thesis using that insertDeadNonces_frame by metis
qed

lemma insertDeadNonceList_total:
  "pe_dataFreshnessPeriod e \<ge> 0 \<Longrightarrow> \<exists>s'. insertDeadNonceList env e up s = Inr s'"
  by (simp add: insertDeadNonceList_def Let_def)

lemma insertDeadNonceList_inv: "fw_inv sha s \<Longrightarrow> insertDeadNonceList env e up s = Inr s' \<Longrightarrow> fw_inv sha s'"
  by (erule insertDeadNonceList_Inr) (simp add: fw_inv_dnl fw_invD(3))

lemma onInterestFinalize_inv:
  assumes inv: "fw_inv sha s"
  obtains s' where "onInterestFinalize env p s = Inr s'" "fw_inv sha s'"
proof (cases "pit_heap s p")
  case (Some e)
  have "pe_dataFreshnessPeriod e \<ge> 0" using fw_invD(6) [OF inv Some] by (simp add: entry_ok_def)
  with insertDeadNonceList_total obtain s1 where s1: "insertDeadNonceList env e None s = Inr s1" by blast
  then have "fw_inv sha s1" by (rule insertDeadNonceList_inv [OF inv])
  then have "fw_inv sha (Pit_erase p True (pit_modify p (\<lambda>e. e\<lparr>pe_expiryTimer := None\<rparr>)
      (bump (\<lambda>c. if pe_isSatisfied e then c\<lparr>nSatisfiedInterests := nSatisfiedInterests c + 1\<rparr>
        else c\<lparr>nUnsatisfiedInterests := nUnsatisfiedInterests c + 1\<rparr>) s1)))"
    by (intro Pit_erase_fw fw_inv_modify fw_inv_bump) (simp_all add: keeps_identity_ops entry_ok_ops)
  with that show thesis using Some s1 by (simp add: onInterestFinalize_def Let_def)
qed (use that inv in \<open>simp add: onInterestFinalize_def\<close>)

section \<open>The Data of the store\<close>

lemma table_emplace_subset: "set (fst (table_emplace sha e t)) \<subseteq> insert e (set t)"
  by (induction t) (auto split: prod.split)

lemma table_modify_data:
  "(\<And>e. ce_data (f e) = ce_data e) \<Longrightarrow> ce_data ` set (table_modify sha k f t) = ce_data ` set t"
  unfolding table_modify_def by (rule image_key_update_first)

lemma evictEntries_subset: "set (fst (evictEntries sha limit t p)) \<subseteq> set t"
proof (induction sha limit t p rule: evictEntries.induct)
  case (1 sha limit t p)
  have "set (table_erase sha i t) \<subseteq> set t" for i by (simp add: table_erase_def set_delete_first_subset)
  then have "set (fst (evictEntries sha limit (table_erase sha i t) p')) \<subseteq> set t"
    if "limit < length t" "policy_evictOne p = Some (i, p')" for i p'
    using 1 [OF that refl] by blast
  then show ?case by (subst evictEntries.simps) (simp split: option.split)
qed

lemma Cs_insert_data: "ce_data ` set (cs_table (Cs_insert sha now d u c)) \<subseteq> insert d (ce_data ` set (cs_table c))"
proof -
  obtain t b where em: "table_emplace sha (CsEntry_new now d u) (cs_table c) = (t, b)" by fastforce
  then have t: "ce_data ` set t \<subseteq> insert d (ce_data ` set (cs_table c))"
    using table_emplace_subset [of sha "CsEntry_new now d u" "cs_table c"]
    by (auto simp: CsEntry_new_def updateFreshUntil_def dest: subsetD)
  have evict: "set (cs_table (Cs_evict sha c')) \<subseteq> set (cs_table c')" for c'
    using evictEntries_subset [of sha "cs_limit c'" "cs_table c'" "cs_policy c'"] by (auto simp: Cs_evict_def split: prod.split)
  let ?k = "(d_name d, Data_digest sha d)"
  define t1 where "t1 = table_modify sha ?k (updateFreshUntil now) t"
  define t2 where "t2 = table_modify sha ?k (\<lambda>e. if ce_isUnsolicited e \<and> \<not> u then clearUnsolicited e else e) t1"
  have t1: "ce_data ` set t1 = ce_data ` set t"
    unfolding t1_def by (rule table_modify_data) (simp add: updateFreshUntil_def)
  have t2: "ce_data ` set t2 = ce_data ` set t1"
    unfolding t2_def by (rule table_modify_data) (simp add: clearUnsolicited_def)
  define r where "r = cs_table (Cs_insert sha now d u c)"
  have "r = cs_table c \<or> set r \<subseteq> set t1 \<or> r = t2"
    using evict [of "c\<lparr>cs_table := t1, cs_policy := _\<rparr>"]
    unfolding r_def Cs_insert_def em prod.case Let_def t1_def [symmetric] t2_def [symmetric]
    by (simp split: option.split)
  then show ?thesis
  proof (elim disjE)
    assume "set r \<subseteq> set t1"
    from image_mono [OF this, of ce_data] show ?thesis using t unfolding t1 r_def by (rule subset_trans)
  qed (use t t1 t2 r_def in auto)
qed

lemma cs_fresh_data: "cs_fresh c \<longleftrightarrow> (\<forall>d \<in> ce_data ` set (cs_table c). d_freshnessPeriod d \<ge> 0)"
  by (simp add: cs_fresh_def)

lemma cs_fresh_insert: "cs_fresh c \<Longrightarrow> d_freshnessPeriod d \<ge> 0 \<Longrightarrow> cs_fresh (Cs_insert sha now d u c)"
  using Cs_insert_data [of sha now d u c] by (auto simp: cs_fresh_data)

lemma cs_fresh_stale: "cs_fresh (Cs_staleEvent k c) = cs_fresh c"
  by (simp add: cs_fresh_def Cs_staleEvent_def split: policy.split)

lemma cs_fresh_find:
  assumes "cs_fresh c" "Cs_find sha now i c = (c', hit)"
  shows "cs_fresh c'" "hit = Some e \<Longrightarrow> d_freshnessPeriod (ce_data e) \<ge> 0"
  using assms
  by (auto simp: cs_fresh_def Cs_find_def split: if_splits prod.splits option.splits
      dest!: find_SomeD in_set_takeD in_set_dropD)

section \<open>Strategies exist\<close>

lemma lpm_entry_exists:
  assumes inv: "nt_inv t" and "nt_find t n \<noteq> None" and root: "\<And>e. nt_find t [] = Some e \<Longrightarrow> sel e"
  shows "lpm_entry t sel n \<noteq> None"
  using assms(2)
proof (induction n rule: rev_induct)
  case Nil
  then show ?case using root by (subst lpm_entry.simps) (auto split: option.split)
next
  case (snoc c n)
  then have "nt_find t n \<noteq> None" using inv find_invD(3) [of "nt_find t" "n @ [c]"] by (auto simp: nt_inv_iff)
  with snoc show ?case by (subst lpm_entry.simps) (auto split: option.split)
qed

lemma lpm_entry_sel: "lpm_entry t sel n = Some x \<Longrightarrow> sel x"
  by (induction n rule: rev_induct; subst (asm) lpm_entry.simps) (auto split: option.splits if_splits)

lemma go_deeper_present: "nt_find t at \<noteq> None \<Longrightarrow> nt_find t (go_deeper t n i k at) \<noteq> None"
proof (induction t n i k at rule: go_deeper.induct)
  case (2 t n i k at)
  show ?case
  proof (cases "findExactMatch n i t")
    case (Some e)
    then have "nt_find t (nte_name e) = Some e"
      by (auto simp: findExactMatch_def Let_def intro: nt_find_self split: if_splits)
    with 2 Some show ?thesis by simp
  qed (use 2 in simp)
qed simp

lemma strategy_of_exists:
  assumes inv: "fw_inv sha s" and e: "pit_heap s p = Some e" "pe_nte e \<noteq> None"
  shows "\<exists>st. strategy_of vt p s = Some (vt st)"
proof -
  obtain at where at: "pe_nte e = Some at" using e(2) by blast
  have t: "nt_inv (ntree s)" "pit_ok (nt_pits (ntree s)) (pit_heap s) (pit_next s) (pit_nItems s)"
    "nt_strategy (ntree s) [] \<noteq> None"
    using fw_invD(1) [OF inv] by (simp_all add: tables_ok_def pit_inv_def sc_inv_def)
  have "p \<in> set (nt_pits (ntree s) at)" using pit_okD(2) [OF t(2)] e(1) at by blast
  then have "nt_find (ntree s) at \<noteq> None" by (intro nt_pits_present) auto
  note deeper = go_deeper_present [OF this]
  have "nteHasStrategyChoiceEntry x" if "nt_find (ntree s) [] = Some x" for x
    using t(3) that by (simp add: nteHasStrategyChoiceEntry_def nt_strategy_def nt_get_def)
  then have "lpm_pit (ntree s) nteHasStrategyChoiceEntry (i_name (pe_interest e)) at \<noteq> None"
    unfolding lpm_pit_def Let_def using deeper \<open>nt_find (ntree s) at \<noteq> None\<close>
    by (intro lpm_entry_exists [OF t(1)]) (simp_all split: if_split)
  then obtain x where x: "lpm_pit (ntree s) nteHasStrategyChoiceEntry (i_name (pe_interest e)) at = Some x" by blast
  have "nte_strategy x \<noteq> None"
    using lpm_entry_sel [OF x [unfolded lpm_pit_def Let_def]] by (simp add: nteHasStrategyChoiceEntry_def)
  with e at x show ?thesis
    by (auto simp: strategy_of_def findEffectiveStrategy_pit_def effective_of_def)
qed

end
