(* ===== verification/ForwarderSafety.thy ===== *)
theory ForwarderSafety
  imports ForwarderInv
begin

text \<open>
  Every event keeps the invariant of the forwarder, and no assertion of the pipelines fails, for any
  strategies that keep their contract.
\<close>

definition contracts :: "strategies \<Rightarrow> bool" where
  "contracts vt \<longleftrightarrow> (\<forall>st. strategy_contract (vt st))"

definition outcome_ok :: "(bytes \<Rightarrow> bytes) \<Rightarrow> packet_error + fw_state \<Rightarrow> bool" where
  "outcome_ok sha r \<longleftrightarrow> (case r of Inr s' \<Rightarrow> fw_inv sha s' | Inl err \<Rightarrow> err \<noteq> AssertionFailed)"

lemma outcome_ok_simps [simp]:
  "outcome_ok sha (Inr s) = fw_inv sha s" "outcome_ok sha (Inl err) = (err \<noteq> AssertionFailed)"
  by (simp_all add: outcome_ok_def)

section \<open>Attached entries\<close>

definition attached :: "fw_state \<Rightarrow> pit_id \<Rightarrow> bool" where
  "attached s p \<longleftrightarrow> (\<exists>e. pit_heap s p = Some e \<and> pe_nte e \<noteq> None)"

lemma attached_frame: "fw_frame p s s' \<Longrightarrow> attached s' q = attached s q"
proof -
  assume f: "fw_frame p s s'"
  have "map_option pe_nte (pit_heap s' q) = map_option pe_nte (pit_heap s q)"
  proof (cases "q = p")
    case True
    from f have "map_option (\<lambda>e. (pe_interest e, pe_nte e)) (pit_heap s' p) =
        map_option (\<lambda>e. (pe_interest e, pe_nte e)) (pit_heap s p)" by (simp add: fw_frame_def)
    then have "map_option snd (map_option (\<lambda>e. (pe_interest e, pe_nte e)) (pit_heap s' p)) =
        map_option snd (map_option (\<lambda>e. (pe_interest e, pe_nte e)) (pit_heap s p))" by (rule arg_cong)
    then show ?thesis using True by (simp add: option.map_comp comp_def)
  qed (use f in \<open>simp add: fw_frame_def\<close>)
  then show ?thesis by (cases "pit_heap s' q"; cases "pit_heap s q") (auto simp: attached_def)
qed

lemma attached_ops [simp]:
  "attached (bump f s) p = attached s p" "attached (s\<lparr>fw_cs := c\<rparr>) p = attached s p"
  "attached (s\<lparr>fw_dnl := d\<rparr>) p = attached s p" "attached (setExpiryTimer env q t s) p = attached s p"
  by (auto simp: attached_def bump_def setExpiryTimer_def pit_modify_def Let_def split: option.split)

lemma attached_modify: "keeps_identity f \<Longrightarrow> attached (pit_modify q f s) p = attached s p"
  by (rule attached_frame [OF fw_frame_modify [OF fw_frame_refl]])

lemma strategy_for:
  assumes "contracts vt" "fw_inv sha s" "attached s p"
  obtains st where "strategy_of vt p s = Some st" "strategy_contract st"
  using strategy_of_exists [OF assms(2), of p _ vt] assms(1,3) by (auto simp: attached_def contracts_def)

section \<open>Interests\<close>

lemma onInterestLoop_inv:
  assumes "fw_inv sha s" "\<not> violates_localhost (fw_face s ingress) (i_name i)"
  shows "fw_inv sha (onInterestLoop ingress i s)"
  using assms by (auto simp: onInterestLoop_def intro!: fw_inv_send_nack)

lemma onContentStoreMiss_ok:
  assumes vt: "contracts vt" and env: "env_ok env" and inv: "fw_inv sha s" and p: "attached s p"
    and ing: "f_id (fw_face s ingress) \<noteq> INVALID_FACEID" "\<not> violates_localhost (fw_face s ingress) (i_name i)"
  shows "outcome_ok sha (onContentStoreMiss vt env ingress p i s)"
proof -
  define s1 where "s1 = bump (\<lambda>c. c\<lparr>nCsMisses := nCsMisses c + 1\<rparr>) s"
  define s2 where "s2 = pit_modify p (insertOrUpdateInRecord (e_nonce env) (e_now env) ingress i) s1"
  have ft: "fw_faceTable s1 = fw_faceTable s" "fw_faceTable s2 = fw_faceTable s"
    by (simp_all add: s1_def s2_def bump_def)
  have "fw_inv sha s1" unfolding s1_def by (rule fw_inv_bump [OF inv]) simp
  then have i2: "fw_inv sha s2"
    unfolding s2_def by (rule fw_inv_modify) (use ing ft in \<open>simp_all add: keeps_identity_ops entry_ok_insertIn\<close>)
  have "attached s2 p" using p by (simp add: s1_def s2_def attached_modify keeps_identity_ops)
  then obtain e where e: "pit_heap s2 p = Some e" by (auto simp: attached_def)
  define s3 where "s3 = setExpiryTimer env p (trunc_ms (lastExpiring (pe_inRecords e) - e_now env)) s2"
  have i3: "fw_inv sha s3" and a3: "attached s3 p" using fw_inv_timer [OF i2] \<open>attached s2 p\<close> by (simp_all add: s3_def)
  have res: "onContentStoreMiss vt env ingress p i s =
      (case i_nextHopFaceId i of
         Some tag \<Rightarrow> (case FaceTable_get tag (fw_faceTable s3) of
              Some f \<Rightarrow> Inr (fst (onOutgoingInterest env p f i s3)) | None \<Rightarrow> Inr s3)
       | None \<Rightarrow> (case strategy_of vt p s3 of
              None \<Rightarrow> Inl AssertionFailed | Some st \<Rightarrow> vt_afterReceiveInterest st env ingress i p s3))"
    unfolding onContentStoreMiss_def Let_def s1_def [symmetric] s2_def [symmetric] e option.simps(5) s3_def [symmetric] ..
  show ?thesis
  proof (cases "i_nextHopFaceId i")
    case None
    obtain st where st: "strategy_of vt p s3 = Some st" "strategy_contract st"
      using strategy_for [OF vt i3 a3] by blast
    show ?thesis
    proof (cases "vt_afterReceiveInterest st env ingress i p s3")
      case (Inr s')
      with strategy_contract.afterReceiveInterest [OF st(2) env] have "actions env p s3 s'" by blast
      with i3 Inr st None show ?thesis by (simp add: res actions_inv)
    qed (use strategy_contract.no_assertion [OF st(2)] st(1) None in \<open>auto simp: res\<close>)
  next
    case (Some tag)
    have "f_id (fw_face s3 f) \<noteq> INVALID_FACEID" if "FaceTable_get tag (fw_faceTable s3) = Some f" for f
      using that ft_get_iff [OF fw_invD(4) [OF i3]] fw_invD(4) [OF i3] by (auto simp: ft_inv_def)
    with Some i3 show ?thesis by (auto simp: res intro!: onOutgoingInterest_inv split: option.split)
  qed
qed

lemma onContentStoreHit_ok:
  assumes vt: "contracts vt" and env: "env_ok env" and inv: "fw_inv sha s" and p: "attached s p"
    and d: "d_freshnessPeriod d \<ge> 0"
  shows "outcome_ok sha (onContentStoreHit vt env ingress p i d s)"
proof -
  define s1 where "s1 = setExpiryTimer env p 0 (pit_modify p (\<lambda>e. e\<lparr>pe_dataFreshnessPeriod := d_freshnessPeriod d\<rparr>)
    (pit_modify p (\<lambda>e. e\<lparr>pe_isSatisfied := True\<rparr>) (bump (\<lambda>c. c\<lparr>nCsHits := nCsHits c + 1\<rparr>) s)))"
  have i1: "fw_inv sha s1"
    unfolding s1_def using d
    by (intro fw_inv_timer fw_inv_modify fw_inv_bump inv) (simp_all add: keeps_identity_ops entry_ok_ops)
  have "attached s1 p" using p by (simp add: s1_def attached_modify keeps_identity_ops)
  with strategy_for [OF vt i1] obtain st where st: "strategy_of vt p s1 = Some st" "strategy_contract st" by blast
  have "fw_inv sha (vt_afterContentStoreHit st env p ingress
      (d\<lparr>d_incomingFaceId := Some FACEID_CONTENT_STORE, d_pitToken := i_pitToken i\<rparr>) s1)"
    by (rule actions_inv [OF strategy_contract.afterContentStoreHit [OF st(2) env] i1])
  with st(1) show ?thesis by (simp add: onContentStoreHit_def Let_def s1_def [symmetric])
qed

lemma onIncomingInterest_pit_ok:
  assumes vt: "contracts vt" and env: "env_ok env" "e_sha env = sha" and inv: "fw_inv sha s" and small: "interest_small i"
    and ing: "f_id (fw_face s ingress) \<noteq> INVALID_FACEID" "\<not> violates_localhost (fw_face s ingress) (i_name i)"
  shows "outcome_ok sha (onIncomingInterest_pit vt env ingress nonce i s)"
proof -
  obtain p e where r: "findOrInsert i True s = (fst (findOrInsert i True s), Some p, pit_abs s (interest_key i) = None)"
    and e: "pit_heap (fst (findOrInsert i True s)) p = Some e" "pe_nte e \<noteq> None"
    and i1: "fw_inv sha (fst (findOrInsert i True s))" and ft: "fw_faceTable (fst (findOrInsert i True s)) = fw_faceTable s"
    by (rule findOrInsert_fw [OF inv small]) blast
  define s1 where "s1 = fst (findOrInsert i True s)"
  note i1 = i1 [folded s1_def] and e = e [folded s1_def]
  have ing1: "f_id (fw_face s1 ingress) \<noteq> INVALID_FACEID" "\<not> violates_localhost (fw_face s1 ingress) (i_name i)"
    using ing ft by (simp_all add: s1_def)
  obtain cs hit where cs: "Cs_find (e_sha env) (e_now env) i (fw_cs s1) = (cs, hit)" by fastforce
  have csi: "fw_inv sha (s1\<lparr>fw_cs := cs\<rparr>)"
    using Cs_find_inv [OF fw_invD(2) [OF i1], of "e_now env" i] cs env(2) cs_fresh_find(1) [OF fw_invD(7) [OF i1] cs]
    by (intro fw_inv_cs [OF i1]) simp_all
  have p: "attached s1 p" using e by (auto simp: attached_def)
  have "outcome_ok sha (onContentStoreMiss vt env ingress p i s1)"
    "outcome_ok sha (onContentStoreMiss vt env ingress p i (s1\<lparr>fw_cs := cs\<rparr>))"
    "outcome_ok sha (Inr (onInterestLoop ingress i s1))"
    "hit = Some ce \<Longrightarrow> outcome_ok sha (onContentStoreHit vt env ingress p i (ce_data ce) (s1\<lparr>fw_cs := cs\<rparr>))" for ce
    using ing1 p cs_fresh_find(2) [OF fw_invD(7) [OF i1] cs]
    by (auto intro: onContentStoreMiss_ok [OF vt env(1)] onContentStoreHit_ok [OF vt env(1)] i1 csi onInterestLoop_inv)
  then show ?thesis
    unfolding onIncomingInterest_pit_def by (subst r) (simp add: s1_def [symmetric] e cs Let_def split: option.split)
qed

lemma interest_small_upd [simp]:
  "interest_small (i\<lparr>i_incomingFaceId := x\<rparr>) = interest_small i"
  "interest_small (setHopLimit h i) = interest_small i"
  "interest_small (snd (getNonce r i)) = interest_small i"
  "interest_small (setForwardingHint fh i) = interest_small i"
  "i_name (setHopLimit h i) = i_name i" "i_name (setForwardingHint fh i) = i_name i"
  by (simp_all add: interest_small_def setHopLimit_def setForwardingHint_def getNonce_def split: option.split)

lemma onIncomingInterest_ok:
  assumes vt: "contracts vt" and env: "env_ok env" "e_sha env = sha" and inv: "fw_inv sha s" and small: "interest_small i"
    and ing: "f_id (fw_face s ingress) \<noteq> INVALID_FACEID"
  shows "outcome_ok sha (onIncomingInterest vt env ingress i s)"
proof -
  define s1 where "s1 = bump (\<lambda>c. c\<lparr>nInInterests := nInInterests c + 1\<rparr>) s"
  define i1 where "i1 = i\<lparr>i_incomingFaceId := Some (f_id (fw_face s ingress))\<rparr>"
  define i2 where "i2 = (case i_hopLimit i1 of Some h \<Rightarrow> setHopLimit (Some (h - 1)) i1 | None \<Rightarrow> i1)"
  define i3 where "i3 = snd (getNonce (e_nonce env) i2)"
  have s1: "fw_inv sha s1" unfolding s1_def by (rule fw_inv_bump [OF inv]) simp
  have n: "i_name i2 = i_name i" "interest_small i2"
    using small by (simp_all add: i2_def i1_def split: option.split)
  have nx: "getNonce (e_nonce env) i2 = (fst (getNonce (e_nonce env) i2), i3)" by (simp add: i3_def)
  have f: "f_id (fw_face s1 ingress) \<noteq> INVALID_FACEID" using ing by (simp add: s1_def bump_def)
  have hop: "fw_inv sha (face_modify ingress (\<lambda>f. f\<lparr>f_nInHopLimitZero := f_nInHopLimitZero f + 1\<rparr>) s1)"
    by (rule fw_inv_face_modify [OF s1]) (simp add: same_face_def)
  have loop: "fw_inv sha (onInterestLoop ingress i3 s1)"
    and pit: "outcome_ok sha (onIncomingInterest_pit vt env ingress nonce i3 s1)"
      "outcome_ok sha (onIncomingInterest_pit vt env ingress nonce (setForwardingHint [] i3) s1)"
    if "\<not> violates_localhost (fw_face s1 ingress) (i_name i2)" for nonce
    using that f n
    by (auto intro!: onInterestLoop_inv [OF s1] onIncomingInterest_pit_ok [OF vt env s1] simp: i3_def)
  show ?thesis
    unfolding onIncomingInterest_def Let_def
    unfolding i1_def [symmetric] s1_def [symmetric] i2_def [symmetric]
    by (subst nx) (use hop s1 loop pit in auto)
qed

section \<open>Data\<close>

lemma ce_ok_tag [simp]: "ce_ok sha (d\<lparr>d_incomingFaceId := x\<rparr>) = ce_ok sha d"
  by (simp add: ce_ok_def fullName_ok_def)

lemma onDataUnsolicited_inv:
  assumes "fw_inv sha s" "ce_ok sha d" "d_freshnessPeriod d \<ge> 0" "e_sha env = sha"
  shows "fw_inv sha (onDataUnsolicited env ingress d s)"
  using assms unfolding onDataUnsolicited_def Let_def
  by (intro fw_inv_bump) (auto intro: fw_inv_cs Cs_insert_inv cs_fresh_insert dest: fw_invD(2,7))

lemma mark_satisfied_ok:
  assumes inv: "fw_inv sha s" and d: "d_freshnessPeriod d \<ge> 0"
  obtains s' where "mark_satisfied env ingress d p s = Inr s'" "fw_inv sha s'" "\<And>q. attached s' q = attached s q"
proof -
  define s1 where "s1 = pit_modify p (\<lambda>e. e\<lparr>pe_dataFreshnessPeriod := d_freshnessPeriod d\<rparr>)
    (pit_modify p (\<lambda>e. e\<lparr>pe_isSatisfied := True\<rparr>) s)"
  have s1: "fw_inv sha s1"
    unfolding s1_def using d by (intro fw_inv_modify inv) (simp_all add: keeps_identity_ops entry_ok_ops)
  have at: "attached s1 q = attached s q" for q by (simp add: s1_def attached_modify keeps_identity_ops)
  have res: "mark_satisfied env ingress d p s =
      (case pit_heap s1 p of Some e \<Rightarrow> insertDeadNonceList env e (Some ingress) s1 | None \<Rightarrow> Inr s1)"
    unfolding mark_satisfied_def Let_def s1_def [symmetric] ..
  show thesis
  proof (cases "pit_heap s1 p")
    case (Some e)
    have "pe_dataFreshnessPeriod e \<ge> 0" using fw_invD(6) [OF s1 Some] by (simp add: entry_ok_def)
    with insertDeadNonceList_total obtain s2 where s2: "insertDeadNonceList env e (Some ingress) s1 = Inr s2" by blast
    have "attached s2 q = attached s q" for q using s2 by (rule insertDeadNonceList_Inr) (simp add: at)
    with that show thesis using insertDeadNonceList_inv [OF s1 s2] s2 Some by (simp add: res)
  qed (use that s1 at res in simp)
qed

lemma satisfy_single_ok:
  assumes vt: "contracts vt" and env: "env_ok env" and inv: "fw_inv sha s" and p: "attached s p"
    and d: "d_freshnessPeriod d \<ge> 0"
  shows "outcome_ok sha (satisfy_single vt env ingress d p s)"
proof -
  define s1 where "s1 = setExpiryTimer env p 0 s"
  have s1: "fw_inv sha s1" "attached s1 p" using inv p by (simp_all add: s1_def fw_inv_timer)
  with strategy_for [OF vt] obtain st where st: "strategy_of vt p s1 = Some st" "strategy_contract st" by blast
  have "fw_inv sha (vt_afterReceiveData st env p ingress d s1)"
    by (rule actions_inv [OF strategy_contract.afterReceiveData [OF st(2) env] s1(1)])
  then obtain s2 where s2: "mark_satisfied env ingress d p (vt_afterReceiveData st env p ingress d s1) = Inr s2" "fw_inv sha s2"
    using mark_satisfied_ok [OF _ d, of sha _ env ingress p] by blast
  have "fw_inv sha (pit_modify p (deleteOutRecord ingress) s2)"
    by (rule fw_inv_modify [OF s2(2)]) (simp_all add: keeps_identity_ops entry_ok_ops)
  with st(1) s2(1) show ?thesis by (simp add: satisfy_single_def Let_def s1_def [symmetric])
qed

lemma satisfy_all_ok:
  assumes vt: "contracts vt" and env: "env_ok env" and d: "d_freshnessPeriod d \<ge> 0"
  shows "fw_inv sha s \<Longrightarrow> (\<And>p. p \<in> set ps \<Longrightarrow> attached s p) \<Longrightarrow>
    outcome_ok sha (map_sum id fst (satisfy_all vt env ingress d ps pending s))"
proof (induction ps arbitrary: s pending)
  case (Cons p ps)
  define s1 where "s1 = setExpiryTimer env p 0 s"
  have s1: "fw_inv sha s1" "attached s1 p" using Cons.prems by (simp_all add: s1_def fw_inv_timer)
  obtain e where e: "pit_heap s p = Some e" using Cons.prems(2) by (auto simp: attached_def)
  obtain st where st: "strategy_of vt p s1 = Some st" "strategy_contract st" using strategy_for [OF vt s1] by blast
  define s2 where "s2 = vt_beforeSatisfyInterest st env p ingress d s1"
  have acts: "actions env p s1 s2"
    unfolding s2_def by (rule strategy_contract.beforeSatisfyInterest [OF st(2) env])
  obtain s3 where s3: "mark_satisfied env ingress d p s2 = Inr s3" "fw_inv sha s3" "\<And>q. attached s3 q = attached s2 q"
    using mark_satisfied_ok [OF actions_inv [OF acts s1(1)] d, of env ingress p] by blast
  define s4 where "s4 = pit_modify p (deleteOutRecord ingress) (pit_modify p clearInRecords s3)"
  have "fw_inv sha s4"
    unfolding s4_def using s3(2) by (intro fw_inv_modify) (simp_all add: keeps_identity_ops entry_ok_ops)
  moreover have "attached s4 q" if "q \<in> set ps" for q
    using Cons.prems(2) [of q] that attached_frame [OF actions_frame [OF acts]] s3(3)
    by (simp add: s4_def s1_def attached_modify keeps_identity_ops)
  ultimately show ?case
    using Cons.IH [of s4] e st(1) s3(1)
    by (simp add: Let_def s1_def [symmetric] s2_def [symmetric] s4_def [symmetric])
qed simp

lemma send_pending_inv: "fw_inv sha s \<Longrightarrow> fw_inv sha (send_pending ingress d pending s)"
proof -
  let ?f = "\<lambda>f s. if f_id (fw_face s f) = f_id (fw_face s ingress) \<and> f_linkType (fw_face s f) \<noteq> LINK_TYPE_AD_HOC
    then s else fst (onOutgoingData d f s)"
  have "fw_inv sha s \<Longrightarrow> fw_inv sha (fold ?f fs s)" for fs
    by (induction fs arbitrary: s) (simp_all add: onOutgoingData_inv)
  then show "fw_inv sha s \<Longrightarrow> ?thesis" by (simp add: send_pending_def)
qed

lemma matchesData_error: "matchesData sha i d = Inl err \<Longrightarrow> err = NoWireEncoding"
  by (auto simp: matchesData_def getFullName_def Let_def split: if_splits sum.splits bool.splits prod.splits)

lemma select_matches_sub: "select_matches m h ps = Inr qs \<Longrightarrow> set qs \<subseteq> set ps"
proof (induction ps arbitrary: qs)
  case (Cons p ps)
  then show ?case
    by (cases "select_matches m h ps") (fastforce split: option.splits sum.splits if_splits)+
qed simp

lemma select_matches_error: "select_matches m h ps = Inl err \<Longrightarrow> \<exists>i. m i = Inl err"
proof (induction ps)
  case (Cons p ps)
  then show ?case by (cases "select_matches m h ps") (auto split: option.splits sum.splits)
qed simp

lemma listed_attached:
  assumes "fw_inv sha s" "nt_find (ntree s) n = Some x" "p \<in> set (nte_pits x)"
  shows "attached s p"
proof -
  have "pit_ok (nt_pits (ntree s)) (pit_heap s) (pit_next s) (pit_nItems s)"
    using fw_invD(1) [OF assms(1)] by (simp add: tables_ok_def pit_inv_def)
  from pit_okD(2) [OF this, of p n] nt_pits_find [OF assms(2)] assms(3) show ?thesis by (auto simp: attached_def)
qed

lemma findAllDataMatches_attached:
  assumes "fw_inv sha s"
  shows "findAllDataMatches h d s = Inr ps \<Longrightarrow> p \<in> set ps \<Longrightarrow> attached s p"
    and "findAllDataMatches h d s \<noteq> Inl AssertionFailed"
proof -
  show "findAllDataMatches h d s = Inr ps \<Longrightarrow> p \<in> set ps \<Longrightarrow> attached s p"
    unfolding findAllDataMatches_def Let_def
    by (drule select_matches_sub)
      (auto simp: set_findAllMatches [OF tables_okD [OF fw_invD(1) [OF assms]]] dest!: subsetD intro: listed_attached [OF assms])
  show "findAllDataMatches h d s \<noteq> Inl AssertionFailed"
    unfolding findAllDataMatches_def Let_def by (auto dest!: select_matches_error matchesData_error)
qed

lemma onIncomingData_ok:
  assumes vt: "contracts vt" and env: "env_ok env" "e_sha env = sha" and inv: "fw_inv sha s" and d: "ce_ok sha d" "d_freshnessPeriod d \<ge> 0"
  shows "outcome_ok sha (onIncomingData vt env ingress d s)"
proof -
  define d1 where "d1 = d\<lparr>d_incomingFaceId := Some (f_id (fw_face s ingress))\<rparr>"
  define s1 where "s1 = bump (\<lambda>c. c\<lparr>nInData := nInData c + 1\<rparr>) s"
  define s2 where "s2 = s1\<lparr>fw_cs := Cs_insert (e_sha env) (e_now env) d1 False (fw_cs s1)\<rparr>"
  have d1: "ce_ok sha d1" "d_freshnessPeriod d1 \<ge> 0" using d by (simp_all add: d1_def)
  have s1: "fw_inv sha s1" unfolding s1_def by (rule fw_inv_bump [OF inv]) simp
  have s2: "fw_inv sha s2"
    unfolding s2_def using env(2) d1 by (intro fw_inv_cs s1) (simp_all add: Cs_insert_inv fw_invD(2,7) [OF s1] cs_fresh_insert)
  have at: "attached s2 p" if "findAllDataMatches (e_sha env) d1 s1 = Inr ps" "p \<in> set ps" for p ps
    using findAllDataMatches_attached(1) [OF s1 that] by (simp add: s2_def)
  have many: "outcome_ok sha (map_sum id (\<lambda>(s, pending). send_pending ingress d1 pending s)
      (satisfy_all vt env ingress d1 ps [] s2))"
    if "findAllDataMatches (e_sha env) d1 s1 = Inr ps" for ps
    using satisfy_all_ok [OF vt env(1) d1(2) s2 at [OF that], of ps ingress "[]"]
    by (cases "satisfy_all vt env ingress d1 ps [] s2") (auto simp: send_pending_inv)
  show ?thesis
    unfolding onIncomingData_def Let_def
    unfolding d1_def [symmetric] s1_def [symmetric] s2_def [symmetric]
    using s1 findAllDataMatches_attached(2) [OF s1, of "e_sha env" d1] onDataUnsolicited_inv [OF s1 d1 env(2)] at many
      satisfy_single_ok [OF vt env(1) s2 _ d1(2)]
    by (simp del: satisfy_all.simps split: sum.split list.split) auto
qed

section \<open>Nacks and dropped Interests\<close>

lemma keeps_identity_or_modify:
  "(\<And>r. fr_face (g r) = fr_face r) \<Longrightarrow> keeps_identity (or_modify f g)"
  by (simp add: keeps_identity_def or_modify_def pit_entry_ok_def map_key_update_first)

lemma fr_face_nack [simp]: "fr_face (fst (setIncomingNack nonce reason r)) = fr_face r"
  by (simp add: setIncomingNack_def)

lemma onIncomingNack_ok:
  assumes vt: "contracts vt" and env: "env_ok env" and inv: "fw_inv sha s" and small: "interest_small i"
  shows "outcome_ok sha (onIncomingNack vt env ingress i reason s)"
proof -
  define s1 where "s1 = bump (\<lambda>c. c\<lparr>nInNacks := nInNacks c + 1\<rparr>) s"
  have s1: "fw_inv sha s1" unfolding s1_def by (rule fw_inv_bump [OF inv]) simp
  have pit: "pit_inv s1" using fw_invD(1) [OF s1] by (simp add: tables_ok_def)
  then have ok: "pit_ok (nt_pits (ntree s1)) (pit_heap s1) (pit_next s1) (pit_nItems s1)" by (simp add: pit_inv_def)
  note find = findOrInsert_find [OF pit small]
  show ?thesis
  proof (cases "pit_abs s1 (interest_key i)")
    case None
    then show ?thesis using s1 by (simp add: onIncomingNack_def Let_def s1_def [symmetric] find)
  next
    case (Some p)
    then obtain e where e: "pit_heap s1 p = Some e" "pe_nte e \<noteq> None"
      by (auto simp: pit_abs_Some [OF ok] pit_live_Some)
    let ?nonce = "fst (getNonce (e_nonce env) i)"
    define s2 where "s2 = pit_modify p (or_modify ingress (\<lambda>r. fst (setIncomingNack ?nonce reason r))) s1"
    define s3 where "s3 = (case pit_heap s2 p of
        Some e \<Rightarrow> if \<not> hasPendingOutRecords (e_now env) e then setExpiryTimer env p 0 s2 else s2 | None \<Rightarrow> s2)"
    have s2: "fw_inv sha s2"
      unfolding s2_def by (rule fw_inv_modify [OF s1]) (simp_all add: keeps_identity_or_modify entry_ok_or_modify)
    have "attached s2 p" unfolding s2_def using e by (subst attached_modify) (auto simp: attached_def keeps_identity_or_modify)
    then have s3: "fw_inv sha s3" "attached s3 p" using s2 by (simp_all add: s3_def fw_inv_timer split: option.split)
    obtain st where st: "strategy_of vt p s3 = Some st" "strategy_contract st" using strategy_for [OF vt s3] by blast
    have "fw_inv sha (vt_afterReceiveNack st env ingress i reason p s3)"
      by (rule actions_inv [OF strategy_contract.afterReceiveNack [OF st(2) env] s3(1)])
    then show ?thesis
      unfolding onIncomingNack_def Let_def s1_def [symmetric] find Some option.simps(5) prod.case e(1)
        s2_def [symmetric] s3_def [symmetric] st(1)
      using s1 by (simp split: option.split)
  qed
qed

lemma onDroppedInterest_ok:
  assumes vt: "contracts vt" and env: "env_ok env" and inv: "fw_inv sha s"
  shows "outcome_ok sha (onDroppedInterest vt env egress i s)"
proof -
  obtain st where st: "findEffectiveStrategy (i_name i) s = Some st"
    using effective_exists [of s "i_name i"] fw_invD(1) [OF inv] by (auto simp: tables_ok_def)
  have "strategy_contract (vt st)" using vt by (simp add: contracts_def)
  from strategy_contract.onDroppedInterest [OF this env]
  obtain p where "actions env p s (vt_onDroppedInterest (vt st) env egress i s)" by blast
  with inv st show ?thesis by (simp add: onDroppedInterest_def actions_inv)
qed

end
