(* ===== verification/ForwarderTables.thy ===== *)
theory ForwarderTables
  imports ForwarderSafety
begin

text \<open>
  The commands that change the FIB, the strategy choices and the face table keep the invariant of
  the forwarder; so do all events, and every reachable state satisfies it.
\<close>

section \<open>The FIB\<close>

lemma fw_inv_tables:
  assumes inv: "fw_inv sha s" and "tables_ok s'"
    and "fw_cs s' = fw_cs s" "fw_dnl s' = fw_dnl s" "fw_faceTable s' = fw_faceTable s" "fw_counters s' = fw_counters s"
      "fw_sent s' = fw_sent s"
    and "\<And>p e. pit_heap s' p = Some e \<Longrightarrow> entry_ok (ft_store (fw_faceTable s)) e"
    and "\<And>f. fib_nexthop s' f \<Longrightarrow> f_id (fw_face s f) \<noteq> INVALID_FACEID"
  shows "fw_inv sha s'"
  using assms by (simp add: fw_inv_def refs_ok_def log_ok_def counted_def)

text \<open>A change of the FIB alone.\<close>

definition fib_change :: "fw_state \<Rightarrow> fw_state \<Rightarrow> bool" where
  "fib_change s s' \<longleftrightarrow> nt_pits (ntree s') = nt_pits (ntree s) \<and> nt_meas (ntree s') = nt_meas (ntree s) \<and>
     nt_strategy (ntree s') = nt_strategy (ntree s) \<and> s' = s\<lparr>ntree := ntree s', fib_nItems := fib_nItems s'\<rparr>"

lemma fib_change_fields:
  assumes "fib_change s s'"
  shows "nt_pits (ntree s') = nt_pits (ntree s)" "nt_meas (ntree s') = nt_meas (ntree s)"
    "nt_strategy (ntree s') = nt_strategy (ntree s)"
    "pit_heap s' = pit_heap s" "pit_next s' = pit_next s" "pit_nItems s' = pit_nItems s"
    "meas_nItems s' = meas_nItems s" "sc_nItems s' = sc_nItems s" "fw_cs s' = fw_cs s" "fw_dnl s' = fw_dnl s"
    "fw_faceTable s' = fw_faceTable s" "fw_counters s' = fw_counters s" "fw_sent s' = fw_sent s"
proof -
  have s': "s' = s\<lparr>ntree := ntree s', fib_nItems := fib_nItems s'\<rparr>" using assms by (simp add: fib_change_def)
  show "nt_pits (ntree s') = nt_pits (ntree s)" "nt_meas (ntree s') = nt_meas (ntree s)"
    "nt_strategy (ntree s') = nt_strategy (ntree s)" using assms by (simp_all add: fib_change_def)
  show "pit_heap s' = pit_heap s" "pit_next s' = pit_next s" "pit_nItems s' = pit_nItems s"
    "meas_nItems s' = meas_nItems s" "sc_nItems s' = sc_nItems s" "fw_cs s' = fw_cs s" "fw_dnl s' = fw_dnl s"
    "fw_faceTable s' = fw_faceTable s" "fw_counters s' = fw_counters s" "fw_sent s' = fw_sent s"
    by (subst s', simp)+
qed

lemma fw_inv_fib:
  assumes inv: "fw_inv sha s" and c: "fib_change s s'" and fib: "fib_inv s'"
    and "\<And>f. fib_nexthop s' f \<Longrightarrow> fib_nexthop s f \<or> f_id (fw_face s f) \<noteq> INVALID_FACEID"
  shows "fw_inv sha s'"
proof -
  note eq = fib_change_fields [OF c]
  have nt: "nt_inv (ntree s')" using fib by (simp add: fib_inv_def)
  have "tables_ok s'"
    using fw_invD(1) [OF inv] nt fib by (simp add: tables_ok_def pit_inv_def meas_inv_def sc_inv_def eq)
  then show ?thesis
    using assms(4) fw_invD(5) [OF inv] by (intro fw_inv_tables [OF inv]) (auto simp: eq fw_invD(6) [OF inv])
qed

lemma Fib_insert_change: "fib_change s (fst (Fib_insert pfx s))"
  by (simp add: fib_change_def Fib_insert_def Let_def table_simps split: option.split)

lemma Fib_addOrUpdateNextHop_change: "fib_change s (fst (Fib_addOrUpdateNextHop pfx face cost s))"
  by (simp add: fib_change_def Fib_addOrUpdateNextHop_def table_simps split: option.split prod.split)

lemma Fib_removeNextHop_change: "fib_change s (fst (Fib_removeNextHop pfx face s))"
  by (simp add: fib_change_def Fib_removeNextHop_def Fib_erase_nte_def Let_def table_simps split: option.split prod.split)

lemma Fib_insert_view:
  "nt_inv (ntree s) \<Longrightarrow> length pfx \<le> getMaxDepth \<Longrightarrow>
   nt_fib (ntree (fst (Fib_insert pfx s))) =
     (nt_fib (ntree s))(pfx := Some (case nt_fib (ntree s) pfx of Some fe \<Rightarrow> fe | None \<Rightarrow> \<lparr>fe_prefix = pfx, fe_nextHops = []\<rparr>))"
  by (auto simp: Fib_insert_def Let_def nt_fib_lookup nt_fib_put nt_find_lookup_self split: option.split)

lemma Fib_add_view:
  assumes "nt_fib (ntree s) pfx = Some fe"
  shows "nt_fib (ntree (fst (Fib_addOrUpdateNextHop pfx face cost s))) =
      (nt_fib (ntree s))(pfx \<mapsto> fst (Entry_addOrUpdateNextHop face cost fe))"
    and "snd (Fib_addOrUpdateNextHop pfx face cost s) = Some nh \<Longrightarrow>
      nh = fe_nextHops (fst (Entry_addOrUpdateNextHop face cost fe)) ! fst (snd (Entry_addOrUpdateNextHop face cost fe)) \<and>
      snd (snd (Entry_addOrUpdateNextHop face cost fe))"
  using assms by (auto simp: Fib_addOrUpdateNextHop_def nt_fib_put [OF nt_fib_present [OF assms]] split: prod.splits if_splits)

lemma Entry_add_faces:
  "nh_face ` set (fe_nextHops (fst (Entry_addOrUpdateNextHop face cost fe))) \<subseteq> insert face (nh_face ` set (fe_nextHops fe))"
proof -
  have "\<exists>y \<in> insert face (nh_face ` set nhs). nh_face x = y"
    if "x \<in> set (nhs[it := (nhs ! it)\<lparr>nh_cost := cost\<rparr>])" "it < length nhs" for nhs it x
    using that set_update_subset_insert [of nhs it "(nhs ! it)\<lparr>nh_cost := cost\<rparr>"] by auto
  moreover have "findNextHop face fe \<le> length (fe_nextHops fe)" by (simp add: findNextHop_def length_takeWhile_le)
  ultimately show ?thesis
    by (auto simp: Entry_addOrUpdateNextHop_def Let_def sortNextHops_def) fastforce+
qed

lemma Entry_add_reported:
  assumes "snd (snd (Entry_addOrUpdateNextHop face cost fe))"
  shows "fe_nextHops (fst (Entry_addOrUpdateNextHop face cost fe)) ! fst (snd (Entry_addOrUpdateNextHop face cost fe))
    \<in> set (fe_nextHops (fst (Entry_addOrUpdateNextHop face cost fe)))"
  using assms by (intro nth_mem) (simp add: Entry_addOrUpdateNextHop_def Let_def sortNextHops_def)

lemma Entry_remove_faces:
  assumes "fib_entry_ok fe"
  shows "nh_face ` set (fe_nextHops (fst (Entry_removeNextHop face fe))) = nh_face ` set (fe_nextHops fe) - {face}"
proof -
  have d: "dom (nh_map e) = nh_face ` set (fe_nextHops e)" for e
    by (simp add: nh_map_def dom_map_of_conv_image_fst image_image)
  show ?thesis using arg_cong [OF remove_entry(2) [OF assms, of face], of dom] by (simp add: d)
qed

lemma Fib_remove_view:
  assumes "nt_fib (ntree s) pfx = Some fe"
  shows "nt_fib (ntree (fst (Fib_removeNextHop pfx face s))) =
     (nt_fib (ntree s))(pfx := (let (fe', removed) = Entry_removeNextHop face fe in
        if removed \<and> \<not> hasNextHops fe' then None else Some fe'))"
proof -
  note put = nt_fib_put [OF nt_fib_present [OF assms]]
  have "nt_find (nt_update pfx (setFibEntry x) (ntree s)) pfx \<noteq> None" for x
    using nt_fib_present [OF assms] by (simp add: nt_find_update setFibEntry_def)
  from nt_fib_put [OF this] assms put show ?thesis
    by (auto simp: Fib_removeNextHop_def Fib_erase_nte_def Let_def split: prod.split)
qed

lemma trigger_new_nexthop_ok:
  assumes vt: "contracts vt" and env: "env_ok env"
  shows "fw_inv sha s \<Longrightarrow> fib_nexthop s (nh_face nh) \<Longrightarrow> (\<And>p. p \<in> set ps \<Longrightarrow> attached s p) \<Longrightarrow>
    outcome_ok sha (trigger_new_nexthop vt env nh ps s)"
proof (induction ps arbitrary: s)
  case (Cons p ps)
  obtain st where st: "strategy_of vt p s = Some st" "strategy_contract st"
    using strategy_for [OF vt Cons.prems(1)] Cons.prems(3) by (metis list.set_intros(1))
  have acts: "actions env p s (vt_afterNewNextHop st env nh p s)"
    by (rule strategy_contract.afterNewNextHop [OF st(2) env Cons.prems(2)])
  note frame = actions_frame [OF acts]
  show ?case
    using st(1) Cons.IH [OF actions_inv [OF acts Cons.prems(1)]] Cons.prems(2,3)
    by (simp add: fib_nexthop_frame [OF frame] attached_frame [OF frame])
qed simp

lemma affected_attached:
  assumes "fw_inv sha s" "x \<in> set (affected_entries pfx s)" "p \<in> set (nte_pits x)"
  shows "attached s p"
  using assms(2) unfolding affected_entries_def partialEnumerate_mem [OF tables_okD [OF fw_invD(1) [OF assms(1)]]]
  using listed_attached [OF assms(1)] assms(3) by blast

lemma fib_change_trans:
  assumes "fib_change s s'" "fib_change s' s''"
  shows "fib_change s s''"
proof -
  have "s' = s\<lparr>ntree := ntree s', fib_nItems := fib_nItems s'\<rparr>" "s'' = s'\<lparr>ntree := ntree s'', fib_nItems := fib_nItems s''\<rparr>"
    using assms by (simp_all add: fib_change_def)
  then obtain t k t' k' where e: "s' = s\<lparr>ntree := t, fib_nItems := k\<rparr>" "s'' = s'\<lparr>ntree := t', fib_nItems := k'\<rparr>" by blast
  then have "s'' = s\<lparr>ntree := ntree s'', fib_nItems := fib_nItems s''\<rparr>" by simp
  then show ?thesis using assms by (simp add: fib_change_def)
qed

lemma Entry_add_hasNextHops: "hasNextHops (fst (Entry_addOrUpdateNextHop face cost fe))"
proof -
  have "findNextHop face fe \<le> length (fe_nextHops fe)" by (simp add: findNextHop_def length_takeWhile_le)
  then have "length (fe_nextHops (fst (Entry_addOrUpdateNextHop face cost fe))) > 0"
    by (auto simp: Entry_addOrUpdateNextHop_def Let_def sortNextHops_def simp del: length_greater_0_conv)
  then show ?thesis by (simp add: hasNextHops_def)
qed

text \<open>The command changes the FIB; a new nexthop is then announced to the strategies.\<close>

lemma addNextHop_steps:
  assumes inv: "fw_inv sha s" and face: "FaceTable_get faceId (fw_faceTable s) = Some face" and len: "length pfx \<le> getMaxDepth"
  obtains s2 new where "fib_change s s2"
    "\<And>n fe. nt_fib (ntree s2) n = Some fe \<Longrightarrow> nt_fib (ntree s) n = Some fe \<or> hasNextHops fe" "fw_inv sha s2"
    "\<And>nh. new = Some nh \<Longrightarrow> fib_nexthop s2 (nh_face nh)"
    "addNextHop vt env pfx faceId cost s = (case new of None \<Rightarrow> Inr (s2, 200)
      | Some nh \<Rightarrow> map_sum id (\<lambda>s. (s, 200)) (onNewNextHop vt env pfx nh s2))"
proof -
  have valid: "f_id (fw_face s face) \<noteq> INVALID_FACEID"
    using face ft_get_iff [OF fw_invD(4) [OF inv]] fw_invD(4) [OF inv] by (auto simp: ft_inv_def)
  have nt: "nt_inv (ntree s)" and fib: "fib_inv s" using fw_invD(1) [OF inv] by (auto simp: tables_ok_def fib_inv_def)
  define s1 where "s1 = fst (Fib_insert pfx s)"
  have ch1: "fib_change s s1" unfolding s1_def by (rule Fib_insert_change)
  note view1 = Fib_insert_view [OF nt len, folded s1_def]
  obtain fe where fe: "nt_fib (ntree s1) pfx = Some fe" by (simp add: view1)
  have nh1: "fib_nexthop s f" if "fib_nexthop s1 f" for f
    using that unfolding fib_nexthop_def view1
    by (cases "nt_fib (ntree s) pfx") (auto split: if_splits)
  have fib1: "fib_inv s1" unfolding s1_def by (rule Fib_insert_ok(1) [OF fib len])
  have inv1: "fw_inv sha s1" by (rule fw_inv_fib [OF inv ch1 fib1]) (simp add: nh1)
  define s2 where "s2 = fst (Fib_addOrUpdateNextHop pfx face cost s1)"
  define new where "new = snd (Fib_addOrUpdateNextHop pfx face cost s1)"
  have ch2: "fib_change s1 s2" unfolding s2_def by (rule Fib_addOrUpdateNextHop_change)
  have view2: "nt_fib (ntree s2) = (nt_fib (ntree s1))(pfx \<mapsto> fst (Entry_addOrUpdateNextHop face cost fe))"
    unfolding s2_def by (rule Fib_add_view(1) [OF fe])
  have ft1: "fw_faceTable s1 = fw_faceTable s" by (rule fib_change_fields [OF ch1])
  have inv2: "fw_inv sha s2"
  proof (rule fw_inv_fib [OF inv1 ch2])
    show "fib_inv s2" unfolding s2_def by (rule Fib_addOrUpdateNextHop_ok(1) [OF fib1])
    show "fib_nexthop s1 f \<or> f_id (fw_face s1 f) \<noteq> INVALID_FACEID" if "fib_nexthop s2 f" for f
      using that Entry_add_faces [of face cost fe] fe valid ft1
      unfolding fib_nexthop_def view2 by (auto split: if_splits) blast
  qed
  have nh2: "fib_nexthop s2 (nh_face nh)" if "new = Some nh" for nh
    using Fib_add_view(2) [OF fe that [unfolded new_def]] Entry_add_reported [of face cost fe]
    unfolding fib_nexthop_def view2 by (auto intro!: exI [of _ pfx])
  have pair: "Fib_addOrUpdateNextHop pfx face cost s1 = (s2, new)" by (simp add: s2_def new_def)
  have res: "addNextHop vt env pfx faceId cost s = (case new of None \<Rightarrow> Inr (s2, 200)
      | Some nh \<Rightarrow> map_sum id (\<lambda>s. (s, 200)) (onNewNextHop vt env pfx nh s2))"
    using face len by (simp add: addNextHop_def Let_def s1_def [symmetric] pair)
  have routes: "nt_fib (ntree s) n = Some fe' \<or> hasNextHops fe'" if "nt_fib (ntree s2) n = Some fe'" for n fe'
    using that Entry_add_hasNextHops [of face cost fe] by (auto simp: view1 view2 split: if_splits)
  show thesis by (rule that [OF fib_change_trans [OF ch1 ch2] routes inv2 nh2 res])
qed

lemma addNextHop_ok:
  assumes vt: "contracts vt" and env: "env_ok env" and inv: "fw_inv sha s"
  shows "outcome_ok sha (map_sum id fst (addNextHop vt env pfx faceId cost s))"
proof (cases "length pfx > getMaxDepth \<or> FaceTable_get faceId (fw_faceTable s) = None")
  case False
  then obtain face where face: "FaceTable_get faceId (fw_faceTable s) = Some face" and len: "length pfx \<le> getMaxDepth"
    by auto
  obtain s2 new where inv2: "fw_inv sha s2" and nh2: "\<And>nh. new = Some nh \<Longrightarrow> fib_nexthop s2 (nh_face nh)"
    and res: "addNextHop vt env pfx faceId cost s = (case new of None \<Rightarrow> Inr (s2, 200)
      | Some nh \<Rightarrow> map_sum id (\<lambda>s. (s, 200)) (onNewNextHop vt env pfx nh s2))"
    by (rule addNextHop_steps [OF inv face len, of vt env cost]) (rule that; assumption)
  have "outcome_ok sha (onNewNextHop vt env pfx nh s2)" if "new = Some nh" for nh
    unfolding onNewNextHop_def using affected_attached [OF inv2]
    by (intro trigger_new_nexthop_ok [OF vt env inv2 nh2 [OF that]]) auto
  then show ?thesis
    using inv2 unfolding res by (auto simp: sum.map_comp comp_def sum.map_ident split: option.split)
qed (use inv in \<open>auto simp: addNextHop_def\<close>)

lemma Fib_removeNextHop_nexthops:
  assumes "fib_inv s" "fib_nexthop (fst (Fib_removeNextHop pfx face s)) f"
  shows "fib_nexthop s f"
proof (cases "nt_fib (ntree s) pfx")
  case None
  with assms show ?thesis by (simp add: Fib_removeNextHop_def)
next
  case (Some fe)
  with assms fib_invD(3) [OF assms(1) Some] show ?thesis
    unfolding fib_nexthop_def Fib_remove_view [OF Some]
    by (auto simp: Let_def split: if_splits prod.splits) (metis Diff_iff Entry_remove_faces fst_conv image_eqI)+
qed

lemma Fib_removeNextHop_fw: "fw_inv sha s \<Longrightarrow> fw_inv sha (fst (Fib_removeNextHop pfx face s))"
proof -
  assume inv: "fw_inv sha s"
  then have fib: "fib_inv s" using fw_invD(1) by (simp add: tables_ok_def)
  show ?thesis
    by (rule fw_inv_fib [OF inv Fib_removeNextHop_change Fib_removeNextHop_ok(1) [OF fib]])
      (simp add: Fib_removeNextHop_nexthops [OF fib])
qed

lemma removeNextHop_inv: "fw_inv sha s \<Longrightarrow> fw_inv sha (removeNextHop pfx faceId s)"
  by (auto simp: removeNextHop_def Fib_removeNextHop_fw split: option.split)

section \<open>Faces\<close>

lemma packet_ok_cong:
  "f_scope f = f_scope g \<Longrightarrow> f_linkType f = f_linkType g \<Longrightarrow> packet_ok f pkt = packet_ok g pkt"
  by (cases pkt) auto

lemma ft_store_addImpl: "ft_store (addImpl p i ft) = (ft_store ft)(p := (ft_store ft p)\<lparr>f_id := i\<rparr>)"
  by (simp add: addImpl_def setId_def Let_def)

definition refers :: "pit_entry \<Rightarrow> face_ptr \<Rightarrow> bool" where
  "refers e f \<longleftrightarrow> f \<in> fr_face ` set (pe_inRecords e) \<union> fr_face ` set (pe_outRecords e)"

text \<open>Another identifier for one face, to which nothing refers if it loses its identifier.\<close>

lemma fw_inv_setId:
  assumes inv: "fw_inv sha s" and ft: "ft_inv ft"
    and store: "ft_store ft = (ft_store (fw_faceTable s))(p := (fw_face s p)\<lparr>f_id := i\<rparr>)"
    and nh: "i = INVALID_FACEID \<Longrightarrow> \<not> fib_nexthop s p"
    and rec: "\<And>q e. i = INVALID_FACEID \<Longrightarrow> pit_heap s q = Some e \<Longrightarrow> pe_nte e \<noteq> None \<Longrightarrow>
      \<not> refers e p"
  shows "fw_inv sha (s\<lparr>fw_faceTable := ft\<rparr>)"
proof -
  have "tables_ok (s\<lparr>fw_faceTable := ft\<rparr>)"
    using fw_invD(1) [OF inv] by (simp add: tables_ok_def fib_inv_def pit_inv_def meas_inv_def sc_inv_def)
  moreover have "log_ok (s\<lparr>fw_faceTable := ft\<rparr>)"
  proof -
    have "packet_ok (ft_store ft f) pkt = packet_ok (fw_face s f) pkt" for f pkt
      by (rule packet_ok_cong) (simp_all add: store)
    then show ?thesis using inv by (simp add: fw_inv_def log_ok_def)
  qed
  moreover have "refs_ok (s\<lparr>fw_faceTable := ft\<rparr>)"
  proof -
    have "f_id (ft_store ft f) \<noteq> INVALID_FACEID" if "fib_nexthop s f" for f
      using fw_invD(5) [OF inv that] nh that by (auto simp: store)
    moreover have "entry_ok (ft_store ft) e" if "pit_heap s q = Some e" for q e
      using fw_invD(6) [OF inv that] rec [OF _ that] by (auto simp: entry_ok_def store refers_def)
    ultimately show ?thesis by (simp add: refs_ok_def fib_nexthop_def)
  qed
  ultimately show ?thesis using inv ft by (simp add: fw_inv_def counted_def)
qed

lemma addFace_inv:
  assumes inv: "fw_inv sha s" and "enabled sha now (AddFace f) s"
  shows "fw_inv sha (addFace f s)"
proof -
  let ?ft = "fw_faceTable s" and ?i = "ft_lastFaceId (fw_faceTable s) + 1"
  have e: "FaceTable_add f ?ft = addImpl f ?i (?ft\<lparr>ft_lastFaceId := ?i\<rparr>)"
    using assms(2) by (simp add: FaceTable_add_def Let_def)
  have "ft_inv (FaceTable_add f ?ft)" using assms(2) by (intro FaceTable_add_ok(1) fw_invD(4) [OF inv]) simp_all
  then show ?thesis
    unfolding addFace_def
    by (rule fw_inv_setId [OF inv, where p = f and i = ?i]) (simp_all add: e ft_store_addImpl INVALID_FACEID_def)
qed

lemma addReservedFace_inv:
  assumes inv: "fw_inv sha s" and en: "enabled sha now (AddReservedFace f k) s"
  shows "fw_inv sha (addReservedFace f k s)"
proof -
  let ?ft = "fw_faceTable s"
  have ft: "ft_inv ?ft" by (rule fw_invD(4) [OF inv])
  then have l: "k \<le> ft_lastFaceId ?ft" "ft_lastFaceId ?ft < 2 ^ 64" using en by (auto simp: ft_inv_def)
  have "ft_inv (addImpl f k (?ft\<lparr>ft_lastFaceId := ft_lastFaceId ?ft\<rparr>))"
    by (rule addImpl_inv [OF ft]) (use en l in simp_all)
  then have "ft_inv (addReserved f k ?ft)" by (simp add: addReserved_def)
  then show ?thesis
    unfolding addReservedFace_def
    by (rule fw_inv_setId [OF inv, where p = f and i = k]) (use en in \<open>simp_all add: addReserved_def ft_store_addImpl\<close>)
qed

subsection \<open>Cleanup on removal\<close>

text \<open>Neither the FIB entry nor the PIT entries at a name refer to the face.\<close>

definition clean :: "face_ptr \<Rightarrow> fw_state \<Rightarrow> name \<Rightarrow> bool" where
  "clean face s n \<longleftrightarrow>
     (\<forall>fe. nt_fib (ntree s) n = Some fe \<longrightarrow> face \<notin> nh_face ` set (fe_nextHops fe)) \<and>
     (\<forall>p \<in> set (nt_pits (ntree s) n). \<forall>e. pit_heap s p = Some e \<longrightarrow> \<not> refers e face)"

definition drop_face :: "face_ptr \<Rightarrow> pit_entry \<Rightarrow> pit_entry" where
  "drop_face face e = deleteOutRecord face (deleteInRecord face e)"

lemma deleteInOutRecords_drop: "deleteInOutRecords p face = pit_modify p (drop_face face)"
  by (simp add: fun_eq_iff deleteInOutRecords_def drop_face_def [abs_def])

lemma keeps_identity_drop: "keeps_identity (drop_face face)"
  unfolding drop_face_def [abs_def] by (rule keeps_identity_comp) (rule keeps_identity_ops)+

lemma delete_first_gone: "distinct (map k xs) \<Longrightarrow> a \<notin> k ` set (delete_first (\<lambda>x. k x = a) xs)"
  by (induction xs) (auto simp: image_iff)

lemma drop_face_refers:
  "refers (drop_face face e) f \<Longrightarrow> refers e f"
  "pit_entry_ok e \<Longrightarrow> \<not> refers (drop_face face e) face"
  using delete_first_gone [of fr_face "pe_inRecords e" face] delete_first_gone [of fr_face "pe_outRecords e" face]
  by (auto simp: refers_def drop_face_def deleteInRecord_def deleteOutRecord_def pit_entry_ok_def
      dest: set_delete_first_subset [THEN subsetD])

lemma drop_step:
  assumes inv: "fw_inv sha s" and e: "pit_heap (pit_modify q (drop_face face) s) p = Some e"
  shows "\<exists>e0. pit_heap s p = Some e0 \<and> (\<forall>f. refers e f \<longrightarrow> refers e0 f) \<and> (p = q \<longrightarrow> \<not> refers e face)"
proof -
  obtain e0 where e0: "pit_heap s p = Some e0" "e = (if p = q then drop_face face e0 else e0)"
    using e by (auto simp: pit_modify_def split: if_splits)
  have "pit_entry_ok e0" using e0(1) pit_okD(4) fw_invD(1) [OF inv] unfolding tables_ok_def pit_inv_def by blast
  with e0 drop_face_refers show ?thesis by simp
qed

lemma fold_drop:
  assumes "fw_inv sha s"
  shows "fw_inv sha (fold (\<lambda>p. pit_modify p (drop_face face)) ps s)"
    and "ntree (fold (\<lambda>p. pit_modify p (drop_face face)) ps s) = ntree s"
    and "fw_faceTable (fold (\<lambda>p. pit_modify p (drop_face face)) ps s) = fw_faceTable s"
    and "pit_heap (fold (\<lambda>p. pit_modify p (drop_face face)) ps s) p = Some e \<Longrightarrow>
      \<exists>e0. pit_heap s p = Some e0 \<and> (\<forall>f. refers e f \<longrightarrow> refers e0 f) \<and> (p \<in> set ps \<longrightarrow> \<not> refers e face)"
proof -
  have inv: "fw_inv sha (pit_modify q (drop_face face) s)" if "fw_inv sha s" for q s
    by (rule fw_inv_modify [OF that keeps_identity_drop]) (simp add: drop_face_def entry_ok_ops)
  show "fw_inv sha (fold (\<lambda>p. pit_modify p (drop_face face)) ps s)"
    using assms by (induction ps arbitrary: s) (simp_all add: inv)
  show "ntree (fold (\<lambda>p. pit_modify p (drop_face face)) ps s) = ntree s"
    "fw_faceTable (fold (\<lambda>p. pit_modify p (drop_face face)) ps s) = fw_faceTable s"
    by (induction ps arbitrary: s) simp_all
  show "pit_heap (fold (\<lambda>p. pit_modify p (drop_face face)) ps s) p = Some e \<Longrightarrow>
      \<exists>e0. pit_heap s p = Some e0 \<and> (\<forall>f. refers e f \<longrightarrow> refers e0 f) \<and> (p \<in> set ps \<longrightarrow> \<not> refers e face)"
    using assms
  proof (induction ps arbitrary: s)
    case (Cons q ps)
    let ?s = "pit_modify q (drop_face face) s"
    obtain e1 where e1: "pit_heap ?s p = Some e1" "\<forall>f. refers e f \<longrightarrow> refers e1 f" "p \<in> set ps \<longrightarrow> \<not> refers e face"
      using Cons.IH [of ?s] Cons.prems inv by auto
    from drop_step [OF Cons.prems(2) e1(1)] e1(2,3) show ?case by auto
  qed simp
qed

lemma cleanup_visit_ok:
  assumes inv: "fw_inv sha s"
  shows "fw_inv sha (cleanup_visit face n s)"
    and "fw_faceTable (cleanup_visit face n s) = fw_faceTable s"
    and "nt_pits (ntree (cleanup_visit face n s)) = nt_pits (ntree s)"
    and "m \<noteq> n \<Longrightarrow> nt_fib (ntree (cleanup_visit face n s)) m = nt_fib (ntree s) m"
    and "clean face (cleanup_visit face n s) n"
    and "clean face s m \<Longrightarrow> clean face (cleanup_visit face n s) m"
proof -
  define s1 where "s1 = (case nt_fib (ntree s) n of Some _ \<Rightarrow> fst (Fib_removeNextHop n face s) | None \<Rightarrow> s)"
  define s2 where "s2 = fold (\<lambda>p. pit_modify p (drop_face face)) (nt_pits (ntree s1) n) s1"
  have eq: "cleanup_visit face n s = s2"
    by (simp add: cleanup_visit_def s1_def s2_def Let_def deleteInOutRecords_drop)
  have fib: "fib_inv s" using fw_invD(1) [OF inv] by (simp add: tables_ok_def)
  have inv1: "fw_inv sha s1" unfolding s1_def using inv by (simp add: Fib_removeNextHop_fw split: option.split)
  have "s1 = s \<or> fib_change s s1" unfolding s1_def by (simp add: Fib_removeNextHop_change split: option.split)
  then have same: "fw_faceTable s1 = fw_faceTable s" "nt_pits (ntree s1) = nt_pits (ntree s)" "pit_heap s1 = pit_heap s"
    using fib_change_fields [of s s1] by auto
  have v: "nt_fib (ntree s1) m = nt_fib (ntree s) m" if "m \<noteq> n" for m
    using that by (auto simp: s1_def Fib_remove_view split: option.split)
  have gone: "face \<notin> nh_face ` set (fe_nextHops fe)" if fe: "nt_fib (ntree s1) n = Some fe" for fe
  proof (cases "nt_fib (ntree s) n")
    case None
    with fe show ?thesis by (simp add: s1_def)
  next
    case (Some fe0)
    with fe have "fe = fst (Entry_removeNextHop face fe0)"
      by (auto simp: s1_def Fib_remove_view [OF Some] Let_def split: prod.splits if_splits)
    with Entry_remove_faces [OF fib_invD(3) [OF fib Some]] show ?thesis by simp
  qed
  note f2 = fold_drop [OF inv1, of face "nt_pits (ntree s1) n", folded s2_def]
  show "fw_inv sha (cleanup_visit face n s)" "fw_faceTable (cleanup_visit face n s) = fw_faceTable s"
    "nt_pits (ntree (cleanup_visit face n s)) = nt_pits (ntree s)"
    using f2(1-3) same by (simp_all add: eq)
  show "m \<noteq> n \<Longrightarrow> nt_fib (ntree (cleanup_visit face n s)) m = nt_fib (ntree s) m" using f2(2) v by (simp add: eq)
  show c: "clean face (cleanup_visit face n s) n"
    unfolding clean_def eq f2(2) using gone f2(4) by blast
  show "clean face s m \<Longrightarrow> clean face (cleanup_visit face n s) m"
  proof (cases "m = n")
    case False
    then show "clean face s m \<Longrightarrow> ?thesis"
      unfolding clean_def eq f2(2) v [OF False] same(2) using f2(4) same(3) by (metis (no_types, lifting))
  qed (use c in simp)
qed

lemma cleanup_fold:
  fixes face :: face_ptr and ns :: "name list"
  assumes "fw_inv sha s"
  defines "s' \<equiv> fold (cleanup_visit face) ns s"
  shows "fw_inv sha s' \<and> fw_faceTable s' = fw_faceTable s \<and> nt_pits (ntree s') = nt_pits (ntree s) \<and>
    (\<forall>m. m \<in> set ns \<or> clean face s m \<longrightarrow> clean face s' m)"
  using assms(1) unfolding s'_def
proof (induction ns arbitrary: s)
  case (Cons n ns)
  note v = cleanup_visit_ok [OF Cons.prems, where face = face and n = n]
  from Cons.IH [OF v(1)] v(2,3,5,6) show ?case by (simp only: fold_simps list.set insert_iff) metis
qed simp

lemma fst_cleanup_fold:
  "fst (fold (\<lambda>n (s, es). let s = cleanup_visit face n s
      in (s, if \<not> nt_hasTableEntries (ntree s) n then es @ [n] else es)) ns (s, es)) = fold (cleanup_visit face) ns s"
  by (induction ns arbitrary: s es) (simp_all add: Let_def)

lemma erase_fold:
  fixes ns :: "name list"
  assumes "nt_inv t"
  defines "t' \<equiv> fold (\<lambda>n t. fst (eraseIfEmpty n False t)) ns t"
  shows "nt_inv t'" "nt_fib t' = nt_fib t" "nt_pits t' = nt_pits t" "nt_meas t' = nt_meas t" "nt_strategy t' = nt_strategy t"
  using assms(1) unfolding t'_def
  by (induction ns arbitrary: t)
    (simp_all add: eraseIfEmpty_inv nt_fib_erase nt_pits_eraseIfEmpty nt_meas_erase nt_strategy_erase)

lemma cleanup_ok:
  assumes inv: "fw_inv sha s"
  shows "fw_inv sha (cleanupOnFaceRemoval face s)" "fw_faceTable (cleanupOnFaceRemoval face s) = fw_faceTable s"
    "clean face (cleanupOnFaceRemoval face s) n"
proof -
  let ?ns = "map nte_name (ntree s)"
  define s1 where "s1 = fold (cleanup_visit face) ?ns s"
  have f: "fw_inv sha s1" "fw_faceTable s1 = fw_faceTable s" "\<And>m. m \<in> set ?ns \<or> clean face s m \<Longrightarrow> clean face s1 m"
    using cleanup_fold [OF inv, where face = face and ns = ?ns, folded s1_def] by blast+
  define es where "es = snd (fold (\<lambda>n (s, es). let s = cleanup_visit face n s
      in (s, if \<not> nt_hasTableEntries (ntree s) n then es @ [n] else es)) ?ns (s, []))"
  have r: "fold (\<lambda>n (s, es). let s = cleanup_visit face n s
      in (s, if \<not> nt_hasTableEntries (ntree s) n then es @ [n] else es)) ?ns (s, []) = (s1, es)"
    unfolding s1_def es_def by (rule prod_eqI) (simp_all only: fst_cleanup_fold fst_conv snd_conv)
  have eq: "cleanupOnFaceRemoval face s = s1\<lparr>ntree := fold (\<lambda>n t. fst (eraseIfEmpty n False t))
      (rev (sort_key length es)) (ntree s1)\<rparr>" (is "_ = s1\<lparr>ntree := ?t\<rparr>")
    unfolding cleanupOnFaceRemoval_def by (subst Let_def, subst r) simp
  have nt1: "nt_inv (ntree s1)" by (rule tables_okD [OF fw_invD(1) [OF f(1)]])
  note t = erase_fold [OF nt1, where ns = "rev (sort_key length es)"]
  have pit: "pit_inv (s1\<lparr>ntree := ?t\<rparr>)"
    using fw_invD(1) [OF f(1)] t(1,3) by (simp add: tables_ok_def pit_inv_def)
  show "fw_inv sha (cleanupOnFaceRemoval face s)"
    unfolding eq by (rule fw_inv_pit [OF f(1) pit]) (simp_all add: t fw_invD(6) [OF f(1)])
  show "fw_faceTable (cleanupOnFaceRemoval face s) = fw_faceTable s" using f(2) by (simp add: eq)
  have "clean face s1 n"
  proof (cases "n \<in> set ?ns")
    case False
    then have "nt_find (ntree s) n = None" by (simp add: nt_find_None_iff nt_names_def)
    then have "nt_fib (ntree s) n = None" "nt_pits (ntree s) n = []"
      using nt_fib_present nt_pits_present by (metis not_None_eq)+
    then have "clean face s n" by (simp add: clean_def)
    then show ?thesis using f(3) by blast
  qed (use f(3) in blast)
  then show "clean face (cleanupOnFaceRemoval face s) n" by (simp add: eq clean_def t(2,3))
qed

lemma removeFace_inv:
  assumes inv: "fw_inv sha s"
  shows "fw_inv sha (removeFace faceId s)"
proof (cases "FaceTable_get faceId (fw_faceTable s)")
  case (Some face)
  let ?s = "cleanupOnFaceRemoval face s"
  note c = cleanup_ok [OF inv, of face]
  have get: "FaceTable_get faceId (fw_faceTable ?s) = Some face" using Some c(2) by simp
  have ft: "ft_inv (FaceTable_remove faceId (fw_faceTable ?s))" by (rule FaceTable_remove_ok(1) [OF fw_invD(4) [OF c(1)] get])
  have ok: "pit_ok (nt_pits (ntree ?s)) (pit_heap ?s) (pit_next ?s) (pit_nItems ?s)"
    using fw_invD(1) [OF c(1)] by (simp add: tables_ok_def pit_inv_def)
  have "fw_inv sha (?s\<lparr>fw_faceTable := FaceTable_remove faceId (fw_faceTable ?s)\<rparr>)"
  proof (rule fw_inv_setId [OF c(1) ft, where p = face and i = INVALID_FACEID])
    show "ft_store (FaceTable_remove faceId (fw_faceTable ?s)) =
        (ft_store (fw_faceTable ?s))(face := (fw_face ?s face)\<lparr>f_id := INVALID_FACEID\<rparr>)"
      using get by (simp add: FaceTable_remove_def setId_def)
    show "\<not> fib_nexthop ?s face" using c(3) by (auto simp: fib_nexthop_def clean_def)
    show "\<not> refers e face" if e: "pit_heap ?s q = Some e" "pe_nte e \<noteq> None" for q e
    proof -
      obtain n where n: "pe_nte e = Some n" using e(2) by blast
      then have "q \<in> set (nt_pits (ntree ?s) n)" using e(1) by (simp add: pit_okD(2) [OF ok])
      then show ?thesis using c(3) [of n] e(1) by (simp add: clean_def)
    qed
  qed
  then show ?thesis unfolding removeFace_def Some option.simps(5) Let_def .
qed (use inv in \<open>simp add: removeFace_def\<close>)

section \<open>Strategy choices\<close>

text \<open>A change of the strategy choices, which may clear strategy information on PIT entries.\<close>

definition sc_change :: "fw_state \<Rightarrow> fw_state \<Rightarrow> bool" where
  "sc_change s s' \<longleftrightarrow> nt_fib (ntree s') = nt_fib (ntree s) \<and> nt_pits (ntree s') = nt_pits (ntree s) \<and>
     nt_meas (ntree s') = nt_meas (ntree s) \<and>
     (\<forall>p. pit_heap s' p = pit_heap s p \<or> pit_heap s' p = map_option clear_info (pit_heap s p)) \<and>
     (pit_inv s \<longrightarrow> pit_inv s') \<and>
     (\<exists>t h k. s' = s\<lparr>ntree := t, pit_heap := h, sc_nItems := k\<rparr>)"

lemma sc_change_trans:
  assumes "sc_change s1 s2" "sc_change s2 s3"
  shows "sc_change s1 s3"
proof -
  obtain t h k t' h' k' where "s2 = s1\<lparr>ntree := t, pit_heap := h, sc_nItems := k\<rparr>"
    "s3 = s2\<lparr>ntree := t', pit_heap := h', sc_nItems := k'\<rparr>"
    using assms unfolding sc_change_def by blast
  then have e: "s3 = s1\<lparr>ntree := t', pit_heap := h', sc_nItems := k'\<rparr>" by simp
  have "map_option clear_info (map_option clear_info x) = map_option clear_info x" for x
    by (cases x) (simp_all add: clear_info_idem)
  then have "pit_heap s3 p = pit_heap s1 p \<or> pit_heap s3 p = map_option clear_info (pit_heap s1 p)" for p
    using assms unfolding sc_change_def by metis
  then show ?thesis using assms e unfolding sc_change_def by simp metis
qed

lemma sc_change_tree:
  assumes "nt_inv t" "nt_fib t = nt_fib (ntree s)" "nt_pits t = nt_pits (ntree s)" "nt_meas t = nt_meas (ntree s)"
  shows "sc_change s (s\<lparr>ntree := t, sc_nItems := k\<rparr>)" "sc_change s (s\<lparr>ntree := t\<rparr>)"
proof -
  show c: "sc_change s (s\<lparr>ntree := t, sc_nItems := k\<rparr>)" for k
    using assms unfolding sc_change_def
    by (auto simp: pit_inv_def intro!: exI [of _ t] exI [of _ "pit_heap s"] exI [of _ k])
  show "sc_change s (s\<lparr>ntree := t\<rparr>)" using c [of "sc_nItems s"] by simp
qed

lemma sc_change_strategy:
  assumes "nt_inv (ntree s)" "nt_find (ntree s) pfx \<noteq> None"
  shows "sc_change s (changeStrategy pfx old new s)"
proof -
  obtain h where h: "changeStrategy pfx old new s = s\<lparr>pit_heap := h\<rparr>" using changeStrategy_frame by blast
  have "pit_heap (changeStrategy pfx old new s) p = pit_heap s p \<or>
      pit_heap (changeStrategy pfx old new s) p = map_option clear_info (pit_heap s p)" for p
    by (simp add: changeStrategy_eq [OF assms])
  moreover have "pit_inv s \<Longrightarrow> pit_inv (changeStrategy pfx old new s)" by (rule changeStrategy_pit_inv)
  ultimately show ?thesis
    unfolding sc_change_def h by (auto intro!: exI [of _ "ntree s"] exI [of _ h] exI [of _ "sc_nItems s"])
qed

lemma entry_ok_clear: "entry_ok store e \<Longrightarrow> entry_ok store (clear_info e)"
  by (simp add: entry_ok_def clear_info_def image_image)

lemma fw_inv_sc:
  assumes inv: "fw_inv sha s" and c: "sc_change s s'" and sc: "sc_inv s'"
  shows "fw_inv sha s'"
proof -
  obtain t h k where s': "s' = s\<lparr>ntree := t, pit_heap := h, sc_nItems := k\<rparr>" using c by (auto simp: sc_change_def)
  have v: "nt_fib (ntree s') = nt_fib (ntree s)" "nt_meas (ntree s') = nt_meas (ntree s)" "pit_inv s'"
    using c fw_invD(1) [OF inv] by (simp_all add: sc_change_def tables_ok_def)
  have "nt_inv (ntree s')" using sc by (simp add: sc_inv_def)
  then have "tables_ok s'"
    using fw_invD(1) [OF inv] sc v by (simp add: tables_ok_def fib_inv_def meas_inv_def) (simp add: s')
  moreover have "entry_ok (ft_store (fw_faceTable s)) e" if "pit_heap s' p = Some e" for p e
    using c that fw_invD(6) [OF inv] entry_ok_clear unfolding sc_change_def by (metis map_option_eq_Some)
  ultimately show ?thesis
    using fw_invD(5) [OF inv] fib_nexthop_view [OF v(1)]
    by (intro fw_inv_tables [OF inv]) (simp_all add: s')
qed

lemma insert_sc_change:
  assumes nt: "nt_inv (ntree s)" and len: "length pfx \<le> getMaxDepth"
    and st: "Strategy_create lc n = StrategyCreated st" and r: "StrategyChoice_insert lc pfx n s = Some (s', res)"
  shows "sc_change s s'"
proof -
  define s1 where "s1 = s\<lparr>ntree := nt_lookup pfx (length pfx) (ntree s)\<rparr>"
  have nt1: "nt_inv (ntree s1)" "nt_find (ntree s1) pfx \<noteq> None"
    using nt len nt_find_lookup_self [of "ntree s" pfx] by (simp_all add: s1_def nt_lookup_inv)
  have c1: "sc_change s s1"
    unfolding s1_def by (rule sc_change_tree) (use nt len in \<open>simp_all add: nt_lookup_inv table_simps\<close>)
  have put: "sc_change s2 (s2\<lparr>ntree := nt_update pfx (setStrategyChoiceEntry x) (ntree s2)\<rparr>)"
    "sc_change s2 (s2\<lparr>ntree := nt_update pfx (setStrategyChoiceEntry x) (ntree s2), sc_nItems := k\<rparr>)"
    if "nt_inv (ntree s2)" for s2 x k
    using that by (intro sc_change_tree sc_att.put_inv; simp add: table_simps)+
  show ?thesis
  proof (cases "nt_strategy (ntree s1) pfx")
    case (Some old)
    then consider "s' = s1" | "s' = (changeStrategy pfx old st s1)
        \<lparr>ntree := nt_update pfx (setStrategyChoiceEntry (Some st)) (ntree (changeStrategy pfx old st s1))\<rparr>"
      using r len st by (auto simp: StrategyChoice_insert_def Let_def s1_def split: if_splits)
    then show ?thesis
    proof cases
      case 2
      have "sc_change s (changeStrategy pfx old st s1)"
        by (rule sc_change_trans [OF c1 sc_change_strategy [OF nt1]])
      then show ?thesis unfolding 2 by (rule sc_change_trans) (rule put, simp add: nt1)
    qed (use c1 in simp)
  next
    case None
    define s2 where "s2 = s1\<lparr>ntree := nt_update pfx (setStrategyChoiceEntry (Some st)) (ntree s1), sc_nItems := sc_nItems s1 + 1\<rparr>"
    obtain old where e: "s' = changeStrategy pfx old st s2"
      using None r len st by (auto simp: StrategyChoice_insert_def Let_def s1_def [symmetric] s2_def split: option.splits)
    have "sc_change s s2" unfolding s2_def by (rule sc_change_trans [OF c1]) (rule put, rule nt1)
    moreover have "nt_inv (ntree s2)" "nt_find (ntree s2) pfx \<noteq> None"
      using nt1 sc_att.put_inv by (auto simp: s2_def nt_find_update setStrategyChoiceEntry_def)
    ultimately show ?thesis unfolding e by (blast intro: sc_change_trans sc_change_strategy)
  qed
qed

lemma setStrategy_ok:
  assumes inv: "fw_inv sha s"
  shows "outcome_ok sha (setStrategy lc pfx n s)"
proof (cases "length pfx \<le> getMaxDepth \<and> (\<exists>st. Strategy_create lc n = StrategyCreated st)")
  case True
  then obtain st where len: "length pfx \<le> getMaxDepth" and st: "Strategy_create lc n = StrategyCreated st" by blast
  have sc: "sc_inv s" and nt: "nt_inv (ntree s)" using fw_invD(1) [OF inv] by (simp_all add: tables_ok_def sc_inv_def)
  obtain s' where s': "StrategyChoice_insert lc pfx n s = Some (s', INSERT_OK)" "sc_inv s'"
    using StrategyChoice_insert_ok [OF sc len st] by blast
  with fw_inv_sc [OF inv insert_sc_change [OF nt len st s'(1)] s'(2)] show ?thesis by (simp add: setStrategy_def)
next
  case False
  then show ?thesis
    using inv StrategyChoice_insert_fails [of pfx lc n s]
    by (cases "length pfx \<le> getMaxDepth"; cases "Strategy_create lc n") (simp_all add: setStrategy_def)
qed

lemma erase_sc_change:
  assumes nt: "nt_inv (ntree s)" and r: "StrategyChoice_erase pfx s = Some s'"
  shows "sc_change s s'"
proof (cases "s' = s")
  case True
  then show ?thesis using sc_change_tree(2) [OF nt, of s] by simp
next
  case False
  with r obtain old parent e where e: "findExactMatch pfx (length pfx) (ntree s) = Some e"
    and s': "s' = (changeStrategy pfx old parent s)\<lparr>
        ntree := fst (eraseIfEmpty pfx True (nt_update pfx (setStrategyChoiceEntry None) (ntree (changeStrategy pfx old parent s)))),
        sc_nItems := sc_nItems (changeStrategy pfx old parent s) - 1\<rparr>"
    by (auto simp: StrategyChoice_erase_def Let_def split: if_splits option.splits)
  have "nt_find (ntree s) pfx \<noteq> None" using e findExactMatch_self [OF nt, of pfx] by simp
  note c = sc_change_strategy [OF nt this, of old parent]
  have "nt_inv (nt_update pfx (setStrategyChoiceEntry None) (ntree s))" using nt by (rule sc_att.put_inv)
  then show ?thesis
    unfolding s' by (intro sc_change_trans [OF c] sc_change_tree)
      (simp_all add: eraseIfEmpty_inv nt_fib_erase nt_pits_eraseIfEmpty nt_meas_erase table_simps)
qed

lemma unsetStrategy_ok:
  assumes inv: "fw_inv sha s" and "pfx \<noteq> []"
  shows "outcome_ok sha (unsetStrategy pfx s)"
proof -
  have sc: "sc_inv s" and nt: "nt_inv (ntree s)" using fw_invD(1) [OF inv] by (simp_all add: tables_ok_def sc_inv_def)
  obtain s' where s': "StrategyChoice_erase pfx s = Some s'" "sc_inv s'"
    using StrategyChoice_erase_ok [OF sc assms(2)] by blast
  with fw_inv_sc [OF inv erase_sc_change [OF nt s'(1)] s'(2)] show ?thesis by (simp add: unsetStrategy_def)
qed

section \<open>Configuration\<close>

text \<open>A change of the Content Store, the network regions and the policy for unsolicited Data.\<close>

lemma fw_inv_config:
  assumes "fw_inv sha s" "cs_inv sha c" "cs_fresh c"
  shows "fw_inv sha (s\<lparr>fw_cs := c, fw_unsolicited := u\<rparr>)" and "fw_inv sha (s\<lparr>fw_regions := rs\<rparr>)"
  using assms by (simp_all add: fw_inv_defs fib_inv_def pit_inv_def meas_inv_def sc_inv_def fib_nexthop_def)

lemma cs_fresh_subset: "cs_fresh c \<Longrightarrow> set (cs_table c') \<subseteq> set (cs_table c) \<Longrightarrow> cs_fresh c'"
  by (auto simp: cs_fresh_def)

lemma cs_config_fresh:
  assumes "cs_inv sha c" "cs_fresh c"
  shows "cs_fresh (Cs_setLimit sha n c)" "cs_fresh (enableAdmit b c)" "cs_fresh (enableServe b c)"
    and "cs_table c = [] \<Longrightarrow> cs_fresh (Cs_setPolicy sha p c)"
    and "cs_fresh (fst (Cs_erase sha q limit c))"
proof -
  show "cs_fresh (Cs_setLimit sha n c)" by (rule cs_fresh_subset [OF assms(2) Cs_config_inv(3) [OF assms(1)]])
  show "cs_fresh (fst (Cs_erase sha q limit c))" by (rule cs_fresh_subset [OF assms(2) Cs_erase_inv(2) [OF assms(1)]])
  show "cs_fresh (enableAdmit b c)" "cs_fresh (enableServe b c)"
    using assms(2) by (simp_all add: enableAdmit_def enableServe_def cs_fresh_def)
  show "cs_fresh (Cs_setPolicy sha p c)" if "cs_table c = []"
    using that evictEntries_subset [of sha "cs_limit c" "[]" p]
    by (auto simp: Cs_setPolicy_def Cs_setLimit_def Cs_evict_def cs_fresh_def split: prod.split)
qed

lemma CsPolicy_create_refs: "CsPolicy_create n = Some p \<Longrightarrow> policy_refs p = []"
  by (auto simp: CsPolicy_create_def split: if_splits)

lemma apply_config_inv:
  assumes inv: "fw_inv sha s" and pol: "\<And>p. csPolicy = Some p \<Longrightarrow> policy_refs p = []"
  shows "fw_inv sha (apply_config sha n csPolicy u s)"
proof -
  let ?c = "Cs_setLimit sha n (fw_cs s)"
  note c = Cs_config_inv(1) [OF fw_invD(2) [OF inv], of n] cs_config_fresh(1) [OF fw_invD(2,7) [OF inv], of n]
  show ?thesis
    unfolding apply_config_def Let_def using c pol
    by (intro fw_inv_config(1) [OF inv]) (auto split: option.split simp: Cs_config_inv cs_config_fresh)
qed

text \<open>What is kept by setting a strategy choice, the regions, and the store and policy, is kept by configuration.\<close>

lemma insert_choices_keeps:
  assumes "\<And>s pfx st s' res. P s \<Longrightarrow> StrategyChoice_insert lc pfx st s = Some (s', res) \<Longrightarrow> P s'"
  shows "P s \<Longrightarrow> P (fst (insert_choices lc cs s))"
proof (induction cs arbitrary: s)
  case (Cons x cs)
  obtain pfx st where x: "x = (pfx, st)" by fastforce
  have "P s'" if "StrategyChoice_insert lc pfx st s = Some (s', res)" for s' res
    by (rule assms [OF Cons.prems that])
  with Cons show ?case by (auto simp: x split: option.split prod.split)
qed simp

lemma insert_regions_keeps:
  assumes "\<And>s rs. P s \<Longrightarrow> P (s\<lparr>fw_regions := rs\<rparr>)"
  shows "P s \<Longrightarrow> P (fst (insert_regions uris s))"
  using assms by (induction uris arbitrary: s) (auto split: sum.split)

lemma processConfig_keeps:
  assumes s: "P s" and choice: "\<And>s pfx st s' res. P s \<Longrightarrow> StrategyChoice_insert lc pfx st s = Some (s', res) \<Longrightarrow> P s'"
    and regions: "\<And>s rs. \<not> isDryRun \<Longrightarrow> tc_networkRegion cfg \<noteq> None \<Longrightarrow> P s \<Longrightarrow> P (s\<lparr>fw_regions := rs\<rparr>)"
    and app: "\<And>s n p u. P s \<Longrightarrow> (\<And>q. p = Some q \<Longrightarrow> policy_refs q = []) \<Longrightarrow> P (apply_config sha n p u s)"
  shows "P (fst (processConfig sha lc isDryRun cfg s))"
proof -
  have sc: "P (fst (case tc_strategyChoice cfg of
      Some sec \<Rightarrow> processStrategyChoiceSection lc isDryRun sec s | None \<Rightarrow> (s, None)))" (is "P (fst ?r)")
    using s insert_choices_keeps [of P lc, OF choice]
    by (auto simp: processStrategyChoiceSection_def split: option.split sum.split)
  have nr: "P (fst (processNetworkRegionSection isDryRun sec x))" if "P x" "tc_networkRegion cfg = Some sec" for x sec
    using that insert_regions_keeps [of P, OF regions]
    by (cases isDryRun) (auto simp: processNetworkRegionSection_def regions)
  have sub: "P (fst (process_subsections lc isDryRun cfg s))"
    unfolding process_subsections_def using sc nr
    by (cases ?r; cases "snd ?r") (auto split: option.split)
  define cp where "cp = Option.bind (tc_csPolicy cfg) CsPolicy_create"
  have "policy_refs q = []" if "cp = Some q" for q
    using that CsPolicy_create_refs by (auto simp: cp_def bind_eq_Some_conv)
  then have "P (apply_config sha n cp u x)" if "P x" for n u x using app that by blast
  then show ?thesis
    unfolding processConfig_def Let_def cp_def [symmetric] using s sub
    by (cases "process_subsections lc isDryRun cfg s"; cases "snd (process_subsections lc isDryRun cfg s)")
      (auto split: option.split)
qed

lemma processConfig_inv:
  assumes "fw_inv sha s"
  shows "fw_inv sha (fst (processConfig sha lc isDryRun cfg s))"
proof (rule processConfig_keeps [where P = "fw_inv sha"])
  show "fw_inv sha s'" if "fw_inv sha s" "StrategyChoice_insert lc pfx st s = Some (s', res)" for s pfx st s' res
    using setStrategy_ok [OF that(1), of lc pfx st] that(2) by (simp add: setStrategy_def)
qed (use assms in \<open>auto intro: fw_inv_config(2) apply_config_inv fw_invD(2,7)\<close>)

lemma changeConfig_inv:
  assumes inv: "fw_inv sha s"
  shows "fw_inv sha (changeConfig sha capacity admit serve s)"
proof -
  define c1 where "c1 = (case capacity of Some n \<Rightarrow> Cs_setLimit sha n (fw_cs s) | None \<Rightarrow> fw_cs s)"
  define c2 where "c2 = (case admit of Some b \<Rightarrow> enableAdmit b c1 | None \<Rightarrow> c1)"
  define c3 where "c3 = (case serve of Some b \<Rightarrow> enableServe b c2 | None \<Rightarrow> c2)"
  have "cs_inv sha c1 \<and> cs_fresh c1"
    using fw_invD(2,7) [OF inv] by (simp add: c1_def Cs_config_inv cs_config_fresh split: option.split)
  then have "cs_inv sha c2 \<and> cs_fresh c2" by (auto simp: c2_def Cs_config_inv cs_config_fresh split: option.split)
  then have "cs_inv sha c3 \<and> cs_fresh c3" by (auto simp: c3_def Cs_config_inv cs_config_fresh split: option.split)
  then show ?thesis
    unfolding changeConfig_def Let_def c1_def [symmetric] c2_def [symmetric] c3_def [symmetric]
    by (simp add: fw_inv_cs [OF inv])
qed

lemma CsManager_erase_cs:
  assumes "CsManager_erase env n k s = Inr (s', r)" "fw_inv (e_sha env) s"
  obtains c where "s' = s\<lparr>fw_cs := c\<rparr>" "cs_inv (e_sha env) c" "cs_fresh c"
proof -
  let ?sha = "e_sha env" and ?limit = "min (case k of Some k \<Rightarrow> k | None \<Rightarrow> 2 ^ 64 - 1) ERASE_LIMIT"
  obtain c1 m where e: "Cs_erase ?sha n ?limit (fw_cs s) = (c1, m)" by fastforce
  have c1: "cs_inv ?sha c1" "cs_fresh c1"
    using Cs_erase_inv(1) [OF fw_invD(2) [OF assms(2)], of n ?limit] cs_config_fresh(5) [OF fw_invD(2,7) [OF assms(2)], of n ?limit] e
    by simp_all
  have "cs_inv ?sha c2 \<and> cs_fresh c2" if "Cs_find ?sha now i c1 = (c2, h)" for now i c2 h
    using Cs_find_inv [OF c1(1), of now i] cs_fresh_find(1) [OF c1(2) that] that by simp
  then show thesis
    using assms(1) that c1 unfolding CsManager_erase_def Let_def e prod.case
    by (auto split: if_splits sum.splits prod.splits)
qed

lemma CsManager_erase_ok:
  assumes "fw_inv (e_sha env) s"
  shows "outcome_ok (e_sha env) (map_sum id fst (CsManager_erase env n k s))"
proof (cases "CsManager_erase env n k s")
  case (Inl err)
  then have "Interest_new (e_sha env) n DEFAULT_INTEREST_LIFETIME = Inl err"
    by (auto simp: CsManager_erase_def Let_def split: if_splits sum.splits prod.splits)
  then have "err \<noteq> AssertionFailed"
    by (auto simp: Interest_new_def Interest_setName_def setInterestLifetime_def
        hasApplicationParameters_def Let_def split: sum.splits if_splits)
  with Inl show ?thesis by simp
next
  case (Inr r)
  obtain s' x where r: "r = (s', x)" by (cases r)
  show ?thesis
    using Inr unfolding r by (rule CsManager_erase_cs) (use assms in \<open>simp_all add: Inr r fw_inv_cs\<close>)
qed

section \<open>Events\<close>

lemma Measurements_cleanup_fw:
  assumes inv: "fw_inv sha s" and m: "nt_meas (ntree s) n \<noteq> None"
  shows "fw_inv sha (Measurements_cleanup n s)"
proof -
  have t: "tables_ok s" by (rule fw_invD(1) [OF inv])
  then have meas: "meas_inv s" and nt: "nt_inv (ntree s)" by (simp_all add: tables_ok_def meas_inv_def)
  have meas': "meas_inv (Measurements_cleanup n s)" using Measurements_cleanup_ok [OF meas] m by (simp add: meas_abs_def)
  have c: "same_but_meas s (Measurements_cleanup n s)" by (rule same_but_meas_ops(4) [OF nt])
  obtain u k where s': "Measurements_cleanup n s = s\<lparr>ntree := u, meas_nItems := k\<rparr>"
    using c unfolding same_but_meas_def by blast
  have v: "nt_fib u = nt_fib (ntree s)" "nt_pits u = nt_pits (ntree s)" "nt_strategy u = nt_strategy (ntree s)"
    using c by (simp_all add: same_but_meas_def s')
  have "nt_inv u" using meas' by (simp add: meas_inv_def s')
  then have "tables_ok (Measurements_cleanup n s)"
    using t meas' by (simp add: tables_ok_def fib_inv_def pit_inv_def sc_inv_def s' v)
  then show ?thesis
    by (rule fw_inv_tables [OF inv])
      (simp_all add: s' fw_invD(6) [OF inv] fw_invD(5) [OF inv] fib_nexthop_def v)
qed

lemma fw_inv_dnl_step: "fw_inv sha s \<Longrightarrow> fw_inv sha (s\<lparr>fw_dnl := dnl_step city op (fw_dnl s)\<rparr>)"
  by (rule fw_inv_dnl) (simp_all add: dnl_step_inv fw_invD(3))

lemma handle_ok:
  assumes vt: "contracts vt" and env: "env_ok env" "e_sha env = sha" and inv: "fw_inv sha s"
    and en: "enabled sha (e_now env) ev s"
  shows "outcome_ok sha (handle vt lc env ev s)"
proof (cases ev)
  case (ExpireMeasurements n)
  then show ?thesis using en inv by (auto intro!: Measurements_cleanup_fw split: option.splits)
next
  case (ExpireEntry p)
  obtain s' where "onInterestFinalize env p s = Inr s'" "fw_inv sha s'" by (rule onInterestFinalize_inv [OF inv])
  with ExpireEntry show ?thesis by simp
next
  case (EraseCs n k)
  then show ?thesis using CsManager_erase_ok [of env s n k] inv env(2) by simp
next
  case MarkDeadNonces
  then show ?thesis using fw_inv_dnl_step [OF inv, of undefined "Mark (e_now env)"] by simp
next
  case AdjustDeadNonces
  then show ?thesis using fw_inv_dnl_step [OF inv, of undefined "Adjust (e_now env)"] by simp
qed (use en inv in \<open>simp_all add: onIncomingInterest_ok [OF vt env] onIncomingData_ok [OF vt env] onIncomingNack_ok [OF vt env(1)]
    onDroppedInterest_ok [OF vt env(1)] addFace_inv addReservedFace_inv removeFace_inv
    processConfig_inv changeConfig_inv env(2)
    addNextHop_ok [OF vt env(1)] removeNextHop_inv setStrategy_ok unsetStrategy_ok fw_inv_cs Cs_staleEvent_inv cs_fresh_stale
    fw_invD(2,7)\<close>)

lemma Forwarder_new_inv:
  assumes "\<And>f. f_id (store f) = INVALID_FACEID" and new: "Forwarder_new lc now store = Some s"
  shows "fw_inv sha s"
proof -
  obtain d where d: "DeadNonceList_new now DEFAULT_LIFETIME = Some d" using new by (auto simp: Forwarder_new_def split: option.splits)
  have dnl: "dnl_inv d" using d by (auto simp: DeadNonceList_new_def dnl_inv_def dnl_consts split: if_splits)
  note v = setDefaultStrategy_view [OF nt_inv_Nil, of best_route]
  define t where "t = nt_update [] (setStrategyChoiceEntry (Some best_route)) (nt_lookup [] 0 [])"
  note v = v [folded t_def]
  have views: "nt_fib t = nt_fib []" "nt_pits t = nt_pits []" "nt_meas t = nt_meas []" by (simp_all add: t_def table_simps)
  have s: "s = \<lparr>ntree = t, fib_nItems = 0, pit_heap = Map.empty, pit_next = 0, pit_nItems = 0,
      meas_nItems = 0, sc_nItems = 1, fw_faceTable = FaceTable_new store, fw_cs = Cs_new 10, fw_dnl = d,
      fw_regions = [], fw_unsolicited = DropAll, fw_counters = counters_new, fw_sent = []\<rparr>"
    using new d by (simp add: Forwarder_new_def setDefaultStrategy_default t_def)
  have "tables_ok s"
    by (simp add: tables_ok_def s fib_inv_def pit_inv_def meas_inv_def sc_inv_def v views)
      (simp add: pit_ok_def pit_live_def dom_def)
  moreover have "refs_ok s" by (simp add: refs_ok_def s fib_nexthop_def views)
  moreover have fresh: "cs_fresh (Cs_new 10)" by (simp add: cs_fresh_def Cs_new_def)
  ultimately show ?thesis
    using dnl ft_inv_new [OF assms(1)]
    by (simp add: fw_inv_def) (simp add: s log_ok_def counted_def counters_new_def Cs_new_inv fresh)
qed

lemma reachable_inv: "reachable vt lc sha s \<Longrightarrow> contracts vt \<Longrightarrow> fw_inv sha s"
proof (induction rule: reachable.induct)
  case (reach_step s env ev s')
  then have "outcome_ok sha (handle vt lc env ev s)" by (intro handle_ok)
  with reach_step show ?case by simp
qed (rule Forwarder_new_inv)

end
