(* ===== verification/ForwarderTimers.thy ===== *)
theory ForwarderTimers
  imports ForwarderTables
begin

text \<open>
  The PIT entries during a run. No entry is left behind: every entry in the PIT has an expiry timer,
  set in the event that inserts the entry, and when the timer fires the entry leaves the PIT. No
  entry has a forwarding hint that names a region of this forwarder, and no FIB entry is without
  nexthops, which \<^verbatim>\<open>lookupFib\<close> asserts.
\<close>

section \<open>Entries that evolve\<close>

text \<open>
  A later stage of an entry: the same Interest, not attached anew, and no timer lost while attached.
  FIB entries that are new or changed have nexthops.
\<close>

definition entry_le :: "pit_entry \<Rightarrow> pit_entry \<Rightarrow> bool" where
  "entry_le e e' \<longleftrightarrow> pe_interest e' = pe_interest e \<and>
     (pe_nte e' \<noteq> None \<longrightarrow> pe_nte e \<noteq> None \<and> (pe_expiryTimer e \<noteq> None \<longrightarrow> pe_expiryTimer e' \<noteq> None))"

definition evolves :: "fw_state \<Rightarrow> fw_state \<Rightarrow> bool" where
  "evolves s s' \<longleftrightarrow> fw_regions s' = fw_regions s \<and>
     (\<forall>q e'. pit_heap s' q = Some e' \<longrightarrow> (\<exists>e. pit_heap s q = Some e \<and> entry_le e e')) \<and>
     (\<forall>n fe. nt_fib (ntree s') n = Some fe \<longrightarrow> nt_fib (ntree s) n = Some fe \<or> hasNextHops fe)"

lemma entry_le_refl [simp]: "entry_le e e"
  by (simp add: entry_le_def)

lemma entry_le_trans: "entry_le e e' \<Longrightarrow> entry_le e' e'' \<Longrightarrow> entry_le e e''"
  by (auto simp: entry_le_def)

lemma evolves_refl [simp]: "evolves s s"
  by (simp add: evolves_def)

lemma evolves_trans [trans]: "evolves s s' \<Longrightarrow> evolves s' s'' \<Longrightarrow> evolves s s''"
  unfolding evolves_def using entry_le_trans by metis

lemma evolves_modify:
  assumes "\<And>e. entry_le e (f e)" and "evolves s0 s"
  shows "evolves s0 (pit_modify p f s)"
proof -
  have "evolves s (pit_modify p f s)" using assms(1) by (auto simp: evolves_def pit_modify_def)
  with assms(2) show ?thesis by (rule evolves_trans)
qed

lemma entry_le_ops [simp]:
  "entry_le e (insertOrUpdateInRecord rnd now f i e)" "entry_le e (insertOrUpdateOutRecord rnd now f i e)"
  "entry_le e (deleteInRecord f e)" "entry_le e (deleteOutRecord f e)" "entry_le e (clearInRecords e)"
  "entry_le e (or_modify f g e)" "entry_le e (drop_face f e)" "entry_le e (clear_info e)"
  "entry_le e (e\<lparr>pe_isSatisfied := b\<rparr>)" "entry_le e (e\<lparr>pe_dataFreshnessPeriod := m\<rparr>)"
  "entry_le e (e\<lparr>pe_suppression := x\<rparr>)" "entry_le e (e\<lparr>pe_expiryTimer := Some t\<rparr>)" "entry_le e (e\<lparr>pe_nte := None\<rparr>)"
  by (simp_all add: entry_le_def insertOrUpdateInRecord_def insertOrUpdateOutRecord_def deleteInRecord_def deleteOutRecord_def
      clearInRecords_def or_modify_def drop_face_def clear_info_def Let_def)

lemma evolves_simps [simp]:
  "evolves s0 (bump f s) = evolves s0 s" "evolves s0 (face_send p pkt s) = evolves s0 s"
  "evolves s0 (face_modify p g s) = evolves s0 s" "evolves s0 (s\<lparr>fw_cs := c\<rparr>) = evolves s0 s"
  "evolves s0 (s\<lparr>fw_dnl := d\<rparr>) = evolves s0 s" "evolves s0 (s\<lparr>fw_faceTable := ft\<rparr>) = evolves s0 s"
  "nt_fib t = nt_fib (ntree s) \<Longrightarrow> evolves s0 (s\<lparr>ntree := t\<rparr>) = evolves s0 s"
  by (simp_all add: evolves_def bump_def face_send_def face_modify_def)

text \<open>The properties that evolution keeps.\<close>

definition entry_live :: "name list \<Rightarrow> pit_entry \<Rightarrow> bool" where
  "entry_live regions e \<longleftrightarrow>
     (pe_nte e \<noteq> None \<longrightarrow> \<not> isInProducerRegion regions (i_forwardingHint (pe_interest e)) \<and> pe_expiryTimer e \<noteq> None)"

definition entries_live :: "fw_state \<Rightarrow> bool" where
  "entries_live s \<longleftrightarrow> (\<forall>q e. pit_heap s q = Some e \<longrightarrow> entry_live (fw_regions s) e) \<and>
     (\<forall>n fe. nt_fib (ntree s) n = Some fe \<longrightarrow> hasNextHops fe)"

lemma entry_le_live: "entry_le e e' \<Longrightarrow> entry_live r e \<Longrightarrow> entry_live r e'"
  by (auto simp: entry_le_def entry_live_def)

lemma evolves_live: "evolves s s' \<Longrightarrow> entries_live s \<Longrightarrow> entries_live s'"
  unfolding evolves_def entries_live_def using entry_le_live by metis

section \<open>Actions\<close>

lemma evolves_timer: "evolves s0 s \<Longrightarrow> evolves s0 (setExpiryTimer env p d s)"
  unfolding setExpiryTimer_def Let_def by (rule evolves_modify) simp_all

lemma evolves_interest: "evolves s0 s \<Longrightarrow> evolves s0 (fst (onOutgoingInterest env p egress i s))"
  by (simp add: onOutgoingInterest_def Let_def evolves_modify)

lemma evolves_data: "evolves s0 s \<Longrightarrow> evolves s0 (fst (onOutgoingData d egress s))"
  by (simp add: onOutgoingData_def Let_def)

lemma evolves_nack: "evolves s0 s \<Longrightarrow> evolves s0 (fst (onOutgoingNack p egress reason s))"
  by (simp add: onOutgoingNack_def Let_def evolves_modify split: option.split)

lemma action_evolves: "action env p s s' \<Longrightarrow> evolves s s'"
proof (induction rule: action.induct)
  case (act_data s d egress)
  then show ?case by (simp add: sendData_def Let_def evolves_data evolves_modify split: option.split)
next
  case (act_info g s)
  have "entry_le e (g e)" for e using act_info [of e] by auto
  then show ?case by (intro evolves_modify) simp_all
next
  case (act_record_info g f s)
  have "entry_le e (g e)" for e using act_record_info [of e] by auto
  then show ?case by (intro evolves_modify) simp_all
qed (simp_all add: evolves_interest sendNack_def evolves_nack evolves_timer)

lemma actions_evolve: "actions env p s s' \<Longrightarrow> evolves s s'"
  by (induction rule: rtranclp_induct) (auto intro: evolves_trans action_evolves)

definition has_timer :: "pit_id \<Rightarrow> fw_state \<Rightarrow> bool" where
  "has_timer p s \<longleftrightarrow> (\<forall>e. pit_heap s p = Some e \<longrightarrow> pe_nte e \<noteq> None \<longrightarrow> pe_expiryTimer e \<noteq> None)"

lemma has_timer_set: "has_timer p (setExpiryTimer env p d s)"
  by (auto simp: has_timer_def setExpiryTimer_def pit_modify_def Let_def)

lemma has_timer_evolves: "evolves s s' \<Longrightarrow> has_timer p s \<Longrightarrow> has_timer p s'"
  unfolding evolves_def has_timer_def entry_le_def by blast

text \<open>What a pipeline that works on one entry guarantees.\<close>

definition sets_timer :: "pit_id \<Rightarrow> fw_state \<Rightarrow> packet_error + fw_state \<Rightarrow> bool" where
  "sets_timer p s r \<longleftrightarrow> (\<forall>s'. r = Inr s' \<longrightarrow> evolves s s' \<and> has_timer p s')"

lemma sets_timerI:
  assumes "evolves s s1" "has_timer p s1" and "\<And>s'. r = Inr s' \<Longrightarrow> evolves s1 s'"
  shows "sets_timer p s r"
  using assms evolves_trans has_timer_evolves unfolding sets_timer_def by blast

section \<open>Interests\<close>

lemma strategy_contract_of: "contracts vt \<Longrightarrow> strategy_of vt p s = Some st \<Longrightarrow> strategy_contract st"
  by (auto simp: contracts_def strategy_of_def bind_eq_Some_conv)

lemma onContentStoreMiss_timer:
  assumes vt: "contracts vt" and env: "env_ok env"
  shows "sets_timer p s (onContentStoreMiss vt env ingress p i s)"
proof -
  define s2 where "s2 = pit_modify p (insertOrUpdateInRecord (e_nonce env) (e_now env) ingress i)
    (bump (\<lambda>c. c\<lparr>nCsMisses := nCsMisses c + 1\<rparr>) s)"
  have k2: "evolves s s2" unfolding s2_def by (rule evolves_modify) simp_all
  show ?thesis
  proof (cases "pit_heap s2 p")
    case None
    then show ?thesis by (simp add: sets_timer_def onContentStoreMiss_def Let_def s2_def)
  next
    case (Some e)
    define s3 where "s3 = setExpiryTimer env p (trunc_ms (lastExpiring (pe_inRecords e) - e_now env)) s2"
    have k3: "evolves s s3" unfolding s3_def by (rule evolves_timer [OF k2])
    have t3: "has_timer p s3" unfolding s3_def by (rule has_timer_set)
    have "evolves s3 s'" if "onContentStoreMiss vt env ingress p i s = Inr s'" for s'
    proof -
      have "(case i_nextHopFaceId i of
         Some tag \<Rightarrow> (case FaceTable_get tag (fw_faceTable s3) of
              Some f \<Rightarrow> Inr (fst (onOutgoingInterest env p f i s3)) | None \<Rightarrow> Inr s3)
       | None \<Rightarrow> (case strategy_of vt p s3 of
              None \<Rightarrow> Inl AssertionFailed | Some st \<Rightarrow> vt_afterReceiveInterest st env ingress i p s3)) = Inr s'"
        using that unfolding onContentStoreMiss_def Let_def s2_def [symmetric] Some option.simps(5) s3_def [symmetric] .
      then show ?thesis
        by (auto split: option.splits simp: evolves_interest
            dest: strategy_contract.afterReceiveInterest [OF strategy_contract_of [OF vt] env] actions_evolve)
    qed
    with k3 t3 show ?thesis by (rule sets_timerI)
  qed
qed

lemma onContentStoreHit_timer:
  assumes vt: "contracts vt" and env: "env_ok env"
  shows "sets_timer p s (onContentStoreHit vt env ingress p i d s)"
proof -
  define s1 where "s1 = setExpiryTimer env p 0 (pit_modify p (\<lambda>e. e\<lparr>pe_dataFreshnessPeriod := d_freshnessPeriod d\<rparr>)
    (pit_modify p (\<lambda>e. e\<lparr>pe_isSatisfied := True\<rparr>) (bump (\<lambda>c. c\<lparr>nCsHits := nCsHits c + 1\<rparr>) s)))"
  have k1: "evolves s s1" unfolding s1_def by (intro evolves_timer evolves_modify) simp_all
  have "has_timer p s1" unfolding s1_def by (rule has_timer_set)
  moreover have "evolves s1 s'" if "onContentStoreHit vt env ingress p i d s = Inr s'" for s'
    using that unfolding onContentStoreHit_def Let_def
    by (simp add: s1_def [symmetric] split: option.splits)
      (auto dest: strategy_contract_of [OF vt] intro!: actions_evolve strategy_contract.afterContentStoreHit [OF _ env])
  ultimately show ?thesis by (rule sets_timerI [OF k1])
qed

text \<open>An insertion brings no other entry than the new one, which has no timer yet.\<close>

lemma findOrInsert_entries:
  assumes inv: "fw_inv sha s" and small: "interest_small i" and r: "findOrInsert i True s = (s1, Some p, b)"
    and e: "pit_heap s1 q = Some e"
  shows "pit_heap s q = Some e \<or> q = p \<and> pe_interest e = i \<and> pe_inRecords e = [] \<and> pe_outRecords e = []"
proof -
  have pit: "pit_inv s" using fw_invD(1) [OF inv] by (simp add: tables_ok_def)
  show ?thesis
    using r e by (auto simp: findOrInsert_insert [OF pit small] Let_def PitEntry_new_def split: option.splits if_splits)
qed

lemma findOrInsert_regions:
  assumes "fw_inv sha s" "interest_small i"
  shows "fw_regions (fst (findOrInsert i True s)) = fw_regions s"
    and "nt_fib (ntree (fst (findOrInsert i True s))) = nt_fib (ntree s)"
  using assms fw_invD(1) by (simp_all add: findOrInsert_insert Let_def tables_ok_def table_simps split: option.split)

lemma onIncomingInterest_pit_live:
  assumes vt: "contracts vt" and env: "env_ok env" and inv: "fw_inv sha s" and small: "interest_small i"
    and hint: "\<not> isInProducerRegion (fw_regions s) (i_forwardingHint i)"
    and live: "entries_live s" and r: "onIncomingInterest_pit vt env ingress nonce i s = Inr s'"
  shows "entries_live s'"
proof -
  obtain p e where f: "findOrInsert i True s = (fst (findOrInsert i True s), Some p, pit_abs s (interest_key i) = None)"
    and e: "pit_heap (fst (findOrInsert i True s)) p = Some e"
    by (rule findOrInsert_fw [OF inv small]) blast
  define s1 where "s1 = fst (findOrInsert i True s)"
  note f = f [folded s1_def] and e = e [folded s1_def]
  have reg: "fw_regions s1 = fw_regions s" "nt_fib (ntree s1) = nt_fib (ntree s)"
    unfolding s1_def by (rule findOrInsert_regions [OF inv small])+
  have fib: "hasNextHops fe" if "nt_fib (ntree s1) n = Some fe" for n fe
    using live that by (auto simp: entries_live_def reg(2))
  have before: "entry_live (fw_regions s) x" if "pit_heap s q = Some x" for q x
    using live that by (simp add: entries_live_def)
  have live1: "entry_live (fw_regions s) x \<or>
      q = p \<and> pe_interest x = i \<and> pe_inRecords x = [] \<and> pe_outRecords x = []" if "pit_heap s1 q = Some x" for q x
    using findOrInsert_entries [OF inv small f that] before by blast
  have final: "entries_live s''" if ev: "evolves s1 s''" and t: "has_timer p s''" for s''
    unfolding entries_live_def
  proof (intro conjI allI impI)
    fix n fe assume "nt_fib (ntree s'') n = Some fe"
    then show "hasNextHops fe" using ev fib unfolding evolves_def by blast
  next
    fix q x assume x: "pit_heap s'' q = Some x"
    then obtain x1 where x1: "pit_heap s1 q = Some x1" "entry_le x1 x" and r: "fw_regions s'' = fw_regions s"
      using ev reg(1) unfolding evolves_def by metis
    from live1 [OF x1(1)] show "entry_live (fw_regions s'') x"
    proof
      assume "q = p \<and> pe_interest x1 = i \<and> pe_inRecords x1 = [] \<and> pe_outRecords x1 = []"
      then show ?thesis using t x x1(2) hint by (simp add: entry_live_def has_timer_def entry_le_def r)
    qed (simp add: entry_le_live [OF x1(2)] r)
  qed
  obtain cs hit where cs: "Cs_find (e_sha env) (e_now env) i (fw_cs s1) = (cs, hit)" by fastforce
  have loop: "entries_live (onInterestLoop ingress i s1)" if "findDuplicateNonce e nonce ingress \<noteq> DUPLICATE_NONCE_NONE"
  proof -
    have "pe_inRecords e \<noteq> [] \<or> pe_outRecords e \<noteq> []"
      using that by (auto simp: findDuplicateNonce_def Let_def)
    then have "entry_live (fw_regions s) x" if "pit_heap s1 q = Some x" for q x using live1 [OF that] e that by auto
    then have "entries_live s1" using fib by (simp add: entries_live_def reg(1))
    then show ?thesis by (rule evolves_live [rotated]) (simp add: onInterestLoop_def)
  qed
  have cs_update: "evolves (s1\<lparr>fw_cs := cs\<rparr>) x = evolves s1 x" for x by (simp add: evolves_def)
  have timed: "entries_live s'" if "sets_timer p s1 r" "r = Inr s'" for r
    using that final by (simp add: sets_timer_def)
  have timed_cs: "entries_live s'" if "sets_timer p (s1\<lparr>fw_cs := cs\<rparr>) r" "r = Inr s'" for r
    using that final by (simp add: sets_timer_def cs_update)
  show ?thesis
    using r unfolding onIncomingInterest_pit_def f
    by (auto simp: e cs Let_def loop split: if_splits option.splits
        intro: timed [OF onContentStoreMiss_timer [OF vt env]]
        timed_cs [OF onContentStoreMiss_timer [OF vt env]] timed_cs [OF onContentStoreHit_timer [OF vt env]])
qed

lemma onIncomingInterest_live:
  assumes vt: "contracts vt" and env: "env_ok env" and inv: "fw_inv sha s" and small: "interest_small i"
    and live: "entries_live s" and r: "onIncomingInterest vt env ingress i s = Inr s'"
  shows "entries_live s'"
proof -
  define s1 where "s1 = bump (\<lambda>c. c\<lparr>nInInterests := nInInterests c + 1\<rparr>) s"
  define i1 where "i1 = i\<lparr>i_incomingFaceId := Some (f_id (fw_face s ingress))\<rparr>"
  define i2 where "i2 = (case i_hopLimit i1 of Some h \<Rightarrow> setHopLimit (Some (h - 1)) i1 | None \<Rightarrow> i1)"
  define i3 where "i3 = snd (getNonce (e_nonce env) i2)"
  have s1: "fw_inv sha s1" unfolding s1_def by (rule fw_inv_bump [OF inv]) simp
  have l1: "entries_live s1" by (rule evolves_live [OF _ live]) (simp add: s1_def)
  have sm: "interest_small i3" using small by (simp add: i3_def i2_def i1_def split: option.split)
  obtain nonce where nx: "getNonce (e_nonce env) i2 = (nonce, i3)" unfolding i3_def by (cases "getNonce (e_nonce env) i2") simp
  have easy: "entries_live (face_modify f g s1)" "entries_live (face_send f pkt s1)" for f g pkt
    by (rule evolves_live [OF _ l1], simp)+
  note pit = onIncomingInterest_pit_live [OF vt env s1 _ _ l1]
  have reg: "fw_regions s1 = fw_regions s" by (simp add: s1_def bump_def)
  have nohint: "\<not> isInProducerRegion rs (i_forwardingHint (setForwardingHint [] i3))" for rs
    by (simp add: isInProducerRegion_def setForwardingHint_def list_ex_iff)
  have empty: "i_forwardingHint i3 = [] \<Longrightarrow> \<not> isInProducerRegion rs (i_forwardingHint i3)" for rs
    by (simp add: isInProducerRegion_def list_ex_iff)
  show ?thesis
    using r l1 easy unfolding onIncomingInterest_def Let_def
    unfolding i1_def [symmetric] s1_def [symmetric] i2_def [symmetric] nx prod.case
    by (auto split: if_splits simp: sm onInterestLoop_def
        intro: pit [OF sm] pit [OF _ nohint] dest: empty)
qed

section \<open>Data and Nacks\<close>

lemma map_sum_eq_Inr: "map_sum f g x = Inr y \<longleftrightarrow> (\<exists>z. x = Inr z \<and> y = g z)"
  by (cases x) auto

lemma mark_satisfied_evolves: "mark_satisfied env ingress d p s = Inr s' \<Longrightarrow> evolves s s'"
proof -
  assume r: "mark_satisfied env ingress d p s = Inr s'"
  define s1 where "s1 = pit_modify p (\<lambda>e. e\<lparr>pe_dataFreshnessPeriod := d_freshnessPeriod d\<rparr>)
    (pit_modify p (\<lambda>e. e\<lparr>pe_isSatisfied := True\<rparr>) s)"
  have "evolves s s1" unfolding s1_def by (intro evolves_modify) simp_all
  with r show ?thesis
    unfolding mark_satisfied_def Let_def s1_def [symmetric]
    by (auto split: option.splits elim!: insertDeadNonceList_Inr)
qed

lemma satisfy_single_evolves:
  assumes vt: "contracts vt" and env: "env_ok env" and r: "satisfy_single vt env ingress d p s = Inr s'"
  shows "evolves s s'"
proof -
  define s1 where "s1 = setExpiryTimer env p 0 s"
  have s1: "evolves s s1" unfolding s1_def by (rule evolves_timer) simp
  obtain st s2 where st: "strategy_of vt p s1 = Some st"
    and s2: "mark_satisfied env ingress d p (vt_afterReceiveData st env p ingress d s1) = Inr s2"
    and s': "s' = pit_modify p (deleteOutRecord ingress) s2"
    using r unfolding satisfy_single_def Let_def s1_def [symmetric]
    by (auto split: option.splits simp: map_sum_eq_Inr)
  have "evolves s1 (vt_afterReceiveData st env p ingress d s1)"
    by (rule actions_evolve [OF strategy_contract.afterReceiveData [OF strategy_contract_of [OF vt st] env]])
  from evolves_trans [OF s1 this] mark_satisfied_evolves [OF s2] have "evolves s s2" by (rule evolves_trans)
  then show ?thesis unfolding s' by (intro evolves_modify) simp_all
qed

lemma satisfy_all_evolves:
  assumes vt: "contracts vt" and env: "env_ok env"
  shows "satisfy_all vt env ingress d ps pending s = Inr (s', pending') \<Longrightarrow> evolves s s'"
proof (induction ps arbitrary: s pending)
  case (Cons p ps)
  define s1 where "s1 = setExpiryTimer env p 0 s"
  have s1: "evolves s s1" unfolding s1_def by (rule evolves_timer) simp
  obtain st s2 pending'' where st: "strategy_of vt p s1 = Some st"
    and s2: "mark_satisfied env ingress d p (vt_beforeSatisfyInterest st env p ingress d s1) = Inr s2"
    and rest: "satisfy_all vt env ingress d ps pending''
      (pit_modify p (deleteOutRecord ingress) (pit_modify p clearInRecords s2)) = Inr (s', pending')"
    using Cons.prems by (auto split: option.splits sum.splits simp: Let_def s1_def [symmetric])
  have "evolves s1 (vt_beforeSatisfyInterest st env p ingress d s1)"
    by (rule actions_evolve [OF strategy_contract.beforeSatisfyInterest [OF strategy_contract_of [OF vt st] env]])
  from evolves_trans [OF s1 this] mark_satisfied_evolves [OF s2] have "evolves s s2" by (rule evolves_trans)
  then have "evolves s (pit_modify p (deleteOutRecord ingress) (pit_modify p clearInRecords s2))"
    by (intro evolves_modify) simp_all
  with Cons.IH [OF rest] show ?case by (rule evolves_trans [rotated])
qed simp

lemma send_pending_evolves: "evolves s0 s \<Longrightarrow> evolves s0 (send_pending ingress d pending s)"
proof -
  have "evolves s0 s \<Longrightarrow> evolves s0 (fold (\<lambda>f s. if f_id (fw_face s f) = f_id (fw_face s ingress) \<and>
      f_linkType (fw_face s f) \<noteq> LINK_TYPE_AD_HOC then s else fst (onOutgoingData d f s)) fs s)" for fs
    by (induction fs arbitrary: s) (simp_all add: evolves_data)
  then show "evolves s0 s \<Longrightarrow> ?thesis" by (simp add: send_pending_def)
qed

lemma onIncomingData_evolves:
  assumes vt: "contracts vt" and env: "env_ok env" and r: "onIncomingData vt env ingress d s = Inr s'"
  shows "evolves s s'"
proof -
  define d1 where "d1 = d\<lparr>d_incomingFaceId := Some (f_id (fw_face s ingress))\<rparr>"
  define s1 where "s1 = bump (\<lambda>c. c\<lparr>nInData := nInData c + 1\<rparr>) s"
  define s2 where "s2 = s1\<lparr>fw_cs := Cs_insert (e_sha env) (e_now env) d1 False (fw_cs s1)\<rparr>"
  have s1: "evolves s s1" and s2: "evolves s s2" by (simp_all add: s1_def s2_def)
  have un: "evolves s (onDataUnsolicited env ingress d1 s1)" by (simp add: onDataUnsolicited_def Let_def s1)
  have one: "evolves s s'" if "satisfy_single vt env ingress d1 p s2 = Inr s'" for p
    by (rule evolves_trans [OF s2 satisfy_single_evolves [OF vt env that]])
  have many: "evolves s (send_pending ingress d1 pend x)" if "satisfy_all vt env ingress d1 ps [] s2 = Inr (x, pend)" for ps x pend
    by (intro send_pending_evolves evolves_trans [OF s2] satisfy_all_evolves [OF vt env that])
  show ?thesis
    using r s1 un one many unfolding onIncomingData_def Let_def
    unfolding d1_def [symmetric] s1_def [symmetric] s2_def [symmetric]
    by (auto simp del: satisfy_all.simps simp: map_sum_eq_Inr split: if_splits sum.splits list.splits)
qed

lemma onIncomingNack_evolves:
  assumes vt: "contracts vt" and env: "env_ok env" and inv: "fw_inv sha s" and small: "interest_small i"
    and r: "onIncomingNack vt env ingress i reason s = Inr s'"
  shows "evolves s s'"
proof -
  define s1 where "s1 = bump (\<lambda>c. c\<lparr>nInNacks := nInNacks c + 1\<rparr>) s"
  have s1: "evolves s s1" by (simp add: s1_def)
  have "pit_inv s1" using fw_invD(1) [OF fw_inv_bump [OF inv]] by (simp add: s1_def tables_ok_def)
  note find = findOrInsert_find [OF this small]
  show ?thesis
  proof (cases "pit_abs s1 (interest_key i)")
    case None
    then show ?thesis
      using r s1 by (auto simp: onIncomingNack_def Let_def s1_def [symmetric] find split: if_splits)
  next
    case (Some p)
    let ?nonce = "fst (getNonce (e_nonce env) i)"
    define s2 where "s2 = pit_modify p (or_modify ingress (\<lambda>r. fst (setIncomingNack ?nonce reason r))) s1"
    define s3 where "s3 = (case pit_heap s2 p of
        Some e \<Rightarrow> if \<not> hasPendingOutRecords (e_now env) e then setExpiryTimer env p 0 s2 else s2 | None \<Rightarrow> s2)"
    have s2: "evolves s s2" unfolding s2_def by (intro evolves_modify s1) simp
    then have s3: "evolves s s3" by (simp add: s3_def evolves_timer split: option.split)
    have "evolves s (vt_afterReceiveNack st env ingress i reason p s3)" if "strategy_of vt p s3 = Some st" for st
      by (rule evolves_trans [OF s3 actions_evolve
            [OF strategy_contract.afterReceiveNack [OF strategy_contract_of [OF vt that] env]]])
    moreover have "s' = s1 \<or> (\<exists>st. strategy_of vt p s3 = Some st \<and> s' = vt_afterReceiveNack st env ingress i reason p s3)"
      using r unfolding onIncomingNack_def Let_def s1_def [symmetric] find Some prod.case option.simps(5)
        s2_def [symmetric] s3_def [symmetric]
      by (auto split: if_splits option.splits)
    ultimately show ?thesis using s1 by blast
  qed
qed

lemma onDroppedInterest_evolves:
  assumes vt: "contracts vt" and env: "env_ok env" and r: "onDroppedInterest vt env egress i s = Inr s'"
  shows "evolves s s'"
proof -
  obtain st where st: "findEffectiveStrategy (i_name i) s = Some st" "s' = vt_onDroppedInterest (vt st) env egress i s"
    using r by (auto simp: onDroppedInterest_def split: option.splits)
  have "strategy_contract (vt st)" using vt by (simp add: contracts_def)
  from strategy_contract.onDroppedInterest [OF this env] st(2) show ?thesis by (auto dest: actions_evolve)
qed

section \<open>Tables\<close>

lemma evolves_fib:
  assumes c: "fib_change s s'"
    and "\<And>n fe. nt_fib (ntree s') n = Some fe \<Longrightarrow> nt_fib (ntree s) n = Some fe \<or> hasNextHops fe"
  shows "evolves s s'"
proof -
  have e: "s' = s\<lparr>ntree := ntree s', fib_nItems := fib_nItems s'\<rparr>" using c by (simp add: fib_change_def)
  have "fw_regions s' = fw_regions s" "pit_heap s' = pit_heap s" by (subst e, simp)+
  then show ?thesis using assms(2) by (simp add: evolves_def)
qed

lemma evolves_remove: "evolves s (fst (Fib_removeNextHop pfx face s))"
proof (cases "nt_fib (ntree s) pfx")
  case (Some fe)
  have "fst (Entry_removeNextHop face fe) = fe \<or> snd (Entry_removeNextHop face fe)"
    by (auto simp: Entry_removeNextHop_def Let_def)
  then show ?thesis
    by (intro evolves_fib [OF Fib_removeNextHop_change])
      (auto simp: Fib_remove_view [OF Some] Some Let_def split: if_splits prod.splits)
qed (simp add: Fib_removeNextHop_def)

lemma evolves_sc: "sc_change s s' \<Longrightarrow> evolves s s'"
proof -
  assume c: "sc_change s s'"
  then have "fw_regions s' = fw_regions s" "nt_fib (ntree s') = nt_fib (ntree s)" by (auto simp: sc_change_def)
  moreover have "\<exists>e. pit_heap s q = Some e \<and> entry_le e e'" if "pit_heap s' q = Some e'" for q e'
    using c that unfolding sc_change_def by (metis entry_le_ops(8) entry_le_refl map_option_eq_Some)
  ultimately show ?thesis by (simp add: evolves_def)
qed

lemma trigger_new_nexthop_evolves:
  assumes vt: "contracts vt" and env: "env_ok env"
  shows "fib_nexthop s (nh_face nh) \<Longrightarrow> trigger_new_nexthop vt env nh ps s = Inr s' \<Longrightarrow> evolves s s'"
proof (induction ps arbitrary: s)
  case (Cons p ps)
  obtain st where st: "strategy_of vt p s = Some st"
    and rest: "trigger_new_nexthop vt env nh ps (vt_afterNewNextHop st env nh p s) = Inr s'"
    using Cons.prems(2) by (auto split: option.splits)
  have acts: "actions env p s (vt_afterNewNextHop st env nh p s)"
    by (rule strategy_contract.afterNewNextHop [OF strategy_contract_of [OF vt st] env Cons.prems(1)])
  from Cons.prems(1) have "fib_nexthop (vt_afterNewNextHop st env nh p s) (nh_face nh)"
    by (simp add: fib_nexthop_frame [OF actions_frame [OF acts]])
  then have "evolves (vt_afterNewNextHop st env nh p s) s'" using rest by (rule Cons.IH)
  with actions_evolve [OF acts] show ?case by (rule evolves_trans)
qed simp

lemma addNextHop_evolves:
  assumes vt: "contracts vt" and env: "env_ok env" and inv: "fw_inv sha s"
    and r: "addNextHop vt env pfx faceId cost s = Inr (s', code)"
  shows "evolves s s'"
proof (cases "length pfx > getMaxDepth \<or> FaceTable_get faceId (fw_faceTable s) = None")
  case False
  then obtain face where face: "FaceTable_get faceId (fw_faceTable s) = Some face" and len: "length pfx \<le> getMaxDepth"
    by auto
  obtain s2 new where s2: "evolves s s2"
    and nh: "\<And>nh. new = Some nh \<Longrightarrow> fib_nexthop s2 (nh_face nh)"
    and res: "addNextHop vt env pfx faceId cost s = (case new of None \<Rightarrow> Inr (s2, 200)
      | Some nh \<Rightarrow> map_sum id (\<lambda>s. (s, 200)) (onNewNextHop vt env pfx nh s2))"
    by (rule addNextHop_steps [OF inv face len, of vt env cost]) (rule that [OF evolves_fib]; assumption)
  have "evolves s s'" if "new = Some nh" "onNewNextHop vt env pfx nh s2 = Inr s'" for nh
    using trigger_new_nexthop_evolves [OF vt env nh [OF that(1)] that(2) [unfolded onNewNextHop_def]]
    by (rule evolves_trans [OF s2])
  with s2 r show ?thesis unfolding res by (cases new) (auto simp: map_sum_eq_Inr)
qed (use r in \<open>auto simp: addNextHop_def split: option.splits if_splits\<close>)

lemma removeNextHop_evolves: "evolves s (removeNextHop pfx faceId s)"
  by (auto simp: removeNextHop_def split: option.split intro: evolves_remove)

lemma cleanup_visit_evolves: "evolves s (cleanup_visit face n s)"
proof -
  define s1 where "s1 = (case nt_fib (ntree s) n of Some _ \<Rightarrow> fst (Fib_removeNextHop n face s) | None \<Rightarrow> s)"
  have s1: "evolves s s1"
    unfolding s1_def by (simp add: evolves_remove split: option.split)
  have "evolves s x \<Longrightarrow> evolves s (fold (\<lambda>p. deleteInOutRecords p face) ps x)" for ps x
    by (induction ps arbitrary: x) (simp_all add: deleteInOutRecords_drop evolves_modify)
  with s1 show ?thesis by (simp add: cleanup_visit_def Let_def s1_def [symmetric])
qed

lemma cleanup_evolves:
  assumes inv: "fw_inv sha s"
  shows "evolves s (cleanupOnFaceRemoval face s)"
proof -
  define r where "r = fold (\<lambda>n (s, es). let s = cleanup_visit face n s
      in (s, if \<not> nt_hasTableEntries (ntree s) n then es @ [n] else es)) (map nte_name (ntree s)) (s, [])"
  have fold: "evolves s0 x \<Longrightarrow> evolves s0 (fold (cleanup_visit face) ns x)" for ns s0 x
    by (induction ns arbitrary: x) (simp_all add: evolves_trans [OF _ cleanup_visit_evolves])
  have r: "fst r = fold (cleanup_visit face) (map nte_name (ntree s)) s" unfolding r_def by (rule fst_cleanup_fold)
  then have "evolves s (fst r)" by (simp add: fold)
  moreover have "nt_inv (ntree (fst r))"
    unfolding r using cleanup_fold [OF inv] by (blast intro: tables_okD fw_invD(1))
  ultimately show ?thesis
    by (cases r) (simp add: cleanupOnFaceRemoval_def r_def [symmetric] erase_fold)
qed

lemma removeFace_evolves: "fw_inv sha s \<Longrightarrow> evolves s (removeFace faceId s)"
  using cleanup_evolves by (simp add: removeFace_def Let_def split: option.split)

lemma Measurements_cleanup_evolves:
  assumes "nt_inv (ntree s)"
  shows "evolves s (Measurements_cleanup n s)"
proof -
  have c: "same_but_meas s (Measurements_cleanup n s)" by (rule same_but_meas_ops(4) [OF assms])
  then have "nt_fib (ntree (Measurements_cleanup n s)) = nt_fib (ntree s)" by (simp add: same_but_meas_def)
  moreover obtain u k where "Measurements_cleanup n s = s\<lparr>ntree := u, meas_nItems := k\<rparr>"
    using c unfolding same_but_meas_def by blast
  ultimately show ?thesis by (simp add: evolves_def)
qed

lemma setStrategy_evolves:
  assumes inv: "fw_inv sha s" and r: "setStrategy lc pfx n s = Inr s'"
  shows "evolves s s'"
proof (cases "length pfx \<le> getMaxDepth \<and> (\<exists>st. Strategy_create lc n = StrategyCreated st)")
  case True
  then obtain st where len: "length pfx \<le> getMaxDepth" and st: "Strategy_create lc n = StrategyCreated st" by blast
  obtain res where "StrategyChoice_insert lc pfx n s = Some (s', res)"
    using r by (auto simp: setStrategy_def split: option.splits)
  then show ?thesis
    using insert_sc_change [OF tables_okD [OF fw_invD(1) [OF inv]] len st] by (blast intro: evolves_sc)
next
  case False
  then have "s' = s"
    using r StrategyChoice_insert_fails [of pfx lc n s]
    by (cases "length pfx \<le> getMaxDepth"; cases "Strategy_create lc n") (simp_all add: setStrategy_def)
  then show ?thesis by simp
qed

lemma unsetStrategy_evolves:
  assumes inv: "fw_inv sha s" and r: "unsetStrategy pfx s = Inr s'"
  shows "evolves s s'"
  using r erase_sc_change [OF tables_okD [OF fw_invD(1) [OF inv]]]
  by (auto simp: unsetStrategy_def intro: evolves_sc split: option.splits)

section \<open>Expiry\<close>

lemma Pit_erase_entry:
  "pit_heap (Pit_erase p True s) q =
     (if q = p then map_option (\<lambda>e. e\<lparr>pe_nte := None\<rparr>) (pit_heap s p) else pit_heap s q)"
  by (auto simp: Pit_erase_def Let_def split: option.split)

lemma Pit_erase_fib:
  assumes "nt_inv (ntree s)"
  shows "nt_fib (ntree (Pit_erase p True s)) = nt_fib (ntree s)"
proof -
  have "nt_inv (nt_update n (erasePitEntry p) (ntree s))" for n by (rule nt_inv_pit_ops [OF assms])
  then show ?thesis by (simp add: Pit_erase_def Let_def table_simps split: option.split)
qed

lemma onInterestFinalize_entries:
  assumes inv: "fw_inv sha s" and r: "onInterestFinalize env p s = Inr s'"
  shows "evolves s s'" "\<not> attached s' p"
proof -
  have "\<exists>f. pit_heap s' = (pit_heap s)(p := map_option f (pit_heap s p)) \<and> fw_regions s' = fw_regions s \<and>
      nt_fib (ntree s') = nt_fib (ntree s) \<and> (\<forall>e. pe_interest (f e) = pe_interest e \<and> pe_nte (f e) = None)"
  proof (cases "pit_heap s p")
    case None
    then have "s' = s" using r by (simp add: onInterestFinalize_def)
    with None show ?thesis by (intro exI [of _ "\<lambda>e. e\<lparr>pe_nte := None\<rparr>"]) (simp add: fun_eq_iff)
  next
    case (Some e)
    obtain s1 where s1: "insertDeadNonceList env e None s = Inr s1"
      and s': "s' = Pit_erase p True (pit_modify p (\<lambda>e. e\<lparr>pe_expiryTimer := None\<rparr>)
        (bump (\<lambda>c. if pe_isSatisfied e then c\<lparr>nSatisfiedInterests := nSatisfiedInterests c + 1\<rparr>
           else c\<lparr>nUnsatisfiedInterests := nUnsatisfiedInterests c + 1\<rparr>) s1))"
      using r Some by (auto simp: onInterestFinalize_def Let_def split: sum.splits)
    obtain d where d: "s1 = s\<lparr>fw_dnl := d\<rparr>" by (rule insertDeadNonceList_Inr [OF s1])
    have nt: "nt_inv (ntree s)" by (rule tables_okD [OF fw_invD(1) [OF inv]])
    have reg: "fw_regions (Pit_erase p True x) = fw_regions x" for x
      by (simp add: Pit_erase_def Let_def split: option.split)
    show ?thesis
      by (rule exI [of _ "\<lambda>e. e\<lparr>pe_expiryTimer := None, pe_nte := None\<rparr>"])
        (simp add: s' d reg fun_eq_iff Pit_erase_entry Pit_erase_fib nt pit_modify_def bump_def option.map_comp comp_def)
  qed
  then obtain f where f: "pit_heap s' = (pit_heap s)(p := map_option f (pit_heap s p))" "fw_regions s' = fw_regions s"
    "nt_fib (ntree s') = nt_fib (ntree s)" "\<And>e. pe_interest (f e) = pe_interest e" "\<And>e. pe_nte (f e) = None" by blast
  then have le: "entry_le e (f e)" for e by (simp add: entry_le_def)
  show "evolves s s'" unfolding evolves_def f(1-3) using le by auto
  show "\<not> attached s' p" unfolding attached_def f(1) using f(5) by auto
qed

section \<open>Configuration\<close>

definition no_hints :: "fw_state \<Rightarrow> bool" where
  "no_hints s \<longleftrightarrow> (\<forall>q e. pit_heap s q = Some e \<longrightarrow> pe_nte e \<noteq> None \<longrightarrow> i_forwardingHint (pe_interest e) = [])"

lemma no_hints_evolves: "evolves s s' \<Longrightarrow> no_hints s \<Longrightarrow> no_hints s'"
  unfolding evolves_def no_hints_def entry_le_def by metis

lemma no_hints_listed:
  assumes inv: "fw_inv sha s"
    and all: "list_all (\<lambda>p. case pit_heap s p of Some e \<Rightarrow> i_forwardingHint (pe_interest e) = [] | None \<Rightarrow> True)
      (concat (map nte_pits (ntree s)))"
  shows "no_hints s"
  unfolding no_hints_def
proof (intro allI impI)
  fix q e assume e: "pit_heap s q = Some e" "pe_nte e \<noteq> None"
  then obtain n where n: "pe_nte e = Some n" by blast
  have "pit_ok (nt_pits (ntree s)) (pit_heap s) (pit_next s) (pit_nItems s)"
    using fw_invD(1) [OF inv] by (simp add: tables_ok_def pit_inv_def)
  from pit_okD(2) [OF this, of q n] have mem: "q \<in> set (nt_pits (ntree s) n)" using e(1) n by blast
  then have "nt_find (ntree s) n \<noteq> None" by (intro nt_pits_present) auto
  then obtain x where x: "nt_find (ntree s) n = Some x" by blast
  then have "x \<in> set (ntree s)" by (auto simp: nt_find_def dest: find_SomeD)
  moreover have "q \<in> set (nte_pits x)" using nt_pits_find [OF x] mem by simp
  ultimately show "i_forwardingHint (pe_interest e) = []" using all e(1) by (fastforce simp: list_all_iff)
qed

lemma entries_live_regions: "entries_live s \<Longrightarrow> no_hints s \<Longrightarrow> entries_live (s\<lparr>fw_regions := rs\<rparr>)"
  by (simp add: entries_live_def entry_live_def no_hints_def isInProducerRegion_def list_ex_iff)

lemma processConfig_live:
  assumes inv: "fw_inv sha s" and live: "entries_live s"
    and hints: "\<not> isDryRun \<Longrightarrow> tc_networkRegion cfg \<noteq> None \<Longrightarrow> no_hints s"
  shows "entries_live (fst (processConfig sha lc isDryRun cfg s))"
proof -
  let ?P = "\<lambda>x. fw_inv sha x \<and> entries_live x \<and> (\<not> isDryRun \<longrightarrow> tc_networkRegion cfg \<noteq> None \<longrightarrow> no_hints x)"
  have "?P (fst (processConfig sha lc isDryRun cfg s))"
  proof (rule processConfig_keeps [where P = ?P])
    fix s pfx st s' res assume P: "?P s" and r: "StrategyChoice_insert lc pfx st s = Some (s', res)"
    then have "setStrategy lc pfx st s = Inr s'" by (simp add: setStrategy_def)
    with P have "fw_inv sha s'" "evolves s s'" using setStrategy_ok [of sha s lc pfx st] setStrategy_evolves by auto
    with P show "?P s'" using evolves_live no_hints_evolves by blast
  next
    fix s n p u assume P: "?P s" and "\<And>q. p = Some q \<Longrightarrow> policy_refs q = []"
    then have "fw_inv sha (apply_config sha n p u s)" by (simp add: apply_config_inv)
    moreover have "evolves s (apply_config sha n p u s)" by (simp add: apply_config_def Let_def evolves_def)
    ultimately show "?P (apply_config sha n p u s)" using P evolves_live no_hints_evolves by blast
  next
    fix s rs assume "\<not> isDryRun" "tc_networkRegion cfg \<noteq> None" and P: "?P s"
    then show "?P (s\<lparr>fw_regions := rs\<rparr>)"
      using fw_inv_config(2) [OF _ fw_invD(2) fw_invD(7)] by (auto simp: entries_live_regions) (simp add: no_hints_def)
  qed (use assms in simp)
  then show ?thesis by blast
qed

section \<open>Runs\<close>

lemma handle_live:
  assumes vt: "contracts vt" and env: "env_ok env" "e_sha env = sha" and inv: "fw_inv sha s" and live: "entries_live s"
    and en: "enabled sha (e_now env) ev s" and r: "handle vt lc env ev s = Inr s'"
  shows "entries_live s'"
proof (cases ev)
  case (ReceiveInterest f i)
  with en r have "interest_small i" "onIncomingInterest vt env f i s = Inr s'" by simp_all
  then show ?thesis by (rule onIncomingInterest_live [OF vt env(1) inv _ live])
next
  case (ReceiveNack f i reason)
  with en r have "interest_small i" "onIncomingNack vt env f i reason s = Inr s'" by simp_all
  then have "evolves s s'" by (rule onIncomingNack_evolves [OF vt env(1) inv])
  then show ?thesis using live by (rule evolves_live)
next
  case (AddNextHop n k c)
  then obtain code where "addNextHop vt env n k c s = Inr (s', code)" using r by (auto simp: map_sum_eq_Inr)
  then have "evolves s s'" by (rule addNextHop_evolves [OF vt env(1) inv])
  then show ?thesis using live by (rule evolves_live)
next
  case (ConfigureTables isDryRun cfg)
  with r have s': "s' = fst (processConfig sha lc isDryRun cfg s)" using env(2) by simp
  show ?thesis
    unfolding s' by (rule processConfig_live [OF inv live]) (use en no_hints_listed [OF inv] ConfigureTables in auto)
next
  case (EraseCs n k)
  with r obtain x where "CsManager_erase env n k s = Inr (s', x)" by (auto simp: map_sum_eq_Inr)
  then have "evolves s s'" by (rule CsManager_erase_cs) (use inv env(2) in simp_all)
  then show ?thesis using live by (rule evolves_live)
qed (use r evolves_live [OF _ live] in \<open>auto simp: addFace_def addReservedFace_def changeConfig_def Let_def intro: onIncomingData_evolves [OF vt env(1)]
    onDroppedInterest_evolves [OF vt env(1)] onInterestFinalize_entries [OF inv] removeFace_evolves [OF inv] removeNextHop_evolves
    setStrategy_evolves [OF inv] unsetStrategy_evolves [OF inv]
    Measurements_cleanup_evolves [OF tables_okD [OF fw_invD(1) [OF inv]]]\<close>)

lemma reachable_live: "reachable vt lc sha s \<Longrightarrow> contracts vt \<Longrightarrow> entries_live s"
proof (induction rule: reachable.induct)
  case (reach_init store now s)
  then show ?case
    by (auto simp: Forwarder_new_def setDefaultStrategy_default entries_live_def table_simps split: option.splits)
next
  case (reach_step s env ev s')
  then show ?case using handle_live reachable_inv by blast
qed

end
