(* ===== verification/Spec2Isabelle.thy ===== *)
theory Spec2Isabelle
  imports ForwarderTimers
begin

text \<open>
  NDN-FC+: a fork of the NDN forwarding daemon and of its library ndn-cxx in which Interests and
  Data carry, besides their Name, a Name of functions to apply (function chaining).
\<close>

end
